(* ===== verification/Prelude.thy ===== *)
theory Prelude
  imports Main "HOL-Library.Word" "HOL-Library.Sublist"
begin

text \<open>
  Shared vocabulary of the development.

  \<^item> Rust data: a \<open>String\<close> is the list of its UTF-8 bytes (\<^typ>\<open>string\<close>), a
    \<open>Vec<u8>\<close> a list of 8-bit words, a \<open>Duration\<close> its length in nanoseconds
    (with the bound of the Rust type written out where the code checks it), an
    \<open>Instant\<close> nanoseconds of a monotonic clock, a \<open>SystemTime\<close> signed
    nanoseconds relative to the Unix epoch.
  \<^item> Rust control: the \<open>CacheError\<close> enum, \<open>Result\<close> (with a separate value for a
    panic), and effectful functions as state passing over a world type.
  \<^item> Rust library routines the sources use: first-seen deduplication through a
    \<open>HashSet\<close>, \<open>chunks\<close>, \<open>split_once\<close>, decimal formatting, the checked and
    saturating operations of \<open>Duration\<close>.
\<close>

named_theorems io_simps "unfolding rules of the effect combinators"
named_theorems key_simps "unfolding rules of the key builders"

subsection \<open>Errors and results\<close>

type_synonym bytes = "8 word list"

datatype cache_error =
    NotFound
  | Unsupported
  | NoTTL
  | Overloaded
  | PartialDelete nat cache_error
  | Internal string

datatype 'a rresult = Ok 'a | Err cache_error | Panic

type_synonym ('w, 'a) io = "'w \<Rightarrow> 'a rresult \<times> 'w"

definition io_ret :: "'a \<Rightarrow> ('w, 'a) io" where
  "io_ret x w = (Ok x, w)"

definition io_fail :: "cache_error \<Rightarrow> ('w, 'a) io" where
  "io_fail e w = (Err e, w)"

text \<open>The \<open>?\<close> operator after an awaited call: an error (or a panic) ends the caller.\<close>

definition io_bind :: "('w, 'a) io \<Rightarrow> ('a \<Rightarrow> ('w, 'b) io) \<Rightarrow> ('w, 'b) io" where
  "io_bind m f w =
     (case m w of
        (Ok x, w') \<Rightarrow> f x w'
      | (Err e, w') \<Rightarrow> (Err e, w')
      | (Panic, w') \<Rightarrow> (Panic, w'))"

text \<open>A pure fallible computation used inside an effectful one.\<close>

definition io_lift :: "'a rresult \<Rightarrow> ('w, 'a) io" where
  "io_lift r w = (r, w)"

text \<open>Waiting for a call and discarding its result (\<open>let _ = ...\<close>); a panic still unwinds.\<close>

definition io_ignore :: "('w, 'a) io \<Rightarrow> ('w, unit) io" where
  "io_ignore m w =
     (case m w of
        (Panic, w') \<Rightarrow> (Panic, w')
      | (_, w') \<Rightarrow> (Ok (), w'))"

lemmas [io_simps] = io_ret_def io_fail_def io_lift_def

lemma io_bind_ret [simp]: "io_bind (io_ret x) f = f x"
  by (rule ext) (simp add: io_bind_def io_ret_def)

lemma io_bind_fail [simp]: "io_bind (io_fail e) f = io_fail e"
  by (rule ext) (simp add: io_bind_def io_fail_def)

lemma io_bind_lift_Ok [simp]: "io_bind (io_lift (Ok x)) f = f x"
  by (rule ext) (simp add: io_bind_def io_lift_def)

lemma io_bind_lift_Err [simp]: "io_bind (io_lift (Err e)) f = io_fail e"
  by (rule ext) (simp add: io_bind_def io_lift_def io_fail_def)

lemma io_bind_ret_right [simp]: "io_bind m io_ret = m"
  by (rule ext) (simp add: io_bind_def io_ret_def split: prod.splits rresult.splits)

text \<open>The first call either returned, and the rest ran, or ended the whole sequence.\<close>

lemma io_bindE:
  assumes "io_bind m f w = (r, w')"
  obtains (ok) x w1 where "m w = (Ok x, w1)" "f x w1 = (r, w')"
    | (err) e where "m w = (Err e, w')" "r = Err e"
    | (panic) "m w = (Panic, w')" "r = Panic"
  using assms by (auto simp: io_bind_def split: prod.splits rresult.splits)

lemma io_bind_Ok:
  "io_bind m f w = (Ok y, w') \<longleftrightarrow> (\<exists>x w1. m w = (Ok x, w1) \<and> f x w1 = (Ok y, w'))"
  by (auto simp: io_bind_def split: prod.splits rresult.splits)

lemma io_lift_result [simp]: "io_lift r w = (q, w') \<longleftrightarrow> r = q \<and> w' = w"
  by (auto simp: io_lift_def)

lemma io_ret_result [simp]: "io_ret x w = (q, w') \<longleftrightarrow> q = Ok x \<and> w' = w"
  by (auto simp: io_ret_def)

lemma io_fail_result [simp]: "io_fail e w = (q, w') \<longleftrightarrow> q = Err e \<and> w' = w"
  by (auto simp: io_fail_def)

text \<open>Sequential iteration stopping at the first error: \<open>for x in xs { ...?; }\<close>.\<close>

fun io_each :: "('a \<Rightarrow> ('w, unit) io) \<Rightarrow> 'a list \<Rightarrow> ('w, unit) io" where
  "io_each f [] = io_ret ()"
| "io_each f (x # xs) = io_bind (f x) (\<lambda>_. io_each f xs)"

text \<open>
  Ordered collection stopping at the first error: \<open>for\<close> loops that push, and
  \<open>stream::iter(..).buffered(n).try_collect()\<close>, whose results keep the input order.
\<close>

fun io_collect :: "('a \<Rightarrow> ('w, 'b) io) \<Rightarrow> 'a list \<Rightarrow> ('w, 'b list) io" where
  "io_collect f [] = io_ret []"
| "io_collect f (x # xs) =
     io_bind (f x) (\<lambda>y. io_bind (io_collect f xs) (\<lambda>ys. io_ret (y # ys)))"

lemma io_collect_length: "io_collect f xs w = (Ok ys, w') \<Longrightarrow> length ys = length xs"
  by (induction xs arbitrary: ys w) (auto simp: io_bind_Ok io_ret_def)

text \<open>\<open>into_iter().map(f).collect::<Result<Vec<_>>>()\<close>: results in order, or the first failure.\<close>

fun collect_results :: "('a \<Rightarrow> 'b rresult) \<Rightarrow> 'a list \<Rightarrow> 'b list rresult" where
  "collect_results f [] = Ok []"
| "collect_results f (x # xs) =
     (case f x of
        Ok y \<Rightarrow> (case collect_results f xs of Ok ys \<Rightarrow> Ok (y # ys) | Err e \<Rightarrow> Err e | Panic \<Rightarrow> Panic)
      | Err e \<Rightarrow> Err e
      | Panic \<Rightarrow> Panic)"

lemma collect_results_Ok: "collect_results f xs = Ok ys \<longleftrightarrow> map f xs = map Ok ys"
proof (induction xs arbitrary: ys)
  case (Cons x xs)
  then show ?case by (cases ys; cases "f x"; cases "collect_results f xs") auto
qed auto

lemma collect_results_map [simp]: "(\<And>x. x \<in> set xs \<Longrightarrow> f x = Ok (g x)) \<Longrightarrow> collect_results f xs = Ok (map g xs)"
  by (simp add: collect_results_Ok)

text \<open>An invariant kept by every call is kept by the whole loop, however it ends.\<close>

lemma io_each_invariant:
  assumes "\<And>x w r w'. x \<in> set xs \<Longrightarrow> P w \<Longrightarrow> f x w = (r, w') \<Longrightarrow> P w'"
    and "P w" and "io_each f xs w = (r, w')"
  shows "P w'"
  using assms
proof (induction xs arbitrary: w)
  case Nil
  then show ?case by (simp add: io_ret_def)
next
  case (Cons x xs)
  from Cons.prems(3) have "io_bind (f x) (\<lambda>_. io_each f xs) w = (r, w')" by simp
  then show ?case
  proof (cases rule: io_bindE)
    case (ok y w1)
    have "P w1" using Cons.prems(1) [of x w "Ok y" w1] Cons.prems(2) ok(1) by simp
    with Cons.IH [OF _ _ ok(2)] Cons.prems(1) show ?thesis by auto
  qed (use Cons.prems in auto)
qed

lemma io_collect_invariant:
  assumes "\<And>x w r w'. x \<in> set xs \<Longrightarrow> P w \<Longrightarrow> f x w = (r, w') \<Longrightarrow> P w'"
    and "P w" and "io_collect f xs w = (r, w')"
  shows "P w'"
  using assms
proof (induction xs arbitrary: w r w')
  case Nil
  then show ?case by (simp add: io_ret_def)
next
  case (Cons x xs)
  from Cons.prems(3)
  have "io_bind (f x) (\<lambda>y. io_bind (io_collect f xs) (\<lambda>ys. io_ret (y # ys))) w = (r, w')"
    by simp
  then show ?case
  proof (cases rule: io_bindE)
    case (ok y w1)
    have P1: "P w1" using Cons.prems(1) [of x w "Ok y" w1] Cons.prems(2) ok(1) by simp
    from ok(2) show ?thesis
    proof (cases rule: io_bindE)
      case (ok ys w2)
      have "P w2" by (rule Cons.IH [OF _ P1 ok(1)]) (use Cons.prems(1) in auto)
      with ok(2) show ?thesis by (simp add: io_ret_def)
    next
      case (err e)
      show ?thesis by (rule Cons.IH [OF _ P1 err(1)]) (use Cons.prems(1) in auto)
    next
      case panic
      show ?thesis by (rule Cons.IH [OF _ P1 panic(1)]) (use Cons.prems(1) in auto)
    qed
  qed (use Cons.prems in auto)
qed

text \<open>A loop whose every call succeeds succeeds.\<close>

lemma io_each_total:
  assumes "\<And>x w. \<exists>w'. f x w = (Ok (), w')"
  shows "\<exists>w'. io_each f xs w = (Ok (), w')"
proof (induction xs arbitrary: w)
  case (Cons x xs)
  obtain w1 where "f x w = (Ok (), w1)" using assms by blast
  with Cons.IH [of w1] show ?case by (simp add: io_bind_def)
qed (simp add: io_ret_def)

lemma io_collect_total:
  assumes "\<And>x w. \<exists>y w'. f x w = (Ok y, w')"
  shows "\<exists>ys w'. io_collect f xs w = (Ok ys, w')"
proof (induction xs arbitrary: w)
  case (Cons x xs)
  obtain y w1 where 1: "f x w = (Ok y, w1)" using assms by blast
  obtain ys w2 where "io_collect f xs w1 = (Ok ys, w2)" using Cons.IH by blast
  with 1 show ?case by (simp add: io_bind_def io_ret_def)
qed (simp add: io_ret_def)

text \<open>
  Loops of observations. \<open>calm\<close> relates the worlds before and after a call that does not
  interfere with what is observed; \<open>obs w w' x y\<close> says that \<open>y\<close> answers the question \<open>x\<close> at some
  moment between \<open>w\<close> and \<open>w'\<close>. Answers collected by a loop are answers about the whole run.
\<close>

locale observation =
  fixes calm :: "'w \<Rightarrow> 'w \<Rightarrow> bool"
    and obs :: "'w \<Rightarrow> 'w \<Rightarrow> 'a \<Rightarrow> 'b \<Rightarrow> bool"
  assumes calm_refl: "calm w w"
    and calm_trans: "calm w1 w2 \<Longrightarrow> calm w2 w3 \<Longrightarrow> calm w1 w3"
    and obs_pre: "calm w0 w1 \<Longrightarrow> obs w1 w2 x y \<Longrightarrow> obs w0 w2 x y"
    and obs_post: "obs w1 w2 x y \<Longrightarrow> calm w2 w3 \<Longrightarrow> obs w1 w3 x y"
begin

lemma each_calm:
  assumes "\<And>x w r w'. f x w = (r, w') \<Longrightarrow> calm w w'" and "io_each f xs w = (r, w')"
  shows "calm w w'"
  by (rule io_each_invariant [where P = "calm w", OF _ calm_refl assms(2)])
    (blast intro: calm_trans assms(1))

lemma collect_calm:
  assumes "\<And>x w r w'. f x w = (r, w') \<Longrightarrow> calm w w'" and "io_collect f xs w = (r, w')"
  shows "calm w w'"
  by (rule io_collect_invariant [where P = "calm w", OF _ calm_refl assms(2)])
    (blast intro: calm_trans assms(1))

lemma obs_all_pre: "calm w0 w1 \<Longrightarrow> list_all2 (obs w1 w2) xs ys \<Longrightarrow> list_all2 (obs w0 w2) xs ys"
  by (auto elim!: list_all2_mono intro: obs_pre)

lemma obs_all_post: "list_all2 (obs w1 w2) xs ys \<Longrightarrow> calm w2 w3 \<Longrightarrow> list_all2 (obs w1 w3) xs ys"
  by (auto elim!: list_all2_mono intro: obs_post)

lemma collect_obs:
  assumes calm: "\<And>x w r w'. f x w = (r, w') \<Longrightarrow> calm w w'"
    and one: "\<And>x w y w'. f x w = (Ok y, w') \<Longrightarrow> obs w w' x y"
    and "io_collect f xs w = (Ok ys, w')"
  shows "list_all2 (obs w w') xs ys"
  using assms(3)
proof (induction xs arbitrary: w ys)
  case Nil
  then show ?case by (simp add: io_ret_def)
next
  case (Cons x xs)
  then obtain y w1 ys' where s: "f x w = (Ok y, w1)" "io_collect f xs w1 = (Ok ys', w')" "ys = y # ys'"
    by (auto simp: io_bind_Ok io_ret_def)
  have "obs w w' x y" by (rule obs_post [OF one [OF s(1)] collect_calm [OF calm s(2)]])
  moreover have "list_all2 (obs w w') xs ys'"
    by (rule obs_all_pre [OF calm [OF s(1)] Cons.IH [OF s(2)]])
  ultimately show ?case using s(3) by simp
qed

end

subsection \<open>Lists: first-seen deduplication and chunks\<close>

text \<open>
  \<open>filter(|key| seen.insert(key.clone()))\<close> over a \<open>HashSet\<close>: an element passes when it was
  not seen before. The set is kept as a list; only membership is observed.
\<close>

fun dedup :: "'a list \<Rightarrow> 'a list \<Rightarrow> 'a list" where
  "dedup seen [] = []"
| "dedup seen (x # xs) =
     (if x \<in> set seen then dedup seen xs else x # dedup (x # seen) xs)"

lemma set_dedup: "set (dedup seen xs) = set xs - set seen"
  by (induction seen xs rule: dedup.induct) auto

lemma distinct_dedup: "distinct (dedup seen xs)"
  by (induction seen xs rule: dedup.induct) (auto simp: set_dedup)

lemma dedup_distinct: "distinct xs \<Longrightarrow> set xs \<inter> set seen = {} \<Longrightarrow> dedup seen xs = xs"
  by (induction seen xs rule: dedup.induct) auto

lemma length_dedup: "length (dedup [] xs) = card (set xs)"
  using distinct_card [OF distinct_dedup [of "[]" xs]] by (simp add: set_dedup)

lemma dedup_cong: "set s1 = set s2 \<Longrightarrow> dedup s1 xs = dedup s2 xs"
proof (induction xs arbitrary: s1 s2)
  case Nil
  then show ?case by simp
next
  case (Cons x xs)
  show ?case
  proof (cases "x \<in> set s2")
    case True
    with Cons.IH [OF Cons.prems] Cons.prems show ?thesis by simp
  next
    case False
    have "dedup (x # s1) xs = dedup (x # s2) xs"
      by (rule Cons.IH) (simp add: Cons.prems)
    with False Cons.prems show ?thesis by simp
  qed
qed

lemma dedup_append: "dedup seen (xs @ ys) = dedup seen xs @ dedup (seen @ xs) ys"
proof (induction xs arbitrary: seen)
  case Nil
  then show ?case by simp
next
  case (Cons x xs)
  have "dedup ((x # seen) @ xs) ys = dedup (seen @ x # xs) ys"
    by (rule dedup_cong) auto
  moreover have "x \<in> set seen \<Longrightarrow> dedup (seen @ xs) ys = dedup (seen @ x # xs) ys"
    by (rule dedup_cong) auto
  ultimately show ?case using Cons.IH [of seen] Cons.IH [of "x # seen"] by simp
qed

text \<open>\<open>slice::chunks\<close>; the sources call it with positive constants only.\<close>

function chunks :: "nat \<Rightarrow> 'a list \<Rightarrow> 'a list list" where
  "chunks n xs = (if xs = [] \<or> n = 0 then [] else take n xs # chunks n (drop n xs))"
  by pat_completeness auto
termination
  by (relation "measure (\<lambda>(n, xs). length xs)") auto

declare chunks.simps [simp del]

lemma chunks_Nil [simp]: "chunks n [] = []"
  by (simp add: chunks.simps)

lemma concat_chunks: "0 < n \<Longrightarrow> concat (chunks n xs) = xs"
proof (induction n xs rule: chunks.induct)
  case (1 n xs)
  then show ?case by (cases "xs = []") (simp_all add: chunks.simps [of n xs])
qed

lemma chunks_bound: "c \<in> set (chunks n xs) \<Longrightarrow> 0 < length c \<and> length c \<le> n"
proof (induction n xs rule: chunks.induct)
  case (1 n xs)
  then show ?case by (auto simp: chunks.simps [of n xs] split: if_splits)
qed

lemma chunks_subset: "c \<in> set (chunks n xs) \<Longrightarrow> set c \<subseteq> set xs"
proof (induction n xs rule: chunks.induct)
  case (1 n xs)
  then show ?case
    by (auto simp: chunks.simps [of n xs] split: if_splits dest: in_set_takeD in_set_dropD)
qed

text \<open>Every chunk but the last is full.\<close>

lemma chunks_full: "chunks n xs = ds @ b # rest \<Longrightarrow> n dvd length (concat ds)"
proof (induction ds arbitrary: xs)
  case Nil
  then show ?case by simp
next
  case (Cons d ds)
  then have ne: "xs \<noteq> []" "0 < n" and d: "d = take n xs" "chunks n (drop n xs) = ds @ b # rest"
    by (auto simp: chunks.simps [of n xs] split: if_splits)
  have "drop n xs \<noteq> []" using d(2) by auto
  then have "length d = n" using d(1) by simp
  with Cons.IH [OF d(2)] show ?case by simp
qed

lemma chunks_count: "0 < n \<Longrightarrow> length (chunks n xs) = (length xs + n - 1) div n"
proof (induction n xs rule: chunks.induct)
  case (1 n xs)
  show ?case
  proof (cases "xs = []")
    case True
    with 1 show ?thesis by simp
  next
    case ne: False
    have step: "length (chunks n xs) = Suc (length (chunks n (drop n xs)))"
      using ne 1(2) by (simp add: chunks.simps [of n xs])
    have IH: "length (chunks n (drop n xs)) = (length xs - n + n - 1) div n"
      using 1 ne by simp
    show ?thesis
    proof (cases "length xs \<le> n")
      case True
      then have "(length xs + n - 1) div n = Suc 0"
        using ne 1(2) by (intro div_nat_eqI) (cases xs; auto)+
      moreover have "chunks n (drop n xs) = []" using True by simp
      ultimately show ?thesis using step by simp
    next
      case False
      then have "length xs + n - 1 = (length xs - n + n - 1) + n" using 1(2) by simp
      then have "(length xs + n - 1) div n = Suc ((length xs - n + n - 1) div n)"
        using 1(2) by (metis Suc_eq_plus1 div_add_self2 less_not_refl)
      with IH step show ?thesis by simp
    qed
  qed
qed

subsection \<open>Strings\<close>

text \<open>\<open>str::split_once\<close>: the parts before and after the first occurrence of a character.\<close>

fun split_once :: "char \<Rightarrow> string \<Rightarrow> (string \<times> string) option" where
  "split_once c [] = None"
| "split_once c (x # xs) =
     (if x = c then Some ([], xs)
      else case split_once c xs of
             None \<Rightarrow> None
           | Some (a, b) \<Rightarrow> Some (x # a, b))"

lemma split_once_append: "c \<notin> set a \<Longrightarrow> split_once c (a @ c # b) = Some (a, b)"
  by (induction a) auto

lemma split_once_None: "split_once c xs = None \<longleftrightarrow> c \<notin> set xs"
  by (induction xs) (auto split: option.splits)

lemma split_once_Some: "split_once c xs = Some (a, b) \<Longrightarrow> xs = a @ c # b \<and> c \<notin> set a"
  by (induction xs arbitrary: a) (auto split: if_splits option.splits)

text \<open>Two strings that continue after the same separator agree on what precedes it.\<close>

lemma separated_eq:
  fixes c :: char
  assumes "c \<notin> set a" "c \<notin> set a'" "a @ c # b = a' @ c # b'"
  shows "a = a' \<and> b = b'"
proof -
  have "Some (a, b) = split_once c (a @ c # b)"
    by (simp add: split_once_append assms(1))
  also have "\<dots> = split_once c (a' @ c # b')"
    by (simp only: assms(3))
  also have "\<dots> = Some (a', b')"
    by (simp add: split_once_append assms(2))
  finally show ?thesis by simp
qed

text \<open>Decimal formatting of unsigned integers, \<open>format!("{n}")\<close>.\<close>

definition digit_char :: "nat \<Rightarrow> char" where
  "digit_char d = char_of (48 + d)"

fun show_nat :: "nat \<Rightarrow> string" where
  "show_nat n = (if n < 10 then [digit_char n] else show_nat (n div 10) @ [digit_char (n mod 10)])"

declare show_nat.simps [simp del]

definition digit_val :: "char \<Rightarrow> nat" where
  "digit_val c = of_char c - 48"

lemma digit_val_char [simp]: "d < 10 \<Longrightarrow> digit_val (digit_char d) = d"
  by (simp add: digit_val_def digit_char_def of_char_of)

definition read_nat :: "string \<Rightarrow> nat" where
  "read_nat s = foldl (\<lambda>a c. 10 * a + digit_val c) 0 s"

lemma read_show_nat [simp]: "read_nat (show_nat n) = n"
proof (induction n rule: show_nat.induct)
  case (1 n)
  then show ?case
    by (cases "n < 10") (simp_all add: read_nat_def show_nat.simps [of n])
qed

lemma show_nat_inject [simp]: "show_nat m = show_nat n \<longleftrightarrow> m = n"
  by (metis read_show_nat)

lemma show_nat_digits: "c \<in> set (show_nat n) \<Longrightarrow> \<exists>d<10. c = digit_char d"
proof (induction n rule: show_nat.induct)
  case (1 n)
  show ?case
  proof (cases "n < 10")
    case True
    with 1(2) show ?thesis by (auto simp: show_nat.simps [of n])
  next
    case False
    with 1(2) have "c \<in> set (show_nat (n div 10)) \<or> c = digit_char (n mod 10)"
      by (auto simp: show_nat.simps [of n])
    moreover have "n mod 10 < 10" by simp
    ultimately show ?thesis using 1(1) [OF False] by blast
  qed
qed

lemma show_nat_no_colon: "CHR '':'' \<notin> set (show_nat n)"
proof
  assume "CHR '':'' \<in> set (show_nat n)"
  then obtain d where "d < 10" "CHR '':'' = digit_char d"
    using show_nat_digits by blast
  then have "of_char (CHR '':'') = 48 + d"
    by (simp add: digit_char_def of_char_of)
  with \<open>d < 10\<close> show False by simp
qed

subsection \<open>Durations and clocks\<close>

text \<open>\<open>Duration\<close> holds at most \<open>u64::MAX\<close> seconds and 999999999 nanoseconds.\<close>

definition duration_max :: nat where
  "duration_max = (2 ^ 64 - 1) * 10 ^ 9 + 999999999"

definition duration_checked_add :: "nat \<Rightarrow> nat \<Rightarrow> nat option" where
  "duration_checked_add a b = (if a + b \<le> duration_max then Some (a + b) else None)"

definition duration_saturating_mul :: "nat \<Rightarrow> nat \<Rightarrow> nat" where
  "duration_saturating_mul a n = min duration_max (a * n)"

definition as_millis :: "nat \<Rightarrow> nat" where
  "as_millis d = d div 10 ^ 6"

definition as_secs :: "nat \<Rightarrow> nat" where
  "as_secs d = d div 10 ^ 9"

definition subsec_nanos :: "nat \<Rightarrow> nat" where
  "subsec_nanos d = d mod 10 ^ 9"

definition secs :: "nat \<Rightarrow> nat" where
  "secs n = n * 10 ^ 9"

text \<open>
  \<open>Instant\<close> and \<open>SystemTime\<close> store signed 64-bit seconds; \<open>Instant + Duration\<close> panics and
  \<open>SystemTime::checked_add\<close> answers \<open>None\<close> past that range.
\<close>

definition clock_max :: int where
  "clock_max = (2 ^ 63 - 1) * 10 ^ 9 + 999999999"

definition instant_add :: "nat \<Rightarrow> nat \<Rightarrow> nat option" where
  "instant_add t d = (if int (t + d) \<le> clock_max then Some (t + d) else None)"

definition system_time_checked_add :: "int \<Rightarrow> nat \<Rightarrow> int option" where
  "system_time_checked_add t d = (if t + int d \<le> clock_max then Some (t + int d) else None)"

lemma instant_add_Some: "instant_add t d = Some e \<Longrightarrow> e = t + d"
  by (simp add: instant_add_def split: if_splits)

end
