(* ===== verification/Keyspace.thy ===== *)
theory Keyspace
  imports Prelude
begin

text \<open>
  Key construction: \<open>cache/src/core/keyspace.rs\<close> and the glob escaping of
  \<open>cache/src/core/scanner.rs\<close>.

  One backend holds the entries of four strategies and of several databases in a flat
  namespace of strings, so everything above relies on two facts about these functions: the
  keys of one database never coincide unless they name the same thing, and the keys of one
  database never lie under the head of another. Both are proved here, with the conditions
  on field names and database names they need.
\<close>

subsection \<open>The prefix builder\<close>

record keyspace =
  ks_base :: string

definition keyspace_new :: "string \<Rightarrow> string \<Rightarrow> nat \<Rightarrow> bool \<Rightarrow> keyspace" where
  "keyspace_new pre namespace db embed_db =
     (let base = '''';
          base = (if pre \<noteq> '''' then base @ pre @ '':'' else base);
          base = (if namespace \<noteq> '''' then base @ namespace @ '':'' else base);
          base = (if embed_db then base @ ''db'' @ show_nat db @ '':'' else base)
      in \<lparr>ks_base = base @ ''cache:''\<rparr>)"

definition head :: "keyspace \<Rightarrow> string" where
  "head ks = ks_base ks"

definition doc_entry :: "keyspace \<Rightarrow> string \<Rightarrow> string" where
  "doc_entry ks i = ks_base ks @ ''doc:entry:'' @ i"

definition doc_index :: "keyspace \<Rightarrow> string" where
  "doc_index ks = ks_base ks @ ''doc:index''"

definition vol_entry :: "keyspace \<Rightarrow> string \<Rightarrow> string" where
  "vol_entry ks key = ks_base ks @ ''vol:'' @ key"

definition vol_prefix :: "keyspace \<Rightarrow> string" where
  "vol_prefix ks = ks_base ks @ ''vol:''"

definition idx_entry :: "keyspace \<Rightarrow> string \<Rightarrow> string" where
  "idx_entry ks i = ks_base ks @ ''idx:entry:'' @ i"

definition idx_index :: "keyspace \<Rightarrow> string" where
  "idx_index ks = ks_base ks @ ''idx:index''"

definition idx_by_field :: "keyspace \<Rightarrow> string \<Rightarrow> string \<Rightarrow> string" where
  "idx_by_field ks field val = ks_base ks @ ''idx:by:'' @ field @ '':'' @ val"

definition idx_fields :: "keyspace \<Rightarrow> string \<Rightarrow> string" where
  "idx_fields ks i = ks_base ks @ ''idx:fields:'' @ i"

definition aside_entry :: "keyspace \<Rightarrow> string \<Rightarrow> string" where
  "aside_entry ks i = ks_base ks @ ''aside:entry:'' @ i"

definition aside_lock :: "keyspace \<Rightarrow> string \<Rightarrow> string" where
  "aside_lock ks i = ks_base ks @ ''aside:lock:'' @ i"

lemmas [key_simps] =
  doc_entry_def doc_index_def vol_entry_def vol_prefix_def idx_entry_def idx_index_def
  idx_by_field_def idx_fields_def aside_entry_def aside_lock_def head_def

subsection \<open>Glob escaping\<close>

definition glob_special :: "char \<Rightarrow> bool" where
  "glob_special c \<longleftrightarrow>
     c = CHR ''*'' \<or> c = CHR ''?'' \<or> c = CHR ''['' \<or> c = CHR '']'' \<or> c = CHR 0x5C"

fun escape_glob_literal :: "string \<Rightarrow> string" where
  "escape_glob_literal [] = []"
| "escape_glob_literal (c # cs) =
     (if glob_special c then CHR 0x5C # c # escape_glob_literal cs
      else c # escape_glob_literal cs)"

definition vol_pattern :: "keyspace \<Rightarrow> string \<Rightarrow> string" where
  "vol_pattern ks glob = escape_glob_literal (vol_prefix ks) @ glob"

subsection \<open>Database names\<close>

definition check_namespace :: "string \<Rightarrow> unit rresult" where
  "check_namespace name =
     (if name = '''' then Err (Internal ''database name cannot be empty'')
      else if CHR '':'' \<in> set name then
        Err (Internal (''database name '' @ [CHR 0x27] @ name @ [CHR 0x27] @ '' cannot contain ''
          @ [CHR 0x27] @ '':'' @ [CHR 0x27] @ '' (separates prefix from name)''))
      else Ok ())"

text \<open>
  \<open>Debug\<close> formatting of a list of strings, with the escapes for quotes, backslashes and the
  common control characters; code points that \<open>Debug\<close> prints as \<open>\u{..}\<close> are left as they are.
\<close>

fun debug_chars :: "string \<Rightarrow> string" where
  "debug_chars [] = []"
| "debug_chars (c # cs) =
     (if c = CHR 0x22 \<or> c = CHR 0x5C then CHR 0x5C # c # debug_chars cs
      else if c = CHR 0x0A then CHR 0x5C # CHR ''n'' # debug_chars cs
      else if c = CHR 0x0D then CHR 0x5C # CHR ''r'' # debug_chars cs
      else if c = CHR 0x09 then CHR 0x5C # CHR ''t'' # debug_chars cs
      else c # debug_chars cs)"

definition debug_string :: "string \<Rightarrow> string" where
  "debug_string s = [CHR 0x22] @ debug_chars s @ [CHR 0x22]"

fun debug_items :: "string list \<Rightarrow> string" where
  "debug_items [] = ''''"
| "debug_items [s] = debug_string s"
| "debug_items (s # ss) = debug_string s @ '', '' @ debug_items ss"

definition check_known :: "string \<Rightarrow> string list \<Rightarrow> unit rresult" where
  "check_known name known =
     (if known = [] \<or> name \<in> set known then Ok ()
      else Err (Internal (''database '' @ [CHR 0x27] @ name @ [CHR 0x27]
        @ '' is not one of the configured databases ['' @ debug_items known @ '']'')))"

lemma check_namespace_Ok: "check_namespace name = Ok () \<longleftrightarrow> name \<noteq> [] \<and> CHR '':'' \<notin> set name"
  by (simp add: check_namespace_def)

subsection \<open>The process-local identifier generator\<close>

definition hex_char :: "nat \<Rightarrow> char" where
  "hex_char d = char_of (if d < 10 then 48 + d else 87 + d)"

fun show_hex :: "nat \<Rightarrow> string" where
  "show_hex n = (if n < 16 then [hex_char n] else show_hex (n div 16) @ [hex_char (n mod 16)])"

declare show_hex.simps [simp del]

text \<open>
  The counter is an \<open>AtomicU64\<close>: \<open>fetch_add\<close> returns the old value and wraps around. The clock
  reading is the argument \<open>nanos\<close>.
\<close>

definition new_id :: "nat \<Rightarrow> 64 word \<Rightarrow> string \<times> 64 word" where
  "new_id nanos counter = (show_hex nanos @ ''-'' @ show_hex (unat counter), counter + 1)"

definition hex_val :: "char \<Rightarrow> nat" where
  "hex_val c = (let n = of_char c in if n < 58 then n - 48 else n - 87)"

lemma hex_val_char [simp]:
  assumes "d < 16"
  shows "hex_val (hex_char d) = d"
proof -
  have "(if d < 10 then 48 + d else 87 + d) mod 256 = (if d < 10 then 48 + d else 87 + d)"
    using assms by (auto split: if_splits)
  then show ?thesis
    using assms by (auto simp: hex_val_def hex_char_def Let_def of_char_of)
qed

definition read_hex :: "string \<Rightarrow> nat" where
  "read_hex s = foldl (\<lambda>a c. 16 * a + hex_val c) 0 s"

lemma read_show_hex [simp]: "read_hex (show_hex n) = n"
proof (induction n rule: show_hex.induct)
  case (1 n)
  then show ?case
    by (cases "n < 16") (simp_all add: read_hex_def show_hex.simps [of n])
qed

lemma show_hex_inject [simp]: "show_hex m = show_hex n \<longleftrightarrow> m = n"
  by (metis read_show_hex)

lemma hex_char_not_dash: "d < 16 \<Longrightarrow> hex_char d \<noteq> CHR ''-''"
proof
  assume d: "d < 16" and eq: "hex_char d = CHR ''-''"
  have "of_char (hex_char d) = (of_char (CHR ''-'') :: nat)" by (simp only: eq)
  with d show False by (auto simp: hex_char_def of_char_of split: if_splits)
qed

lemma show_hex_no_dash: "CHR ''-'' \<notin> set (show_hex n)"
proof (induction n rule: show_hex.induct)
  case (1 n)
  show ?case
  proof (cases "n < 16")
    case True
    with hex_char_not_dash [OF True] show ?thesis by (auto simp: show_hex.simps [of n])
  next
    case False
    have "hex_char (n mod 16) \<noteq> CHR ''-''" by (rule hex_char_not_dash) simp
    with 1 False show ?thesis by (auto simp: show_hex.simps [of n])
  qed
qed

subsection \<open>What the keys name\<close>

text \<open>
  The things a database stores, one constructor per key builder. \<open>qualify\<close> sends each to
  its backend key.
\<close>

datatype cache_key =
    DocEntry string
  | DocIndex
  | VolEntry string
  | IdxEntry string
  | IdxIndex
  | IdxByField string string
  | IdxFields string
  | AsideEntry string
  | AsideLock string

fun qualify :: "keyspace \<Rightarrow> cache_key \<Rightarrow> string" where
  "qualify ks (DocEntry i) = doc_entry ks i"
| "qualify ks DocIndex = doc_index ks"
| "qualify ks (VolEntry k) = vol_entry ks k"
| "qualify ks (IdxEntry i) = idx_entry ks i"
| "qualify ks IdxIndex = idx_index ks"
| "qualify ks (IdxByField f v) = idx_by_field ks f v"
| "qualify ks (IdxFields i) = idx_fields ks i"
| "qualify ks (AsideEntry i) = aside_entry ks i"
| "qualify ks (AsideLock i) = aside_lock ks i"

fun plain_key :: "cache_key \<Rightarrow> bool" where
  "plain_key (IdxByField f v) \<longleftrightarrow> CHR '':'' \<notin> set f"
| "plain_key _ \<longleftrightarrow> True"

lemma qualify_head: "prefix (head ks) (qualify ks k)"
  by (cases k) (simp_all add: key_simps)

lemma qualify_field_inject:
  assumes "CHR '':'' \<notin> set f" "CHR '':'' \<notin> set f'"
  shows "idx_by_field ks f v = idx_by_field ks f' v' \<longleftrightarrow> f = f' \<and> v = v'"
proof
  assume "idx_by_field ks f v = idx_by_field ks f' v'"
  then have "f @ CHR '':'' # v = f' @ CHR '':'' # v'" by (simp add: idx_by_field_def)
  with assms show "f = f' \<and> v = v'" by (rule separated_eq)
qed simp

lemma qualify_eq_iff:
  assumes "plain_key k1" "plain_key k2"
  shows "qualify ks k1 = qualify ks k2 \<longleftrightarrow> k1 = k2"
proof (cases "(\<exists>f v. k1 = IdxByField f v) \<and> (\<exists>f v. k2 = IdxByField f v)")
  case True
  with assms show ?thesis by (auto simp: qualify_field_inject)
next
  case False
  then show ?thesis by (cases k1; cases k2) (simp_all add: key_simps)
qed

subsection \<open>Heads of different databases\<close>

definition base_prefix :: "string \<Rightarrow> string" where
  "base_prefix pre = (if pre = '''' then '''' else pre @ '':'')"

lemma head_named:
  "namespace \<noteq> [] \<Longrightarrow> head (keyspace_new pre namespace db False) =
     base_prefix pre @ namespace @ CHR '':'' # ''cache:''"
  by (simp add: head_def keyspace_new_def base_prefix_def Let_def)

lemma head_numbered:
  "head (keyspace_new pre '''' db True) =
     base_prefix pre @ (''db'' @ show_nat db) @ CHR '':'' # ''cache:''"
  by (simp add: head_def keyspace_new_def base_prefix_def Let_def)

lemma segment_prefix_eq:
  assumes "CHR '':'' \<notin> set a" "CHR '':'' \<notin> set b"
    and "prefix (p @ a @ CHR '':'' # x) (p @ b @ CHR '':'' # y)"
  shows "a = b"
proof -
  from assms(3) obtain z where "a @ CHR '':'' # (x @ z) = b @ CHR '':'' # y"
    by (auto simp: prefix_def)
  with assms(1,2) show ?thesis by (blast dest: separated_eq)
qed

lemma key_under_head:
  assumes "prefix h (qualify ks k)"
  shows "prefix h (head ks) \<or> prefix (head ks) h"
  using prefix_same_cases [OF assms qualify_head [of ks k]] .

lemma segment_heads_apart:
  assumes "CHR '':'' \<notin> set a" "CHR '':'' \<notin> set b" "a \<noteq> b"
    and "h = p @ a @ CHR '':'' # x" and "head ks = p @ b @ CHR '':'' # y"
  shows "\<not> prefix h (qualify ks k)"
proof
  assume "prefix h (qualify ks k)"
  then have "prefix h (head ks) \<or> prefix (head ks) h" by (rule key_under_head)
  with assms segment_prefix_eq [of a b p x y] segment_prefix_eq [of b a p y x]
  show False by metis
qed

subsection \<open>The meaning of an escaped pattern\<close>

text \<open>
  Matching is done by the backend. What the code relies on is the documented behaviour of glob
  patterns: a character that is not special stands for itself, a backslash makes the next
  character stand for itself, and a lone star matches everything.
\<close>

definition glob_semantics :: "(string \<Rightarrow> string \<Rightarrow> bool) \<Rightarrow> bool" where
  "glob_semantics matches \<longleftrightarrow>
     (\<forall>s. matches ''*'' s) \<and>
     (\<forall>c p s. \<not> glob_special c \<longrightarrow>
        matches (c # p) s = (\<exists>s'. s = c # s' \<and> matches p s')) \<and>
     (\<forall>c p s. matches (CHR 0x5C # c # p) s = (\<exists>s'. s = c # s' \<and> matches p s'))"

lemma glob_escape:
  assumes "glob_semantics matches"
  shows "matches (escape_glob_literal lit @ p) s \<longleftrightarrow> (\<exists>r. s = lit @ r \<and> matches p r)"
proof (induction lit arbitrary: s)
  case Nil
  show ?case by simp
next
  case (Cons c cs)
  have "matches (escape_glob_literal (c # cs) @ p) s \<longleftrightarrow>
      (\<exists>s'. s = c # s' \<and> matches (escape_glob_literal cs @ p) s')"
    using assms by (cases "glob_special c") (simp_all add: glob_semantics_def)
  also have "\<dots> \<longleftrightarrow> (\<exists>r. s = (c # cs) @ r \<and> matches p r)"
    using Cons by auto
  finally show ?case .
qed

text \<open>A matcher with that behaviour (no character classes), for concrete instances.\<close>

fun glob_match :: "string \<Rightarrow> string \<Rightarrow> bool" where
  "glob_match [] s = (s = [])"
| "glob_match (c # p) s =
     (if c = CHR ''*'' then
        glob_match p s \<or> (case s of [] \<Rightarrow> False | _ # s' \<Rightarrow> glob_match (c # p) s')
      else if c = CHR ''?'' then (case s of [] \<Rightarrow> False | _ # s' \<Rightarrow> glob_match p s')
      else if c = CHR 0x5C then
        (case p of [] \<Rightarrow> s = [c]
         | q # p' \<Rightarrow> (case s of [] \<Rightarrow> False | x # s' \<Rightarrow> x = q \<and> glob_match p' s'))
      else if c = CHR ''['' then False
      else (case s of [] \<Rightarrow> False | x # s' \<Rightarrow> x = c \<and> glob_match p s'))"

declare glob_match.simps(2) [simp del]

lemma glob_match_star: "glob_match ''*'' s"
  by (induction s) (simp_all add: glob_match.simps(2))

lemma glob_match_literal:
  "\<not> glob_special c \<Longrightarrow> glob_match (c # p) s = (\<exists>s'. s = c # s' \<and> glob_match p s')"
  by (subst glob_match.simps(2)) (cases s; simp add: glob_special_def; blast)

lemma glob_match_escaped:
  "glob_match (CHR 0x5C # c # p) s = (\<exists>s'. s = c # s' \<and> glob_match p s')"
  by (subst glob_match.simps(2)) (cases s; simp; blast)

lemma glob_match_semantics: "glob_semantics glob_match"
  unfolding glob_semantics_def
  using glob_match_star glob_match_literal glob_match_escaped by blast

subsection \<open>Properties\<close>

text \<open>two keys built for the same database coincide only when they name the same thing, so
  no strategy can read or overwrite what another strategy, or another identifier, stored;
  secondary-index keys need field names without a colon.\<close>

theorem qualify_injective:
  assumes "plain_key k1" "plain_key k2" "qualify ks k1 = qualify ks k2"
  shows "k1 = k2"
  using assms qualify_eq_iff by blast

theorem qualify_injective_witness:
  "plain_key (IdxByField ''tenant'' ''a:b'') \<and>
   qualify (keyspace_new ''app'' ''orders'' 0 False) (IdxByField ''tenant'' ''a:b'') =
     ''app:orders:cache:idx:by:tenant:a:b'' \<and>
   IdxByField ''tenant'' ''a:b'' = IdxByField ''tenant'' (''a'' @ '':b'')"
  using qualify_injective [of "IdxByField ''tenant'' ''a:b''"
      "IdxByField ''tenant'' (''a'' @ '':b'')" "keyspace_new ''app'' ''orders'' 0 False"]
  by (simp add: key_simps keyspace_new_def)

text \<open>under one prefix, a key of the database named n1 never lies under the head of another
  validly named database n2; what is written, scanned or dropped in one named database is
  out of reach of every other.\<close>

theorem named_databases_isolated:
  assumes "check_namespace n1 = Ok ()" "check_namespace n2 = Ok ()" "n1 \<noteq> n2"
  shows "\<not> prefix (head (keyspace_new pre n2 d2 False)) (qualify (keyspace_new pre n1 d1 False) k)"
proof (rule segment_heads_apart [of n2 n1])
  from assms show "CHR '':'' \<notin> set n2" "CHR '':'' \<notin> set n1" "n2 \<noteq> n1"
    by (simp_all add: check_namespace_Ok)
  from assms show "head (keyspace_new pre n2 d2 False) =
      base_prefix pre @ n2 @ CHR '':'' # ''cache:''"
    and "head (keyspace_new pre n1 d1 False) = base_prefix pre @ n1 @ CHR '':'' # ''cache:''"
    by (simp_all add: check_namespace_Ok head_named)
qed

theorem named_databases_isolated_witness:
  "check_namespace ''orders'' = Ok () \<and> check_namespace ''order'' = Ok () \<and>
   \<not> prefix (head (keyspace_new ''app'' ''order'' 0 False))
       (qualify (keyspace_new ''app'' ''orders'' 0 False) (VolEntry ''k''))"
  using named_databases_isolated [of "''orders''" "''order''" "''app''" 0 0 "VolEntry ''k''"]
  by (simp add: check_namespace_def)

text \<open>the databases a backend numbers inside its keys are isolated from each other: a key of
  database d1 never lies under the head of database d2, also when one number's decimal
  digits start the other's.\<close>

theorem numbered_databases_isolated:
  assumes "d1 \<noteq> d2"
  shows "\<not> prefix (head (keyspace_new pre '''' d2 True)) (qualify (keyspace_new pre '''' d1 True) k)"
proof (rule segment_heads_apart [of "''db'' @ show_nat d2" "''db'' @ show_nat d1"])
  show "CHR '':'' \<notin> set (''db'' @ show_nat d2)" "CHR '':'' \<notin> set (''db'' @ show_nat d1)"
    by (simp_all add: show_nat_no_colon)
  from assms show "''db'' @ show_nat d2 \<noteq> ''db'' @ show_nat d1" by simp
qed (rule head_numbered)+

theorem numbered_databases_isolated_witness:
  "(12::nat) \<noteq> 1 \<and>
   \<not> prefix (head (keyspace_new ''app'' '''' 1 True))
       (qualify (keyspace_new ''app'' '''' 12 True) (DocEntry ''x''))"
  using numbered_databases_isolated [of 12 1 "''app''" "DocEntry ''x''"] by simp

text \<open>a pattern for the volatile entries matches exactly the keys that start with the volatile
  prefix of the database and whose remainder matches the caller's glob, whatever glob
  characters the configured prefix and database name contain.\<close>

theorem vol_pattern_scoped:
  assumes "glob_semantics matches"
  shows "matches (vol_pattern ks glob) key \<longleftrightarrow>
     (\<exists>rest. key = vol_entry ks rest \<and> matches glob rest)"
  using glob_escape [OF assms, of "vol_prefix ks" glob key]
  by (auto simp: vol_pattern_def key_simps)

theorem vol_pattern_scoped_witness:
  "glob_semantics glob_match \<and>
   (glob_match (vol_pattern (keyspace_new ''app*'' ''o?'' 0 False) ''s*'') ''app*:o?:cache:vol:s1''
     \<longleftrightarrow> (\<exists>rest. ''app*:o?:cache:vol:s1'' = vol_entry (keyspace_new ''app*'' ''o?'' 0 False) rest
            \<and> glob_match ''s*'' rest))"
  using vol_pattern_scoped [OF glob_match_semantics] glob_match_semantics by blast

text \<open>within one process the identifiers produced by the counter-based generator differ as long
  as the 64-bit counter does, whatever the clock readings are.\<close>

theorem new_id_unique:
  assumes "fst (new_id t1 c1) = fst (new_id t2 c2)"
  shows "c1 = c2"
proof -
  from assms have "show_hex t1 @ CHR ''-'' # show_hex (unat c1) =
      show_hex t2 @ CHR ''-'' # show_hex (unat c2)"
    by (simp add: new_id_def)
  then have "show_hex (unat c1) = show_hex (unat c2)"
    using separated_eq [OF show_hex_no_dash show_hex_no_dash] by blast
  then show ?thesis by (simp add: word_unat_eq_iff)
qed

theorem new_id_unique_witness:
  "fst (new_id 7 41) = fst (new_id 7 (40 + 1)) \<and> (41 :: 64 word) = 40 + 1"
  using new_id_unique [of 7 41 7 "40 + 1"] by simp

text \<open>the key families of named and numbered databases overlap: on a backend that numbers
  databases inside keys, the validly named database \<open>db<n>\<close> has the same head as the
  numbered database n.\<close>

theorem named_numbered_collision:
  "check_namespace (''db'' @ show_nat n) = Ok () \<and>
   head (keyspace_new pre (''db'' @ show_nat n) 0 False) = head (keyspace_new pre '''' n True)"
  by (simp add: check_namespace_Ok show_nat_no_colon head_named head_numbered)

text \<open>secondary-index keys are ambiguous when a field name contains a colon: the pairs
  (a:b, c) and (a, b:c) share one membership set.\<close>

theorem idx_by_field_ambiguous:
  "idx_by_field ks (a @ '':'' @ b) c = idx_by_field ks a (b @ '':'' @ c)"
  by (simp add: idx_by_field_def)

end
