(* ===== verification/Options.thy ===== *)
theory Options
  imports Prelude
begin

text \<open>
  Per-operation settings: \<open>Options\<close> and its builders (\<open>cache/src/core/options.rs\<close>,
  \<open>cache/src/core/options_builder.rs\<close>). The index map is an association list without repeated
  fields; its order is the iteration order of the \<open>HashMap\<close>.

  The lease of a write follows one priority order in the whole cache. The sources repeat it in
  three places; \<open>lease_policy\<close> states it once and each copy is proved equal to it in the
  theory of its strategy.
\<close>

record options =
  opt_id :: "string option"
  opt_ttl :: "nat option"
  opt_stale :: "nat option"
  opt_indexes :: "(string \<times> string) list option"
  opt_permanent :: bool

definition options_default :: options where
  "options_default = \<lparr>opt_id = None, opt_ttl = None, opt_stale = None, opt_indexes = None,
     opt_permanent = False\<rparr>"

definition with_id :: "string \<Rightarrow> options \<Rightarrow> options" where
  "with_id i opts = opts\<lparr>opt_id := Some i\<rparr>"

definition with_ttl :: "nat \<Rightarrow> options \<Rightarrow> options" where
  "with_ttl d opts = opts\<lparr>opt_ttl := Some d\<rparr>"

definition with_stale :: "nat \<Rightarrow> options \<Rightarrow> options" where
  "with_stale d opts = opts\<lparr>opt_stale := Some d\<rparr>"

text \<open>\<open>HashMap::insert\<close>: the field keeps one value, the last one inserted.\<close>

fun map_insert :: "string \<Rightarrow> 'a \<Rightarrow> (string \<times> 'a) list \<Rightarrow> (string \<times> 'a) list" where
  "map_insert k v [] = [(k, v)]"
| "map_insert k v ((k', v') # xs) =
     (if k = k' then (k, v) # xs else (k', v') # map_insert k v xs)"

definition with_index :: "string \<Rightarrow> string \<Rightarrow> options \<Rightarrow> options" where
  "with_index name val opts =
     opts\<lparr>opt_indexes := Some (map_insert name val (case opt_indexes opts of Some m \<Rightarrow> m | None \<Rightarrow> []))\<rparr>"

definition permanent :: "options \<Rightarrow> options" where
  "permanent opts = opts\<lparr>opt_permanent := True\<rparr>"

definition no_expiry :: "options \<Rightarrow> options" where
  "no_expiry opts = opts\<lparr>opt_permanent := True\<rparr>"

lemma map_of_map_insert: "map_of (map_insert k v xs) = (map_of xs)(k \<mapsto> v)"
  by (induction k v xs rule: map_insert.induct) (auto simp: fun_eq_iff)

lemma fst_set_map_insert: "fst ` set (map_insert k v xs) = insert k (fst ` set xs)"
  by (induction k v xs rule: map_insert.induct) auto

lemma distinct_map_insert: "distinct (map fst xs) \<Longrightarrow> distinct (map fst (map_insert k v xs))"
  by (induction k v xs rule: map_insert.induct) (auto simp: fst_set_map_insert)

subsection \<open>The lease policy\<close>

definition lease_policy :: "nat \<Rightarrow> bool \<Rightarrow> options \<Rightarrow> nat rresult" where
  "lease_policy default_ttl require_ttl opts =
     (case opt_ttl opts of
        Some ttl \<Rightarrow> Ok ttl
      | None \<Rightarrow>
          if opt_permanent opts then Ok 0
          else if default_ttl \<noteq> 0 then Ok default_ttl
          else if require_ttl then Err NoTTL
          else Ok 0)"

lemma lease_policy_not_panic [simp]: "lease_policy d q opts \<noteq> Panic"
  by (simp add: lease_policy_def split: option.splits)

end
