(* ===== verification/Backend.thy ===== *)
theory Backend
  imports Prelude
begin

text \<open>
  The backend contracts: the \<open>Driver\<close> trait (\<open>cache/src/core/driver.rs\<close>) and the optional
  capability traits \<open>Sets\<close>, \<open>SetScanner\<close>, \<open>Bulk\<close>, \<open>Leases\<close>, \<open>Scanner\<close> and \<open>Fenced\<close>.

  A trait object is a record of its methods; strategies take these records as arguments, as the
  code takes \<open>Arc<dyn Driver>\<close>, so their models say what happens over any backend, also one
  that fails. What the traits' documentation promises is stated once, as locales:

  \<^item> \<open>kv_store\<close>: each method on its key. Any call may fail and entries may expire at any
    time; a call changes no other key.
  \<^item> \<open>set_store\<close>: the membership sets, with the same allowance for failures.
  \<^item> \<open>backend\<close>: both together over one world, with the frame conditions between them.
  \<^item> \<open>steady_backend\<close>: a backend whose reads succeed, with ordered bulk reads; this is
    the contract under which the optimised read paths are compared with the plain ones.
\<close>

subsection \<open>Trait objects\<close>

record 'w driver =
  drv_name :: string
  drv_get :: "string \<Rightarrow> ('w, bytes) io"
  drv_set :: "string \<Rightarrow> bytes \<Rightarrow> nat \<Rightarrow> ('w, unit) io"
  drv_add :: "string \<Rightarrow> bytes \<Rightarrow> nat \<Rightarrow> ('w, bool) io"
  drv_replace :: "string \<Rightarrow> bytes \<Rightarrow> nat \<Rightarrow> ('w, bool) io"
  drv_delete :: "string list \<Rightarrow> ('w, unit) io"
  drv_exists :: "string \<Rightarrow> ('w, bool) io"
  drv_touch :: "string \<Rightarrow> nat \<Rightarrow> ('w, unit) io"

record 'w sets =
  sts_add :: "string \<Rightarrow> string list \<Rightarrow> ('w, unit) io"
  sts_remove :: "string \<Rightarrow> string list \<Rightarrow> ('w, unit) io"
  sts_members :: "string \<Rightarrow> ('w, string list) io"

record 'w bulk =
  blk_get_many :: "string list \<Rightarrow> ('w, bytes option list) io"
  blk_exists_many :: "string list \<Rightarrow> ('w, bool list) io"

record 'w leases =
  lea_ttl :: "string \<Rightarrow> ('w, nat) io"

record 'w scanner =
  scn_scan :: "string \<Rightarrow> ('w, string list) io"

record 'w fenced =
  fen_delete_if :: "string \<Rightarrow> bytes \<Rightarrow> ('w, bool) io"

text \<open>
  The mutable part of the only production visitor of a set scan, \<open>LiveVisitor\<close>: identifiers seen
  and live identifiers in first-seen order. A visitor runs on the pair of this state and the
  backend's world.
\<close>

record visitor =
  v_seen :: "string list"
  v_live :: "string list"

record 'w set_scanner =
  ssc_set_scan :: "string \<Rightarrow> (string list \<Rightarrow> (visitor \<times> 'w, unit) io) \<Rightarrow> (visitor \<times> 'w, unit) io"

subsection \<open>What a call may change\<close>

text \<open>Outside the given keys entries stay as they were or disappear (expire).\<close>

definition outside :: "string set \<Rightarrow> (string \<rightharpoonup> bytes) \<Rightarrow> (string \<rightharpoonup> bytes) \<Rightarrow> bool" where
  "outside ks m m' \<longleftrightarrow> (\<forall>k. k \<notin> ks \<longrightarrow> m' k = None \<or> m' k = m k)"

lemma outside_refl [simp, intro]: "outside ks m m"
  by (simp add: outside_def)

lemma outside_trans: "outside ks m1 m2 \<Longrightarrow> outside ks m2 m3 \<Longrightarrow> outside ks m1 m3"
  unfolding outside_def by metis

lemma outside_mono: "outside ks m m' \<Longrightarrow> ks \<subseteq> ks' \<Longrightarrow> outside ks' m m'"
  by (auto simp: outside_def)

lemma outside_live: "outside ks m m' \<Longrightarrow> k \<notin> ks \<Longrightarrow> m' k = Some v \<Longrightarrow> m k = Some v"
  by (auto simp: outside_def)

lemma outside_dead: "outside ks m m' \<Longrightarrow> k \<notin> ks \<Longrightarrow> m k = None \<Longrightarrow> m' k = None"
  by (auto simp: outside_def)

text \<open>A call that changes no set and no live value, expiry apart.\<close>

definition calm :: "('w \<Rightarrow> string \<rightharpoonup> bytes) \<Rightarrow> ('w \<Rightarrow> string \<Rightarrow> string set) \<Rightarrow> 'w \<Rightarrow> 'w \<Rightarrow> bool" where
  "calm live mem w w' \<longleftrightarrow> outside {} (live w) (live w') \<and> mem w' = mem w"

lemma calm_refl [simp, intro]: "calm live mem w w"
  by (simp add: calm_def)

lemma calm_trans: "calm live mem w1 w2 \<Longrightarrow> calm live mem w2 w3 \<Longrightarrow> calm live mem w1 w3"
  by (auto simp: calm_def intro: outside_trans)

text \<open>What a read tells about a key at some moment between two worlds.\<close>

definition alive_obs :: "('w \<Rightarrow> string \<rightharpoonup> bytes) \<Rightarrow> 'w \<Rightarrow> 'w \<Rightarrow> string \<Rightarrow> bool \<Rightarrow> bool" where
  "alive_obs live w w' k b \<longleftrightarrow> (if b then live w k \<noteq> None else live w' k = None)"

definition value_obs :: "('w \<Rightarrow> string \<rightharpoonup> bytes) \<Rightarrow> 'w \<Rightarrow> 'w \<Rightarrow> string \<Rightarrow> bytes option \<Rightarrow> bool" where
  "value_obs live w w' k v \<longleftrightarrow> (case v of Some x \<Rightarrow> live w k = Some x | None \<Rightarrow> live w' k = None)"

interpretation alive: observation "calm live mem" "alive_obs live"
  by unfold_locales (auto simp: alive_obs_def calm_def intro: outside_trans dest: outside_dead split: if_splits)

interpretation vals: observation "calm live mem" "value_obs live"
  by unfold_locales
    (auto simp: value_obs_def calm_def intro: outside_trans dest: outside_dead outside_live split: option.splits)

text \<open>
  A cursor walk over a set: the pages it visited, in order. Between pages time may pass; a
  failing page ends the walk with that failure, and the walk itself may fail between pages.
\<close>

inductive scan_run ::
  "('w \<Rightarrow> 'w \<Rightarrow> bool) \<Rightarrow> (string list \<Rightarrow> ('s \<times> 'w, unit) io) \<Rightarrow> string list list
     \<Rightarrow> 's \<times> 'w \<Rightarrow> unit rresult \<times> ('s \<times> 'w) \<Rightarrow> bool"
  for quiet :: "'w \<Rightarrow> 'w \<Rightarrow> bool" and visit :: "string list \<Rightarrow> ('s \<times> 'w, unit) io" where
  finish: "quiet w w' \<Longrightarrow> scan_run quiet visit [] (v, w) (r, (v, w'))"
| page: "quiet w w1 \<Longrightarrow> visit p (v, w1) = (Ok (), vw2) \<Longrightarrow> scan_run quiet visit ps vw2 result \<Longrightarrow>
    scan_run quiet visit (p # ps) (v, w) result"
| fail: "quiet w w1 \<Longrightarrow> visit p (v, w1) = (r, vw2) \<Longrightarrow> r \<noteq> Ok () \<Longrightarrow>
    scan_run quiet visit [p] (v, w) (r, vw2)"

inductive_cases scan_run_NilE: "scan_run quiet visit [] vw result"
inductive_cases scan_run_ConsE: "scan_run quiet visit (p # ps) vw result"

text \<open>A relation kept by time passing and by every visit is kept by the walk.\<close>

lemma scan_run_rel:
  assumes "scan_run quiet visit ps vw result"
    and "\<And>w w'. quiet w w' \<Longrightarrow> T w w'"
    and "\<And>p v w r v' w'. visit p (v, w) = (r, (v', w')) \<Longrightarrow> T w w'"
    and "\<And>w1 w2 w3. T w1 w2 \<Longrightarrow> T w2 w3 \<Longrightarrow> T w1 w3"
  shows "T (snd vw) (snd (snd result))"
  using assms(1)
proof (induction rule: scan_run.induct)
  case (finish w w' v r)
  then show ?case by (simp add: assms(2))
next
  case (page w w1 p v vw2 ps result)
  then have "T w w1" "T w1 (snd vw2)"
    using assms(2) assms(3) [of p v w1 "Ok ()" "fst vw2" "snd vw2"] by simp_all
  then show ?case using page.IH assms(4) by auto
next
  case (fail w w1 p v r vw2)
  then have "T w w1" "T w1 (snd vw2)"
    using assms(2) assms(3) [of p v w1 r "fst vw2" "snd vw2"] by simp_all
  then show ?case using assms(4) by auto
qed

lemma io_each_scan_run:
  assumes "\<And>w. quiet w w"
  shows "io_each visit ps vw = result \<Longrightarrow> \<exists>qs. scan_run quiet visit qs vw result \<and>
     set qs \<subseteq> set ps \<and> (fst result = Ok () \<longrightarrow> qs = ps)"
proof (induction ps arbitrary: vw)
  case Nil
  then have "result = (Ok (), vw)" by (simp add: io_ret_def)
  moreover have "scan_run quiet visit [] (fst vw, snd vw) (Ok (), (fst vw, snd vw))"
    by (rule scan_run.finish) (rule assms)
  ultimately show ?case by auto
next
  case (Cons p ps)
  obtain r vw2 where v: "visit p (fst vw, snd vw) = (r, vw2)"
    by (metis surj_pair)
  show ?case
  proof (cases "r = Ok ()")
    case True
    then have "io_each visit ps vw2 = result" using Cons.prems v by (simp add: io_bind_def)
    from Cons.IH [OF this] obtain qs where "scan_run quiet visit qs vw2 result"
      "set qs \<subseteq> set ps" "fst result = Ok () \<longrightarrow> qs = ps" by blast
    then show ?thesis
      using scan_run.page [of quiet "snd vw" "snd vw" visit, OF assms v [unfolded True]]
      by (intro exI [of _ "p # qs"]) auto
  next
    case False
    then have "result = (r, vw2)" using Cons.prems v
      by (cases r) (auto simp: io_bind_def)
    then show ?thesis
      using scan_run.fail [of quiet "snd vw" "snd vw" visit, OF assms v False] False by (intro exI [of _ "[p]"]) auto
  qed
qed

subsection \<open>Contracts\<close>

locale kv_store =
  fixes drv :: "'w driver"
    and live :: "'w \<Rightarrow> string \<rightharpoonup> bytes"
  assumes get_frame: "drv_get drv k w = (rg, w') \<Longrightarrow> outside {} (live w) (live w')"
    and get_Ok: "drv_get drv k w = (Ok v, w') \<Longrightarrow> live w' k = Some v"
    and get_NotFound: "drv_get drv k w = (Err NotFound, w') \<Longrightarrow> live w' k = None"
    and set_frame: "drv_set drv k v ttl w = (r, w') \<Longrightarrow> outside {k} (live w) (live w')"
    and set_key: "drv_set drv k v ttl w = (r, w') \<Longrightarrow> live w' k \<in> {None, live w k, Some v}"
    and set_Ok: "drv_set drv k v ttl w = (Ok u, w') \<Longrightarrow> live w' k = Some v"
    and add_frame: "drv_add drv k v ttl w = (rb, w') \<Longrightarrow> outside {k} (live w) (live w')"
    and add_key: "drv_add drv k v ttl w = (rb, w') \<Longrightarrow> live w' k \<in> {None, live w k, Some v}"
    and add_True: "drv_add drv k v ttl w = (Ok True, w') \<Longrightarrow> live w' k = Some v"
    and add_False: "drv_add drv k v ttl w = (Ok False, w') \<Longrightarrow> live w' k = live w k \<and> live w k \<noteq> None"
    and replace_frame: "drv_replace drv k v ttl w = (rb, w') \<Longrightarrow> outside {k} (live w) (live w')"
    and replace_key:
      "drv_replace drv k v ttl w = (rb, w') \<Longrightarrow> live w' k \<noteq> None \<Longrightarrow>
        live w k \<noteq> None \<and> live w' k \<in> {live w k, Some v}"
    and replace_True: "drv_replace drv k v ttl w = (Ok True, w') \<Longrightarrow> live w' k = Some v"
    and replace_False: "drv_replace drv k v ttl w = (Ok False, w') \<Longrightarrow> live w' k = None"
    and delete_frame: "drv_delete drv ks w = (r, w') \<Longrightarrow> outside {} (live w) (live w')"
    and delete_Ok: "drv_delete drv ks w = (Ok u, w') \<Longrightarrow> k \<in> set ks \<Longrightarrow> live w' k = None"
    and exists_frame: "drv_exists drv k w = (rb, w') \<Longrightarrow> outside {} (live w) (live w')"
    and exists_Ok: "drv_exists drv k w = (Ok b, w') \<Longrightarrow> b \<longleftrightarrow> live w' k \<noteq> None"
    and touch_frame: "drv_touch drv k ttl w = (r, w') \<Longrightarrow> outside {} (live w) (live w')"

locale set_store =
  fixes sts :: "'w sets"
    and mem :: "'w \<Rightarrow> string \<Rightarrow> string set"
  assumes add_other: "sts_add sts k ms w = (r, w') \<Longrightarrow> k' \<noteq> k \<Longrightarrow> mem w' k' = mem w k'"
    and add_between:
      "sts_add sts k ms w = (r, w') \<Longrightarrow> mem w k \<subseteq> mem w' k \<and> mem w' k \<subseteq> mem w k \<union> set ms"
    and add_Ok: "sts_add sts k ms w = (Ok u, w') \<Longrightarrow> mem w' k = mem w k \<union> set ms"
    and remove_other: "sts_remove sts k ms w = (r, w') \<Longrightarrow> k' \<noteq> k \<Longrightarrow> mem w' k' = mem w k'"
    and remove_between:
      "sts_remove sts k ms w = (r, w') \<Longrightarrow> mem w k - set ms \<subseteq> mem w' k \<and> mem w' k \<subseteq> mem w k"
    and remove_Ok: "sts_remove sts k ms w = (Ok u, w') \<Longrightarrow> mem w' k = mem w k - set ms"
    and members_frame: "sts_members sts k w = (rm, w') \<Longrightarrow> mem w' = mem w"
    and members_Ok: "sts_members sts k w = (Ok ms, w') \<Longrightarrow> set ms = mem w k \<and> distinct ms"

locale backend = kv_store drv live + set_store sts mem
  for drv :: "'w driver" and live and sts :: "'w sets" and mem +
  assumes get_mem: "drv_get drv k w = (rg, w') \<Longrightarrow> mem w' = mem w"
    and set_mem: "drv_set drv k v ttl w = (r, w') \<Longrightarrow> k' \<noteq> k \<Longrightarrow> mem w' k' = mem w k'"
    and add_mem: "drv_add drv k v ttl w = (rb, w') \<Longrightarrow> k' \<noteq> k \<Longrightarrow> mem w' k' = mem w k'"
    and replace_mem: "drv_replace drv k v ttl w = (rb, w') \<Longrightarrow> k' \<noteq> k \<Longrightarrow> mem w' k' = mem w k'"
    and delete_mem: "drv_delete drv ks w = (r, w') \<Longrightarrow> k' \<notin> set ks \<Longrightarrow> mem w' k' = mem w k'"
    and exists_mem: "drv_exists drv k w = (rb, w') \<Longrightarrow> mem w' = mem w"
    and touch_mem: "drv_touch drv k ttl w = (r, w') \<Longrightarrow> mem w' = mem w"
    and add_live: "sts_add sts k ms w = (r, w') \<Longrightarrow> outside {} (live w) (live w')"
    and remove_live: "sts_remove sts k ms w = (r, w') \<Longrightarrow> outside {} (live w) (live w')"
    and members_live: "sts_members sts k w = (rm, w') \<Longrightarrow> outside {} (live w) (live w')"

locale bulk_backend = backend drv live sts mem
  for drv :: "'w driver" and live and sts :: "'w sets" and mem +
  fixes blk :: "'w bulk"
  assumes exists_many_frame:
      "blk_exists_many blk ks w = (rs, w') \<Longrightarrow> outside {} (live w) (live w') \<and> mem w' = mem w"
    and exists_many_Ok:
      "blk_exists_many blk ks w = (Ok bs, w') \<Longrightarrow> length bs = length ks \<Longrightarrow>
        bs = map (\<lambda>k. live w' k \<noteq> None) ks"
    and get_many_frame:
      "blk_get_many blk ks w = (rv, w') \<Longrightarrow> outside {} (live w) (live w') \<and> mem w' = mem w"
    and get_many_Ok:
      "blk_get_many blk ks w = (Ok vs, w') \<Longrightarrow> length vs = length ks \<Longrightarrow> vs = map (live w') ks"

text \<open>
  A backend with whichever optional capabilities it declares. A cursor walk returns members only
  and, when it completes, every element that was a member from its start to its end.
\<close>

locale listing_backend = backend drv live sts mem
  for drv :: "'w driver" and live and sts :: "'w sets" and mem +
  fixes blk :: "'w bulk option" and ssc :: "'w set_scanner option"
  assumes bulk_law: "blk = Some b \<Longrightarrow> bulk_backend drv live sts mem b"
    and scan_law: "ssc = Some s \<Longrightarrow>
      (\<And>p v w r v' w'. visit p (v, w) = (r, (v', w')) \<Longrightarrow> mem w' k \<subseteq> mem w k) \<Longrightarrow>
      ssc_set_scan s k visit (v, w) = (r, (v', w')) \<Longrightarrow>
      \<exists>pages. scan_run (calm live mem) visit pages (v, w) (r, (v', w')) \<and>
        set (concat pages) \<subseteq> mem w k \<and>
        (r = Ok () \<longrightarrow> mem w k \<inter> mem w' k \<subseteq> set (concat pages))"

locale steady_backend = bulk_backend drv live sts mem blk
  for drv :: "'w driver" and live and sts :: "'w sets" and mem and blk :: "'w bulk" +
  fixes ssc :: "'w set_scanner"
  assumes exists_steady: "drv_exists drv k w = (Ok (live w k \<noteq> None), w)"
    and get_steady:
      "drv_get drv k w = (case live w k of None \<Rightarrow> Err NotFound | Some v \<Rightarrow> Ok v, w)"
    and exists_many_steady:
      "blk_exists_many blk ks w = (Ok (map (\<lambda>k. live w k \<noteq> None) ks), w)"
    and get_many_steady: "blk_get_many blk ks w = (Ok (map (live w) ks), w)"
    and members_steady: "\<exists>ms. sts_members sts k w = (Ok ms, w)"
    and add_steady: "\<exists>w'. sts_add sts k ms w = (Ok (), w') \<and> live w' = live w"
    and remove_steady: "\<exists>w'. sts_remove sts k ms w = (Ok (), w') \<and> live w' = live w"
    and delete_steady:
      "\<exists>w'. drv_delete drv ks w = (Ok (), w') \<and> mem w' = mem w \<and>
         live w' = (\<lambda>k. if k \<in> set ks then None else live w k)"
    and scan_steady:
      "\<exists>pages. set (concat pages) = mem w k \<and>
         (\<forall>visit v. ssc_set_scan ssc k visit (v, w) = io_each visit pages (v, w))"

end
