(* ===== verification/Batch.thy ===== *)
theory Batch
  imports Backend
begin

text \<open>
  Multi-entry reads shared by the strategies: \<open>cache/src/strategies/batch.rs\<close>.

  \<open>live_members\<close> reads a membership set, keeps the identifiers whose entries are alive and
  best-effort removes the others from the set; \<open>get_all\<close> reads many values. Both use the
  optional bulk and cursor capabilities when the backend has them. The fall-back reads run with
  bounded concurrency and keep their order; the model runs them one after the other, so the
  concurrency bound itself is not an argument.

  The lemmas say what the result means over any lawful backend, failures and expiry
  included, and that the optimised paths agree with the plain ones.
\<close>

definition bulk_batch_size :: nat where
  "bulk_batch_size = 256"

definition default_concurrency :: nat where
  "default_concurrency = 16"

definition validate_count :: "string \<Rightarrow> nat \<Rightarrow> nat \<Rightarrow> unit rresult" where
  "validate_count operation expected actual =
     (if expected = actual then Ok ()
      else Err (Internal (''Bulk::'' @ operation @ '' returned '' @ show_nat actual
        @ '' result(s) for '' @ show_nat expected @ '' key(s)'')))"

text \<open>The loop over bounded batches that both bulk paths share.\<close>

fun bulk_batches ::
  "('k list \<Rightarrow> ('w, 'b list) io) \<Rightarrow> string \<Rightarrow> 'k list list \<Rightarrow> 'b list \<Rightarrow> ('w, 'b list) io" where
  "bulk_batches call operation [] found = io_ret found"
| "bulk_batches call operation (batch # rest) found =
     io_bind (call batch) (\<lambda>vals.
     io_bind (io_lift (validate_count operation (length batch) (length vals))) (\<lambda>_.
     bulk_batches call operation rest (found @ vals)))"

definition exists_all :: "'w driver \<Rightarrow> 'w bulk option \<Rightarrow> string list \<Rightarrow> ('w, bool list) io" where
  "exists_all drv blk keys =
     (case blk of
        Some b \<Rightarrow> bulk_batches (blk_exists_many b) ''exists_many'' (chunks bulk_batch_size keys) []
      | None \<Rightarrow> io_collect (drv_exists drv) keys)"

text \<open>One fall-back read: only an ordinary miss becomes \<open>None\<close>.\<close>

definition get_or_none :: "'w driver \<Rightarrow> string \<Rightarrow> ('w, bytes option) io" where
  "get_or_none drv key w =
     (case drv_get drv key w of
        (Ok body, w') \<Rightarrow> (Ok (Some body), w')
      | (Err e, w') \<Rightarrow> (if e = NotFound then Ok None else Err e, w')
      | (Panic, w') \<Rightarrow> (Panic, w'))"

definition flatten_options :: "'a option list \<Rightarrow> 'a list" where
  "flatten_options xs = List.map_filter id xs"

definition get_all :: "'w driver \<Rightarrow> 'w bulk option \<Rightarrow> string list \<Rightarrow> ('w, bytes list) io" where
  "get_all drv blk keys =
     (case blk of
        Some b \<Rightarrow>
          io_bind (bulk_batches (blk_get_many b) ''get_many'' (chunks bulk_batch_size keys) [])
            (\<lambda>bodies. io_ret (flatten_options bodies))
      | None \<Rightarrow>
          io_bind (io_collect (get_or_none drv) keys) (\<lambda>bodies. io_ret (flatten_options bodies)))"

definition classify_members ::
  "'w driver \<Rightarrow> 'w bulk option \<Rightarrow> string list \<Rightarrow> (string \<Rightarrow> string)
     \<Rightarrow> ('w, string list \<times> string list) io" where
  "classify_members drv blk members entry_key =
     io_bind (exists_all drv blk (map entry_key members)) (\<lambda>found.
       let checked = zip members found
       in io_ret (map fst (filter snd checked), map fst (filter (\<lambda>c. \<not> snd c) checked)))"

definition cleanup_stale :: "'w sets \<Rightarrow> string \<Rightarrow> string list \<Rightarrow> ('w, unit) io" where
  "cleanup_stale sts set_key stale =
     (if stale = [] then io_ret () else io_ignore (sts_remove sts set_key stale))"

text \<open>\<open>for id in live { if self.seen.insert(id.clone()) { self.live.push(id) } }\<close>\<close>

fun visit_push :: "visitor \<Rightarrow> string list \<Rightarrow> visitor" where
  "visit_push v [] = v"
| "visit_push v (i # ids) =
     visit_push (if i \<in> set (v_seen v) then v
                 else \<lparr>v_seen = i # v_seen v, v_live = v_live v @ [i]\<rparr>) ids"

definition live_visit ::
  "'w driver \<Rightarrow> 'w bulk option \<Rightarrow> 'w sets \<Rightarrow> string \<Rightarrow> (string \<Rightarrow> string)
     \<Rightarrow> string list \<Rightarrow> (visitor \<times> 'w, unit) io" where
  "live_visit drv blk sts set_key entry_key members vw =
     (if members = [] then (Ok (), vw)
      else case classify_members drv blk members entry_key (snd vw) of
             (Ok (live, stale), w1) \<Rightarrow>
               (case cleanup_stale sts set_key stale w1 of
                  (Ok _, w2) \<Rightarrow> (Ok (), (visit_push (fst vw) live, w2))
                | (Err e, w2) \<Rightarrow> (Err e, (fst vw, w2))
                | (Panic, w2) \<Rightarrow> (Panic, (fst vw, w2)))
           | (Err e, w1) \<Rightarrow> (Err e, (fst vw, w1))
           | (Panic, w1) \<Rightarrow> (Panic, (fst vw, w1)))"

definition live_members ::
  "'w driver \<Rightarrow> 'w bulk option \<Rightarrow> 'w sets \<Rightarrow> 'w set_scanner option \<Rightarrow> string
     \<Rightarrow> (string \<Rightarrow> string) \<Rightarrow> ('w, string list) io" where
  "live_members drv blk sts ssc set_key entry_key =
     (case ssc of
        Some s \<Rightarrow> (\<lambda>w.
          case ssc_set_scan s set_key (live_visit drv blk sts set_key entry_key)
                 (\<lparr>v_seen = [], v_live = []\<rparr>, w) of
            (Ok _, (v, w')) \<Rightarrow> (Ok (v_live v), w')
          | (Err e, (v, w')) \<Rightarrow> (Err e, w')
          | (Panic, (v, w')) \<Rightarrow> (Panic, w'))
      | None \<Rightarrow>
          io_bind (sts_members sts set_key) (\<lambda>members.
            if members = [] then io_ret []
            else io_bind (classify_members drv blk members entry_key) (\<lambda>(live, stale).
                 io_bind (cleanup_stale sts set_key stale) (\<lambda>_. io_ret live))))"

subsection \<open>Facts that need no backend law\<close>

lemma validate_count_Ok [simp]: "validate_count operation n m = Ok u \<longleftrightarrow> n = m"
  by (simp add: validate_count_def)

lemma cleanup_stale_not_Err: "cleanup_stale sts k stale w \<noteq> (Err e, w')"
  by (auto simp: cleanup_stale_def io_ret_def io_ignore_def split: prod.splits rresult.splits)

lemma visit_push_seen: "set (v_seen (visit_push v ids)) = set (v_seen v) \<union> set ids"
  by (induction v ids rule: visit_push.induct) auto

lemma visit_push_live: "v_live (visit_push v ids) = v_live v @ dedup (v_seen v) ids"
  by (induction v ids rule: visit_push.induct) auto

lemma bulk_batches_length:
  "bulk_batches call operation batches found w = (Ok vs, w') \<Longrightarrow>
     length vs = length found + length (concat batches)"
  by (induction batches arbitrary: found w) (auto simp: io_bind_Ok io_ret_def io_lift_def)

lemma exists_all_length: "exists_all drv blk keys w = (Ok bs, w') \<Longrightarrow> length bs = length keys"
  by (auto simp: exists_all_def concat_chunks bulk_batch_size_def
      split: option.splits dest: bulk_batches_length io_collect_length)

text \<open>Splitting a page by the answers of its liveness check.\<close>

lemma partition_by_answers:
  assumes "list_all2 (alive_obs live w w') (map ek ms) bs" "ls = map fst (filter snd (zip ms bs))"
    "ss = map fst (filter (\<lambda>c. \<not> snd c) (zip ms bs))"
  shows "set ls \<union> set ss = set ms \<and> (distinct ms \<longrightarrow> distinct ls) \<and>
     (\<forall>i\<in>set ls. live w (ek i) \<noteq> None) \<and> (\<forall>i\<in>set ss. live w' (ek i) = None)"
  using assms
proof (induction ms arbitrary: bs ls ss)
  case Nil
  then show ?case by simp
next
  case (Cons m ms)
  then obtain b bs' where b: "bs = b # bs'" "alive_obs live w w' (ek m) b"
    "list_all2 (alive_obs live w w') (map ek ms) bs'"
    by (auto simp: list_all2_Cons1)
  from Cons.IH [OF b(3) refl refl] b(1,2) Cons.prems(2,3) show ?case
    by (cases b) (auto simp: alive_obs_def)
qed

text \<open>A batched bulk call answers every key of the whole request, in order.\<close>

context observation
begin

lemma batches_obs:
  assumes calm: "\<And>x w r w'. call x w = (r, w') \<Longrightarrow> calm w w'"
    and one: "\<And>b w ys w'. call b w = (Ok ys, w') \<Longrightarrow> length ys = length b \<Longrightarrow> list_all2 (obs w w') b ys"
  shows "bulk_batches call operation batches found w = (r, w') \<Longrightarrow>
     calm w w' \<and> (\<forall>ys. r = Ok ys \<longrightarrow>
       (\<exists>zs. ys = found @ zs \<and> list_all2 (obs w w') (concat batches) zs))"
proof (induction batches arbitrary: found w)
  case Nil
  then show ?case by (auto simp: io_ret_def calm_refl)
next
  case (Cons b bs)
  from Cons.prems have
    "io_bind (call b) (\<lambda>vals. io_bind (io_lift (validate_count operation (length b) (length vals)))
        (\<lambda>_. bulk_batches call operation bs (found @ vals))) w = (r, w')" by simp
  then show ?case
  proof (cases rule: io_bindE)
    case (ok ys w1)
    have c1: "calm w w1" by (rule calm [OF ok(1)])
    show ?thesis
    proof (cases "length b = length ys")
      case True
      have b1: "list_all2 (obs w w1) b ys" by (rule one [OF ok(1)]) (simp add: True)
      from ok(2) True have "bulk_batches call operation bs (found @ ys) w1 = (r, w')"
        by (simp add: validate_count_def io_lift_def io_bind_def)
      note IH = Cons.IH [OF this]
      then have c2: "calm w1 w'" by simp
      have b2: "list_all2 (obs w w') b ys" by (rule obs_all_post [OF b1 c2])
      show ?thesis
        using IH b2 calm_trans [OF c1 c2] obs_all_pre [OF c1] by (fastforce intro: list_all2_appendI)
    next
      case False
      with ok(2) c1 show ?thesis by (auto simp: validate_count_def io_fail_def)
    qed
  qed (use calm in blast)+
qed

end

subsection \<open>Over any lawful backend\<close>

text \<open>
  What the sweep may do to one enumeration set: it loses members only, and none whose entry is
  still alive afterwards; no other set changes and no value changes.
\<close>

definition swept ::
  "('w \<Rightarrow> string \<rightharpoonup> bytes) \<Rightarrow> ('w \<Rightarrow> string \<Rightarrow> string set) \<Rightarrow> string \<Rightarrow> (string \<Rightarrow> string) \<Rightarrow> 'w \<Rightarrow> 'w \<Rightarrow> bool" where
  "swept live mem sk ek w w' \<longleftrightarrow>
     outside {} (live w) (live w') \<and> (\<forall>k. k \<noteq> sk \<longrightarrow> mem w' k = mem w k) \<and>
     mem w' sk \<subseteq> mem w sk \<and> {i \<in> mem w sk. live w' (ek i) \<noteq> None} \<subseteq> mem w' sk"

lemma swept_refl: "swept live mem sk ek w w"
  by (auto simp: swept_def)

lemma swept_calm: "calm live mem w w' \<Longrightarrow> swept live mem sk ek w w'"
  by (auto simp: swept_def calm_def)

lemma swept_trans:
  assumes "swept live mem sk ek w1 w2" "swept live mem sk ek w2 w3"
  shows "swept live mem sk ek w1 w3"
proof -
  have "live w2 (ek i) \<noteq> None" if "live w3 (ek i) \<noteq> None" for i
    using assms(2) that outside_live [of "{}" "live w2" "live w3" "ek i"] by (auto simp: swept_def)
  moreover have "{i \<in> mem w1 sk. live w2 (ek i) \<noteq> None} \<subseteq> mem w2 sk"
    "{i \<in> mem w2 sk. live w3 (ek i) \<noteq> None} \<subseteq> mem w3 sk"
    using assms by (simp_all add: swept_def)
  ultimately have "{i \<in> mem w1 sk. live w3 (ek i) \<noteq> None} \<subseteq> mem w3 sk"
    by blast
  moreover have "mem w3 sk \<subseteq> mem w1 sk" "outside {} (live w1) (live w3)"
    "\<And>k. k \<noteq> sk \<Longrightarrow> mem w3 k = mem w1 k"
    using assms outside_trans [of "{}" "live w1" "live w2" "live w3"] by (auto simp: swept_def)
  ultimately show ?thesis by (simp add: swept_def)
qed

context bulk_backend
begin

lemma exists_many_calm: "blk_exists_many blk ks w = (r, w') \<Longrightarrow> calm live mem w w'"
  by (simp add: calm_def exists_many_frame)

lemma get_many_calm: "blk_get_many blk ks w = (r, w') \<Longrightarrow> calm live mem w w'"
  by (simp add: calm_def get_many_frame)

lemma exists_many_obs:
  assumes "blk_exists_many blk ks w = (Ok bs, w')" "length bs = length ks"
  shows "list_all2 (alive_obs live w w') ks bs"
  using exists_many_Ok [OF assms] exists_many_frame [OF assms(1)]
  by (auto simp: list_all2_conv_all_nth alive_obs_def dest: outside_live)

lemma get_many_obs:
  assumes "blk_get_many blk ks w = (Ok vs, w')" "length vs = length ks"
  shows "list_all2 (value_obs live w w') ks vs"
  using get_many_Ok [OF assms] get_many_frame [OF assms(1)]
  by (auto simp: list_all2_conv_all_nth value_obs_def dest: outside_live split: option.splits)

end

context listing_backend
begin

lemma drv_exists_calm: "drv_exists drv k w = (r, w') \<Longrightarrow> calm live mem w w'"
  by (simp add: calm_def exists_frame exists_mem)

lemma drv_get_calm: "drv_get drv k w = (r, w') \<Longrightarrow> calm live mem w w'"
  by (simp add: calm_def get_frame get_mem)

lemma members_calm: "sts_members sts k w = (r, w') \<Longrightarrow> calm live mem w w'"
  by (simp add: calm_def members_live members_frame)

lemma drv_exists_obs: "drv_exists drv k w = (Ok b, w') \<Longrightarrow> alive_obs live w w' k b"
  using exists_Ok [of k w b w'] exists_frame [of k w "Ok b" w']
  by (auto simp: alive_obs_def dest: outside_live)

lemma exists_all_obs:
  assumes "exists_all drv blk keys w = (r, w')"
  shows "calm live mem w w'" "r = Ok bs \<Longrightarrow> list_all2 (alive_obs live w w') keys bs"
proof -
  have "calm live mem w w' \<and> (r = Ok bs \<longrightarrow> list_all2 (alive_obs live w w') keys bs)"
  proof (cases blk)
    case None
    then show ?thesis
      using assms alive.collect_calm [of "drv_exists drv" live mem, OF drv_exists_calm]
        alive.collect_obs [of "drv_exists drv" live mem, OF drv_exists_calm drv_exists_obs]
      by (auto simp: exists_all_def)
  next
    case (Some b)
    then have bb: "bulk_backend drv live sts mem b" by (rule bulk_law)
    have "bulk_batches (blk_exists_many b) ''exists_many'' (chunks bulk_batch_size keys) [] w = (r, w')"
      using assms Some by (simp add: exists_all_def)
    from alive.batches_obs [where live = live and mem = mem, OF _ _ this]
    show ?thesis
      using bulk_backend.exists_many_calm [OF bb] bulk_backend.exists_many_obs [OF bb]
      by (auto simp: concat_chunks bulk_batch_size_def)
  qed
  then show "calm live mem w w'" "r = Ok bs \<Longrightarrow> list_all2 (alive_obs live w w') keys bs" by simp_all
qed

lemma get_or_none_obs:
  assumes "get_or_none drv k w = (r, w')"
  shows "calm live mem w w'" "r = Ok v \<Longrightarrow> value_obs live w w' k v"
  using assms get_frame [of k w _ w'] get_mem [of k w _ w'] get_Ok [of k w _ w'] get_NotFound [of k w w']
  by (auto simp: get_or_none_def calm_def value_obs_def dest: outside_live
      split: prod.splits rresult.splits if_splits option.splits)

text \<open>The values listed were all stored, and every key still alive at the end contributed.\<close>

lemma get_all_obs:
  assumes "get_all drv blk keys w = (r, w')"
  shows "calm live mem w w'"
    "r = Ok vs \<Longrightarrow> \<exists>os. vs = flatten_options os \<and> list_all2 (value_obs live w w') keys os"
proof -
  have "calm live mem w w' \<and>
    (r = Ok vs \<longrightarrow> (\<exists>os. vs = flatten_options os \<and> list_all2 (value_obs live w w') keys os))"
  proof (cases blk)
    case None
    with assms have "io_bind (io_collect (get_or_none drv) keys) (\<lambda>b. io_ret (flatten_options b)) w = (r, w')"
      by (simp add: get_all_def)
    then show ?thesis
      using vals.collect_calm [of "get_or_none drv" live mem, OF get_or_none_obs(1)]
        vals.collect_obs [of "get_or_none drv" live mem, OF get_or_none_obs(1) get_or_none_obs(2)]
      by (cases rule: io_bindE) (auto simp: io_ret_def)
  next
    case (Some b)
    then have bb: "bulk_backend drv live sts mem b" by (rule bulk_law)
    have run: "bulk_batches (blk_get_many b) s bs found w = (q, w') \<Longrightarrow> calm live mem w w' \<and>
        (\<forall>ys. q = Ok ys \<longrightarrow> (\<exists>zs. ys = found @ zs \<and> list_all2 (value_obs live w w') (concat bs) zs))"
      for s bs found w q w'
      by (rule vals.batches_obs [where call = "blk_get_many b"])
        (blast intro: bulk_backend.get_many_calm [OF bb] bulk_backend.get_many_obs [OF bb])+
    from Some assms have "io_bind (bulk_batches (blk_get_many b) ''get_many'' (chunks bulk_batch_size keys) [])
        (\<lambda>bodies. io_ret (flatten_options bodies)) w = (r, w')"
      by (simp add: get_all_def)
    then show ?thesis
    proof (cases rule: io_bindE)
      case (ok os w1)
      with run [OF ok(1)] show ?thesis
        by (auto simp: io_ret_def concat_chunks bulk_batch_size_def)
    qed (use run in auto)
  qed
  then show "calm live mem w w'"
    "r = Ok vs \<Longrightarrow> \<exists>os. vs = flatten_options os \<and> list_all2 (value_obs live w w') keys os"
    by simp_all
qed

lemma classify_spec:
  assumes "classify_members drv blk ms ek w = (r, w')"
  shows "calm live mem w w'"
    "r = Ok (ls, ss) \<Longrightarrow> set ls \<union> set ss = set ms \<and> (distinct ms \<longrightarrow> distinct ls) \<and>
       (\<forall>i\<in>set ls. live w (ek i) \<noteq> None) \<and> (\<forall>i\<in>set ss. live w' (ek i) = None)"
proof -
  from assms have "io_bind (exists_all drv blk (map ek ms)) (\<lambda>found. io_ret
      (map fst (filter snd (zip ms found)), map fst (filter (\<lambda>c. \<not> snd c) (zip ms found)))) w = (r, w')"
    by (simp add: classify_members_def Let_def)
  then have "calm live mem w w' \<and> (\<forall>ls ss. r = Ok (ls, ss) \<longrightarrow> (\<exists>bs. list_all2 (alive_obs live w w') (map ek ms) bs \<and>
      ls = map fst (filter snd (zip ms bs)) \<and> ss = map fst (filter (\<lambda>c. \<not> snd c) (zip ms bs))))"
    by (cases rule: io_bindE) (auto simp: io_ret_def dest: exists_all_obs)
  moreover have "set ls \<union> set ss = set ms \<and> (distinct ms \<longrightarrow> distinct ls) \<and>
       (\<forall>i\<in>set ls. live w (ek i) \<noteq> None) \<and> (\<forall>i\<in>set ss. live w' (ek i) = None)"
    if "list_all2 (alive_obs live w w') (map ek ms) bs" "ls = map fst (filter snd (zip ms bs))"
      "ss = map fst (filter (\<lambda>c. \<not> snd c) (zip ms bs))" for bs
    using that by (rule partition_by_answers)
  ultimately show "calm live mem w w'"
    "r = Ok (ls, ss) \<Longrightarrow> set ls \<union> set ss = set ms \<and> (distinct ms \<longrightarrow> distinct ls) \<and>
       (\<forall>i\<in>set ls. live w (ek i) \<noteq> None) \<and> (\<forall>i\<in>set ss. live w' (ek i) = None)"
    by blast+
qed

lemma cleanup_swept:
  assumes "cleanup_stale sts sk stale w = (r, w')" "\<forall>i\<in>set stale. live w (ek i) = None"
  shows "swept live mem sk ek w w'"
proof (cases "stale = []")
  case True
  with assms show ?thesis by (simp add: cleanup_stale_def io_ret_def swept_refl)
next
  case False
  with assms obtain r' where rm: "sts_remove sts sk stale w = (r', w')"
    by (auto simp: cleanup_stale_def io_ignore_def split: prod.splits rresult.splits)
  have o: "outside {} (live w) (live w')" by (rule remove_live [OF rm])
  have "live w' (ek i) = None" if "i \<in> set stale" for i
    using outside_dead [OF o, of "ek i"] assms(2) that by simp
  with remove_between [OF rm] remove_other [OF rm] o show ?thesis
    by (auto simp: swept_def)
qed

text \<open>One page of a cursor walk: what it adds to the visitor, and what it did to the set.\<close>

lemma live_visit_spec:
  assumes "live_visit drv blk sts sk ek page (v, w) = (r, (v', w'))"
  shows "swept live mem sk ek w w'"
    "r = Ok () \<Longrightarrow> \<exists>ls. v' = visit_push v ls \<and> set ls \<subseteq> set page \<and>
       (\<forall>i\<in>set ls. live w (ek i) \<noteq> None) \<and> (\<forall>i\<in>set page - set ls. live w' (ek i) = None)"
proof -
  have "swept live mem sk ek w w' \<and> (r = Ok () \<longrightarrow> (\<exists>ls. v' = visit_push v ls \<and> set ls \<subseteq> set page \<and>
       (\<forall>i\<in>set ls. live w (ek i) \<noteq> None) \<and> (\<forall>i\<in>set page - set ls. live w' (ek i) = None)))"
  proof (cases "page = []")
    case True
    with assms show ?thesis by (auto simp: live_visit_def swept_refl intro!: exI [of _ "[]"])
  next
    case False
    obtain q w1 where c: "classify_members drv blk page ek w = (q, w1)" by (metis surj_pair)
    have c1: "calm live mem w w1" by (rule classify_spec(1) [OF c])
    show ?thesis
    proof (cases q)
      case (Ok lss)
      then obtain ls ss where q: "q = Ok (ls, ss)" by (cases lss) auto
      note cl = classify_spec(2) [OF c q]
      obtain q' w2 where cu: "cleanup_stale sts sk ss w1 = (q', w2)" by (metis surj_pair)
      have sw: "swept live mem sk ek w1 w2" by (rule cleanup_swept [OF cu]) (use cl in simp)
      then have o: "outside {} (live w1) (live w2)" by (simp add: swept_def)
      have "w' = w2" "r = Ok () \<Longrightarrow> v' = visit_push v ls"
        using assms False c q cu by (auto simp: live_visit_def split: rresult.splits)
      moreover have "\<forall>i\<in>set page - set ls. live w2 (ek i) = None"
        using cl outside_dead [OF o] by auto
      ultimately show ?thesis
        using cl swept_trans [OF swept_calm [OF c1] sw] by auto
    qed (use assms False c c1 in \<open>auto simp: live_visit_def intro: swept_calm\<close>)
  qed
  then show "swept live mem sk ek w w'"
    "r = Ok () \<Longrightarrow> \<exists>ls. v' = visit_push v ls \<and> set ls \<subseteq> set page \<and>
       (\<forall>i\<in>set ls. live w (ek i) \<noteq> None) \<and> (\<forall>i\<in>set page - set ls. live w' (ek i) = None)"
    by simp_all
qed

lemma live_scan_spec:
  assumes "scan_run (calm live mem) (live_visit drv blk sts sk ek) pages vw result"
    and "fst result = Ok ()" "set (v_live (fst vw)) = set (v_seen (fst vw))" "distinct (v_live (fst vw))"
  shows "distinct (v_live (fst (snd result))) \<and>
    set (v_live (fst (snd result))) \<subseteq>
      set (v_live (fst vw)) \<union> {i \<in> set (concat pages). live (snd vw) (ek i) \<noteq> None} \<and>
    set (v_live (fst vw)) \<union> {i \<in> set (concat pages). live (snd (snd result)) (ek i) \<noteq> None}
      \<subseteq> set (v_live (fst (snd result)))"
  using assms
proof (induction rule: scan_run.induct)
  case (finish w w' v r)
  then show ?case by simp
next
  case (page w w1 p v vw2 ps result)
  obtain v2 w2 where vw2: "vw2 = (v2, w2)" by fastforce
  from live_visit_spec(2) [OF page(2) [unfolded vw2]] obtain ls where ls: "v2 = visit_push v ls"
    "set ls \<subseteq> set p" "\<forall>i\<in>set ls. live w1 (ek i) \<noteq> None" "\<forall>i\<in>set p - set ls. live w2 (ek i) = None"
    by blast
  have s2: "set (v_live v2) = set (v_live v) \<union> set ls" "set (v_live v2) = set (v_seen v2)" "distinct (v_live v2)"
    using ls(1) page.prems by (auto simp: visit_push_live visit_push_seen set_dedup distinct_dedup)
  have sw2: "swept live mem sk ek w2 (snd (snd result))"
    using scan_run_rel [OF page(3), of "swept live mem sk ek", OF swept_calm live_visit_spec(1) swept_trans]
    by (simp add: vw2)
  have earlier: "live w (ek i) \<noteq> None" if "live w1 (ek i) \<noteq> None \<or> live w2 (ek i) \<noteq> None" for i
    using that page(1) live_visit_spec(1) [OF page(2) [unfolded vw2]]
    by (auto simp: calm_def swept_def outside_def) (metis option.simps(3))+
  have fwd: "live w2 (ek i) \<noteq> None" if "live (snd (snd result)) (ek i) \<noteq> None" for i
    using that sw2 by (auto simp: swept_def dest: outside_live)
  have kept: "i \<in> set ls" if "i \<in> set p" "live (snd (snd result)) (ek i) \<noteq> None" for i
    using that ls(4) fwd by blast
  show ?case
    using page.IH [OF page.prems(1)] s2 ls(2,3) earlier kept by (auto simp: vw2)
next
  case (fail w w1 p v r vw2)
  then show ?case by simp
qed

end

text \<open>What the listing returns and what it leaves behind, by a cursor walk and by one read.\<close>

definition listed ::
  "('w \<Rightarrow> string \<rightharpoonup> bytes) \<Rightarrow> ('w \<Rightarrow> string \<Rightarrow> string set) \<Rightarrow> string \<Rightarrow> (string \<Rightarrow> string) \<Rightarrow> 'w \<Rightarrow> 'w
     \<Rightarrow> string list \<Rightarrow> bool" where
  "listed live mem sk ek w w' ids \<longleftrightarrow> distinct ids \<and>
     set ids \<subseteq> {i \<in> mem w sk. live w (ek i) \<noteq> None} \<and> {i \<in> mem w sk. live w' (ek i) \<noteq> None} \<subseteq> set ids"

context listing_backend
begin

lemma live_members_scan:
  assumes "live_members drv blk sts (Some s) sk ek w = (r, w')" "ssc = Some s"
  shows "swept live mem sk ek w w' \<and> (\<forall>ids. r = Ok ids \<longrightarrow> listed live mem sk ek w w' ids)"
proof -
  let ?visit = "live_visit drv blk sts sk ek" and ?v0 = "\<lparr>v_seen = [], v_live = []\<rparr>"
  obtain q v' w1 where run: "ssc_set_scan s sk ?visit (?v0, w) = (q, (v', w1))"
    by (metis surj_pair)
  have out: "w' = w1" "\<And>ids. r = Ok ids \<Longrightarrow> q = Ok () \<and> ids = v_live v'"
    using assms(1) run by (auto simp: live_members_def split: rresult.splits)
  have "\<exists>pages. scan_run (calm live mem) ?visit pages (?v0, w) (q, (v', w1)) \<and>
      set (concat pages) \<subseteq> mem w sk \<and> (q = Ok () \<longrightarrow> mem w sk \<inter> mem w1 sk \<subseteq> set (concat pages))"
    by (rule scan_law [OF assms(2) _ run]) (use live_visit_spec(1) in \<open>auto simp: swept_def\<close>)
  then obtain pages where sr: "scan_run (calm live mem) ?visit pages (?v0, w) (q, (v', w1))"
    and pg: "set (concat pages) \<subseteq> mem w sk" "q = Ok () \<Longrightarrow> mem w sk \<inter> mem w1 sk \<subseteq> set (concat pages)"
    by blast
  have sw: "swept live mem sk ek w w1"
    using scan_run_rel [OF sr, of "swept live mem sk ek", OF swept_calm live_visit_spec(1) swept_trans]
    by simp
  then have keep: "{i \<in> mem w sk. live w1 (ek i) \<noteq> None} \<subseteq> mem w1 sk" by (simp add: swept_def)
  have "listed live mem sk ek w w1 (v_live v')" if q: "q = Ok ()"
  proof -
    have "distinct (v_live v')" "set (v_live v') \<subseteq> {i \<in> set (concat pages). live w (ek i) \<noteq> None}"
      "{i \<in> set (concat pages). live w1 (ek i) \<noteq> None} \<subseteq> set (v_live v')"
      using live_scan_spec [OF sr] q by simp_all
    with pg keep q show ?thesis unfolding listed_def by blast
  qed
  with sw out show ?thesis by blast
qed

lemma live_members_plain:
  assumes "live_members drv blk sts None sk ek w = (r, w')"
  shows "swept live mem sk ek w w' \<and> (\<forall>ids. r = Ok ids \<longrightarrow> listed live mem sk ek w w' ids)"
proof -
  let ?rest = "\<lambda>ms. io_bind (classify_members drv blk ms ek)
    (\<lambda>(ls, ss). io_bind (cleanup_stale sts sk ss) (\<lambda>_. io_ret ls))"
  from assms have "io_bind (sts_members sts sk) (\<lambda>ms. if ms = [] then io_ret [] else ?rest ms) w = (r, w')"
    by (simp add: live_members_def)
  then show ?thesis
  proof (cases rule: io_bindE)
    case (ok ms w1)
    have m: "set ms = mem w sk" "distinct ms" "calm live mem w w1"
      using members_Ok [OF ok(1)] members_calm [OF ok(1)] by simp_all
    show ?thesis
    proof (cases "ms = []")
      case True
      then show ?thesis using ok(2) m by (auto simp: io_ret_def swept_calm listed_def)
    next
      case False
      with ok(2) have "?rest ms w1 = (r, w')" by simp
      then show ?thesis
      proof (cases rule: io_bindE)
        case run: (ok c w2)
        obtain ls ss where c: "c = (ls, ss)" by fastforce
        note cl = classify_spec [OF run(1)]
        from run(2) c have "io_bind (cleanup_stale sts sk ss) (\<lambda>_. io_ret ls) w2 = (r, w')" by simp
        then obtain q where q: "cleanup_stale sts sk ss w2 = (q, w')" "\<And>ids. r = Ok ids \<Longrightarrow> ids = ls"
          by (cases rule: io_bindE) (auto simp: io_ret_def)
        have sw: "swept live mem sk ek w2 w'"
          by (rule cleanup_swept [OF q(1)]) (use cl(2) [OF arg_cong [OF c, of Ok]] in simp)
        have c12: "calm live mem w w2" by (rule calm_trans [OF m(3) cl(1)])
        have "listed live mem sk ek w w' ls"
        proof -
          have "live w' (ek i) = None" if "live w2 (ek i) = None" for i
            using that sw outside_dead [of "{}" "live w2" "live w'"] by (simp add: swept_def)
          moreover have "live w (ek i) \<noteq> None" if "live w1 (ek i) \<noteq> None" for i
            using that m(3) outside_live [of "{}" "live w" "live w1"] by (auto simp: calm_def)
          moreover have eq: "mem w sk = set ls \<union> set ss" and "distinct ls"
            "\<forall>i\<in>set ls. live w1 (ek i) \<noteq> None" "\<forall>i\<in>set ss. live w2 (ek i) = None"
            using cl(2) [OF arg_cong [OF c, of Ok]] m by simp_all
          ultimately show ?thesis unfolding listed_def eq by auto
        qed
        then show ?thesis using q(2) swept_trans [OF swept_calm [OF c12] sw] by blast
      qed (use swept_calm [OF calm_trans [OF m(3) classify_spec(1)]] in auto)
    qed
  qed (auto dest: members_calm intro: swept_calm)
qed

lemma live_members_spec:
  assumes "live_members drv blk sts ssc sk ek w = (r, w')"
  shows "swept live mem sk ek w w'" "r = Ok ids \<Longrightarrow> listed live mem sk ek w w' ids"
  using assms live_members_scan live_members_plain by (cases ssc; blast)+

end

subsection \<open>Over a steady backend\<close>

lemma visit_push_append: "visit_push v (xs @ ys) = visit_push (visit_push v xs) ys"
  by (induction v xs rule: visit_push.induct) auto

lemma io_collect_pure: "(\<And>x. f x w = (Ok (g x), w)) \<Longrightarrow> io_collect f xs w = (Ok (map g xs), w)"
  by (induction xs) (simp_all add: io_ret_def io_bind_def)

lemma bulk_batches_pure:
  "(\<And>b. call b w = (Ok (map g b), w)) \<Longrightarrow>
     bulk_batches call operation bs found w = (Ok (found @ map g (concat bs)), w)"
  by (induction bs arbitrary: found) (simp_all add: io_ret_def io_bind_def validate_count_def io_lift_def)

context steady_backend
begin

lemma exists_all_steady:
  "b \<in> {None, Some blk} \<Longrightarrow> exists_all drv b keys w = (Ok (map (\<lambda>k. live w k \<noteq> None) keys), w)"
  using bulk_batches_pure [of "blk_exists_many blk" w, OF exists_many_steady]
    io_collect_pure [of "drv_exists drv" w, OF exists_steady]
  by (auto simp: exists_all_def concat_chunks bulk_batch_size_def)

lemma get_all_steady:
  "b \<in> {None, Some blk} \<Longrightarrow> get_all drv b keys w = (Ok (flatten_options (map (live w) keys)), w)"
proof -
  have "get_or_none drv k w = (Ok (live w k), w)" for k
    by (simp add: get_or_none_def get_steady split: option.splits)
  from io_collect_pure [of "get_or_none drv" w, OF this]
    bulk_batches_pure [of "blk_get_many blk" w, OF get_many_steady]
  show "b \<in> {None, Some blk} \<Longrightarrow> ?thesis"
    by (auto simp: get_all_def concat_chunks bulk_batch_size_def io_bind_def io_ret_def)
qed

lemma classify_steady:
  assumes "b \<in> {None, Some blk}"
  shows "classify_members drv b ms ek w =
    (Ok (filter (\<lambda>i. live w (ek i) \<noteq> None) ms, filter (\<lambda>i. live w (ek i) = None) ms), w)"
proof -
  have "map fst (filter snd (zip ms (map f ms))) = filter f ms"
    "map fst (filter (\<lambda>c. \<not> snd c) (zip ms (map f ms))) = filter (\<lambda>x. \<not> f x) ms" for f
    by (induction ms) auto
  with exists_all_steady [OF assms, of "map ek ms" w] show ?thesis
    by (simp add: classify_members_def Let_def io_bind_def io_ret_def comp_def)
qed

lemma cleanup_steady:
  "\<exists>w'. cleanup_stale sts sk ss w = (Ok (), w') \<and> live w' = live w \<and>
     mem w' = (mem w)(sk := mem w sk - set ss)"
proof (cases "ss = []")
  case True
  then show ?thesis by (simp add: cleanup_stale_def io_ret_def)
next
  case False
  obtain w' where rm: "sts_remove sts sk ss w = (Ok (), w')" "live w' = live w"
    using remove_steady by blast
  then have "mem w' = (mem w)(sk := mem w sk - set ss)"
    using remove_Ok [OF rm(1)] remove_other [OF rm(1)] by (auto simp: fun_eq_iff)
  with rm False show ?thesis by (simp add: cleanup_stale_def io_ignore_def)
qed

lemma visit_steady:
  assumes "b \<in> {None, Some blk}"
  shows "\<exists>w'. live_visit drv b sts sk ek page (v, w) =
      (Ok (), (visit_push v (filter (\<lambda>i. live w (ek i) \<noteq> None) page), w')) \<and> live w' = live w \<and>
      mem w' = (mem w)(sk := mem w sk - {i \<in> set page. live w (ek i) = None})"
proof (cases "page = []")
  case True
  then show ?thesis by (simp add: live_visit_def)
next
  case False
  obtain w' where "cleanup_stale sts sk (filter (\<lambda>i. live w (ek i) = None) page) w = (Ok (), w')"
    "live w' = live w" "mem w' = (mem w)(sk := mem w sk - {i \<in> set page. live w (ek i) = None})"
    using cleanup_steady [of sk "filter (\<lambda>i. live w (ek i) = None) page" w] by auto
  with False classify_steady [OF assms] show ?thesis by (simp add: live_visit_def)
qed

lemma walk_steady:
  assumes "b \<in> {None, Some blk}"
  shows "\<exists>w'. io_each (live_visit drv b sts sk ek) pages (v, w) =
      (Ok (), (visit_push v (filter (\<lambda>i. live w (ek i) \<noteq> None) (concat pages)), w')) \<and> live w' = live w \<and>
      mem w' = (mem w)(sk := mem w sk - {i \<in> set (concat pages). live w (ek i) = None})"
proof (induction pages arbitrary: v w)
  case Nil
  then show ?case by (simp add: io_ret_def)
next
  case (Cons p ps)
  let ?v = "visit_push v (filter (\<lambda>i. live w (ek i) \<noteq> None) p)"
  obtain w1 where 1: "live_visit drv b sts sk ek p (v, w) = (Ok (), (?v, w1))" "live w1 = live w"
    "mem w1 = (mem w)(sk := mem w sk - {i \<in> set p. live w (ek i) = None})"
    using visit_steady [OF assms] by blast
  obtain w2 where 2: "io_each (live_visit drv b sts sk ek) ps (?v, w1) =
      (Ok (), (visit_push ?v (filter (\<lambda>i. live w1 (ek i) \<noteq> None) (concat ps)), w2))" "live w2 = live w1"
    "mem w2 = (mem w1)(sk := mem w1 sk - {i \<in> set (concat ps). live w1 (ek i) = None})"
    using Cons.IH [of ?v w1] by blast
  have "mem w2 = (mem w)(sk := mem w sk - {i \<in> set (concat (p # ps)). live w (ek i) = None})"
    using 1(2,3) 2(3) by (auto simp: fun_eq_iff)
  with 1(1,2) 2(1,2) show ?case by (simp add: io_bind_def visit_push_append fun_eq_iff)
qed

lemma live_members_steady:
  assumes b: "b \<in> {None, Some blk}" and s: "s \<in> {None, Some ssc}"
  shows "\<exists>ids w'. live_members drv b sts s sk ek w = (Ok ids, w') \<and> distinct ids \<and>
     set ids = {i \<in> mem w sk. live w (ek i) \<noteq> None} \<and> live w' = live w \<and>
     mem w' = (mem w)(sk := set ids)"
proof (cases s)
  case None
  obtain ms where ms: "sts_members sts sk w = (Ok ms, w)" using members_steady by blast
  then have m: "set ms = mem w sk" "distinct ms" using members_Ok [OF ms] by simp_all
  let ?l = "\<lambda>i. live w (ek i) \<noteq> None"
  obtain w' where "cleanup_stale sts sk (filter (\<lambda>i. live w (ek i) = None) ms) w = (Ok (), w')"
    "live w' = live w" "mem w' = (mem w)(sk := mem w sk - set (filter (\<lambda>i. live w (ek i) = None) ms))"
    using cleanup_steady by blast
  with ms m None classify_steady [OF b, of ms ek w] show ?thesis
    by (intro exI [of _ "filter ?l ms"])
      (auto simp: live_members_def io_bind_def io_ret_def fun_eq_iff)
next
  case (Some t)
  with s have t: "s = Some ssc" by simp
  obtain pages where pg: "set (concat pages) = mem w sk"
    "\<And>visit v. ssc_set_scan ssc sk visit (v, w) = io_each visit pages (v, w)"
    using scan_steady [of w sk] by blast
  let ?f = "filter (\<lambda>i. live w (ek i) \<noteq> None) (concat pages)"
  obtain w' where w': "io_each (live_visit drv b sts sk ek) pages (\<lparr>v_seen = [], v_live = []\<rparr>, w) =
      (Ok (), (visit_push \<lparr>v_seen = [], v_live = []\<rparr> ?f, w'))" "live w' = live w"
    "mem w' = (mem w)(sk := mem w sk - {i \<in> set (concat pages). live w (ek i) = None})"
    using walk_steady [OF b] by blast
  have "live_members drv b sts s sk ek w = (Ok (dedup [] ?f), w')"
    using w'(1) pg(2) by (simp add: t live_members_def visit_push_live)
  moreover have "set (dedup [] ?f) = {i \<in> mem w sk. live w (ek i) \<noteq> None}"
    using pg(1) by (auto simp: set_dedup)
  ultimately show ?thesis
    using w'(2,3) pg(1) by (intro exI [of _ "dedup [] ?f"] exI [of _ w']) (auto simp: distinct_dedup fun_eq_iff)
qed

end

end
