(* ===== verification/Memory.thy ===== *)
theory Memory
  imports Batch "HOL-Library.Dlist"
begin

text \<open>
  The process-local backend: \<open>MemoryDriver\<close> (\<open>cache/src/core/memory_driver.rs\<close>) with its \<open>Bulk\<close>,
  \<open>Leases\<close> and \<open>Fenced\<close> capabilities, and \<open>MemorySets\<close> (\<open>cache/src/core/sets.rs\<close>).

  Both keep a map behind a lock; the world is the two maps and the monotonic clock. Every
  operation runs in one critical section, modelled as one step at the clock's current reading.
  \<open>Instant::now() + ttl\<close> panics beyond the range of \<open>Instant\<close>. A \<open>HashSet\<close> is a list without
  duplicates; its iteration order is unspecified in Rust, and the contract the clients use speaks
  of the members only.
\<close>

subsection \<open>MemoryDriver\<close>

record entry =
  e_value :: bytes
  e_expires_at :: "nat option"

definition is_expired :: "nat \<Rightarrow> entry \<Rightarrow> bool" where
  "is_expired now e = (case e_expires_at e of Some expiry \<Rightarrow> now \<ge> expiry | None \<Rightarrow> False)"

record mem_world =
  mw_clock :: nat
  mw_data :: "string \<rightharpoonup> entry"
  mw_sets :: "string \<rightharpoonup> string dlist"

definition memory_new :: mem_world where
  "memory_new = \<lparr>mw_clock = 0, mw_data = Map.empty, mw_sets = Map.empty\<rparr>"

text \<open>\<open>if ttl.is_zero() { None } else { Some(Instant::now() + ttl) }\<close>\<close>

definition mem_expires_at :: "nat \<Rightarrow> nat \<Rightarrow> nat option rresult" where
  "mem_expires_at now ttl =
     (if ttl = 0 then Ok None
      else case instant_add now ttl of Some t \<Rightarrow> Ok (Some t) | None \<Rightarrow> Panic)"

definition mem_insert :: "string \<Rightarrow> bytes \<Rightarrow> nat option \<Rightarrow> 'a mem_world_scheme \<Rightarrow> 'a mem_world_scheme" where
  "mem_insert key v expires_at w =
     w\<lparr>mw_data := (mw_data w)(key \<mapsto> \<lparr>e_value = v, e_expires_at = expires_at\<rparr>)\<rparr>"

definition mem_get :: "string \<Rightarrow> ('a mem_world_scheme, bytes) io" where
  "mem_get key w =
     (case mw_data w key of
        Some e \<Rightarrow> if is_expired (mw_clock w) e then (Err NotFound, w) else (Ok (e_value e), w)
      | None \<Rightarrow> (Err NotFound, w))"

definition mem_set :: "string \<Rightarrow> bytes \<Rightarrow> nat \<Rightarrow> ('a mem_world_scheme, unit) io" where
  "mem_set key v ttl w =
     (case mem_expires_at (mw_clock w) ttl of
        Ok x \<Rightarrow> (Ok (), mem_insert key v x w)
      | Err e \<Rightarrow> (Err e, w)
      | Panic \<Rightarrow> (Panic, w))"

definition mem_add :: "string \<Rightarrow> bytes \<Rightarrow> nat \<Rightarrow> ('a mem_world_scheme, bool) io" where
  "mem_add key v ttl w =
     (case mem_expires_at (mw_clock w) ttl of
        Ok x \<Rightarrow>
          (case mw_data w key of
             Some e \<Rightarrow> if \<not> is_expired (mw_clock w) e then (Ok False, w)
                       else (Ok True, mem_insert key v x w)
           | None \<Rightarrow> (Ok True, mem_insert key v x w))
      | Err e \<Rightarrow> (Err e, w)
      | Panic \<Rightarrow> (Panic, w))"

definition mem_replace :: "string \<Rightarrow> bytes \<Rightarrow> nat \<Rightarrow> ('a mem_world_scheme, bool) io" where
  "mem_replace key v ttl w =
     (case mem_expires_at (mw_clock w) ttl of
        Ok x \<Rightarrow>
          (case mw_data w key of
             Some e \<Rightarrow> if is_expired (mw_clock w) e then (Ok False, w)
                       else (Ok True, mem_insert key v x w)
           | None \<Rightarrow> (Ok False, w))
      | Err e \<Rightarrow> (Err e, w)
      | Panic \<Rightarrow> (Panic, w))"

definition mem_delete :: "string list \<Rightarrow> ('a mem_world_scheme, unit) io" where
  "mem_delete keys w = (Ok (), w\<lparr>mw_data := fold (\<lambda>k m. m(k := None)) keys (mw_data w)\<rparr>)"

definition mem_exists :: "string \<Rightarrow> ('a mem_world_scheme, bool) io" where
  "mem_exists key w =
     (case mw_data w key of
        Some e \<Rightarrow> if is_expired (mw_clock w) e then (Ok False, w) else (Ok True, w)
      | None \<Rightarrow> (Ok False, w))"

definition mem_touch :: "string \<Rightarrow> nat \<Rightarrow> ('a mem_world_scheme, unit) io" where
  "mem_touch key ttl w =
     (case mw_data w key of
        Some e \<Rightarrow>
          if is_expired (mw_clock w) e then (Err NotFound, w)
          else (case mem_expires_at (mw_clock w) ttl of
                  Ok x \<Rightarrow> (Ok (), w\<lparr>mw_data := (mw_data w)(key \<mapsto> e\<lparr>e_expires_at := x\<rparr>)\<rparr>)
                | Err err \<Rightarrow> (Err err, w)
                | Panic \<Rightarrow> (Panic, w))
      | None \<Rightarrow> (Err NotFound, w))"

definition mem_get_many :: "string list \<Rightarrow> ('a mem_world_scheme, bytes option list) io" where
  "mem_get_many keys w =
     (Ok (map (\<lambda>key. case mw_data w key of
                 Some e \<Rightarrow> if \<not> is_expired (mw_clock w) e then Some (e_value e) else None
               | None \<Rightarrow> None) keys), w)"

definition mem_exists_many :: "string list \<Rightarrow> ('a mem_world_scheme, bool list) io" where
  "mem_exists_many keys w =
     (Ok (map (\<lambda>key. case mw_data w key of
                 Some e \<Rightarrow> \<not> is_expired (mw_clock w) e | None \<Rightarrow> False) keys), w)"

definition mem_ttl :: "string \<Rightarrow> ('a mem_world_scheme, nat) io" where
  "mem_ttl key w =
     (case mw_data w key of
        None \<Rightarrow> (Err NotFound, w)
      | Some e \<Rightarrow>
          (case e_expires_at e of
             None \<Rightarrow> (Ok 0, w)
           | Some t \<Rightarrow> if t \<le> mw_clock w then (Err NotFound, w) else (Ok (t - mw_clock w), w)))"

definition mem_delete_if :: "string \<Rightarrow> bytes \<Rightarrow> ('a mem_world_scheme, bool) io" where
  "mem_delete_if key expected w =
     (let matches = (case mw_data w key of
                       Some e \<Rightarrow> \<not> is_expired (mw_clock w) e \<and> e_value e = expected
                     | None \<Rightarrow> False)
      in if matches then (Ok matches, w\<lparr>mw_data := (mw_data w)(key := None)\<rparr>) else (Ok matches, w))"

subsection \<open>MemorySets\<close>

definition mem_set_add :: "string \<Rightarrow> string list \<Rightarrow> ('a mem_world_scheme, unit) io" where
  "mem_set_add key members w =
     (let s = (case mw_sets w key of Some s \<Rightarrow> s | None \<Rightarrow> Dlist.empty)
      in (Ok (), w\<lparr>mw_sets := (mw_sets w)(key \<mapsto> fold Dlist.insert members s)\<rparr>))"

definition mem_set_remove :: "string \<Rightarrow> string list \<Rightarrow> ('a mem_world_scheme, unit) io" where
  "mem_set_remove key members w =
     (case mw_sets w key of
        Some s \<Rightarrow>
          (let s' = fold Dlist.remove members s
           in (Ok (), w\<lparr>mw_sets := (mw_sets w)(key := (if Dlist.null s' then None else Some s'))\<rparr>))
      | None \<Rightarrow> (Ok (), w))"

definition mem_set_members :: "string \<Rightarrow> ('a mem_world_scheme, string list) io" where
  "mem_set_members key w =
     (case mw_sets w key of Some s \<Rightarrow> (Ok (list_of_dlist s), w) | None \<Rightarrow> (Ok [], w))"

definition mem_set_scan ::
  "string \<Rightarrow> (string list \<Rightarrow> (visitor \<times> 'a mem_world_scheme, unit) io)
     \<Rightarrow> (visitor \<times> 'a mem_world_scheme, unit) io" where
  "mem_set_scan key visit vw =
     (case mem_set_members key (snd vw) of
        (Ok members, w') \<Rightarrow>
          if members \<noteq> [] then visit members (fst vw, w') else (Ok (), (fst vw, w'))
      | (Err e, w') \<Rightarrow> (Err e, (fst vw, w'))
      | (Panic, w') \<Rightarrow> (Panic, (fst vw, w')))"

subsection \<open>The trait objects of the two implementations\<close>

definition memory_driver :: "'a mem_world_scheme driver" where
  "memory_driver = \<lparr>drv_name = ''memory'', drv_get = mem_get, drv_set = mem_set, drv_add = mem_add,
     drv_replace = mem_replace, drv_delete = mem_delete, drv_exists = mem_exists,
     drv_touch = mem_touch\<rparr>"

definition memory_sets :: "'a mem_world_scheme sets" where
  "memory_sets = \<lparr>sts_add = mem_set_add, sts_remove = mem_set_remove, sts_members = mem_set_members\<rparr>"

definition memory_bulk :: "'a mem_world_scheme bulk" where
  "memory_bulk = \<lparr>blk_get_many = mem_get_many, blk_exists_many = mem_exists_many\<rparr>"

definition memory_leases :: "'a mem_world_scheme leases" where
  "memory_leases = \<lparr>lea_ttl = mem_ttl\<rparr>"

definition memory_fenced :: "'a mem_world_scheme fenced" where
  "memory_fenced = \<lparr>fen_delete_if = mem_delete_if\<rparr>"

definition memory_set_scanner :: "'a mem_world_scheme set_scanner" where
  "memory_set_scanner = \<lparr>ssc_set_scan = mem_set_scan\<rparr>"

subsection \<open>The abstract store\<close>

text \<open>What a reader can observe now: the values that have not expired, and the members.\<close>

definition mem_live :: "'a mem_world_scheme \<Rightarrow> string \<rightharpoonup> bytes" where
  "mem_live w k =
     (case mw_data w k of
        Some e \<Rightarrow> if is_expired (mw_clock w) e then None else Some (e_value e)
      | None \<Rightarrow> None)"

definition mem_members :: "'a mem_world_scheme \<Rightarrow> string \<Rightarrow> string set" where
  "mem_members w k = (case mw_sets w k of Some s \<Rightarrow> set (list_of_dlist s) | None \<Rightarrow> {})"

text \<open>Time passing between operations.\<close>

definition advance :: "nat \<Rightarrow> 'a mem_world_scheme \<Rightarrow> 'a mem_world_scheme" where
  "advance d w = w\<lparr>mw_clock := mw_clock w + d\<rparr>"

lemma fold_delete_at: "fold (\<lambda>k m. m(k := None)) ks m x = (if x \<in> set ks then None else m x)"
  by (induction ks arbitrary: m) auto

lemma mem_expires_at_cases:
  "mem_expires_at now ttl = Ok x \<Longrightarrow> x = None \<and> ttl = 0 \<or> x = Some (now + ttl) \<and> 0 < ttl"
  by (auto simp: mem_expires_at_def instant_add_def split: if_splits option.splits)

lemma mem_expires_at_noErr [simp]: "mem_expires_at now ttl \<noteq> Err e"
  by (simp add: mem_expires_at_def split: option.splits)

lemma mem_live_insert:
  "mem_expires_at (mw_clock w) ttl = Ok x \<Longrightarrow> mem_live (mem_insert key v x w) = (mem_live w)(key \<mapsto> v)"
  by (rule ext, drule mem_expires_at_cases)
    (auto simp: mem_live_def mem_insert_def is_expired_def split: option.splits)

lemma mem_live_insert_permanent: "mem_live (mem_insert key v None w) = (mem_live w)(key \<mapsto> v)"
  by (rule mem_live_insert [of w 0]) (simp add: mem_expires_at_def)

lemma mem_members_data [simp]:
  "mem_members (mw_data_update f w) = mem_members w"
  "mem_members (mem_insert key v x w) = mem_members w"
  by (rule ext, simp add: mem_members_def mem_insert_def)+

lemma mem_live_sets [simp]: "mem_live (mw_sets_update f w) = mem_live w"
  by (rule ext) (simp add: mem_live_def cong: option.case_cong)

lemma set_fold_Dlist_insert: "set (list_of_dlist (fold Dlist.insert ms s)) = set (list_of_dlist s) \<union> set ms"
  by (induction ms arbitrary: s) auto

lemma set_fold_Dlist_remove: "set (list_of_dlist (fold Dlist.remove ms s)) = set (list_of_dlist s) - set ms"
  by (induction ms arbitrary: s) (auto simp: remove1_commute)

lemmas memory_defs = memory_driver_def memory_sets_def memory_bulk_def memory_leases_def
  memory_fenced_def memory_set_scanner_def

subsection \<open>Each operation on the abstract store\<close>

lemma mem_get_eq:
  "mem_get k w = (case mem_live w k of None \<Rightarrow> Err NotFound | Some v \<Rightarrow> Ok v, w)"
  by (simp add: mem_get_def mem_live_def split: option.splits)

lemma mem_exists_eq: "mem_exists k w = (Ok (mem_live w k \<noteq> None), w)"
  by (simp add: mem_exists_def mem_live_def split: option.splits)

lemma mem_get_many_eq: "mem_get_many ks w = (Ok (map (mem_live w) ks), w)"
  by (auto simp: mem_get_many_def mem_live_def split: option.splits)

lemma mem_exists_many_eq: "mem_exists_many ks w = (Ok (map (\<lambda>k. mem_live w k \<noteq> None) ks), w)"
  by (auto simp: mem_exists_many_def mem_live_def split: option.splits)

lemma mem_set_cases:
  assumes "mem_set k v ttl w = (r, w')"
  shows "r = Ok () \<and> mem_live w' = (mem_live w)(k \<mapsto> v) \<and> mem_members w' = mem_members w
    \<or> r = Panic \<and> w' = w"
  using assms by (auto simp: mem_set_def mem_live_insert split: rresult.splits)

lemma mem_add_cases:
  assumes "mem_add k v ttl w = (r, w')"
  shows "r = Ok True \<and> mem_live w k = None \<and> mem_live w' = (mem_live w)(k \<mapsto> v)
      \<and> mem_members w' = mem_members w
    \<or> r = Ok False \<and> mem_live w k \<noteq> None \<and> w' = w
    \<or> r = Panic \<and> w' = w"
proof (cases "mem_expires_at (mw_clock w) ttl")
  case (Ok x)
  show ?thesis
  proof (cases "mem_live w k")
    case None
    with assms Ok have "r = Ok True" "w' = mem_insert k v x w"
      by (auto simp: mem_add_def mem_live_def split: option.splits if_splits)
    with None Ok show ?thesis by (simp add: mem_live_insert)
  next
    case (Some u)
    with assms Ok have "r = Ok False" "w' = w"
      by (auto simp: mem_add_def mem_live_def split: option.splits if_splits)
    with Some show ?thesis by simp
  qed
qed (use assms in \<open>auto simp: mem_add_def\<close>)

lemma mem_replace_cases:
  assumes "mem_replace k v ttl w = (r, w')"
  shows "r = Ok True \<and> mem_live w k \<noteq> None \<and> mem_live w' = (mem_live w)(k \<mapsto> v)
      \<and> mem_members w' = mem_members w
    \<or> r = Ok False \<and> mem_live w k = None \<and> w' = w
    \<or> r = Panic \<and> w' = w"
proof (cases "mem_expires_at (mw_clock w) ttl")
  case (Ok x)
  show ?thesis
  proof (cases "mem_live w k")
    case None
    with assms Ok have "r = Ok False" "w' = w"
      by (auto simp: mem_replace_def mem_live_def split: option.splits if_splits)
    with None show ?thesis by simp
  next
    case (Some u)
    with assms Ok have "r = Ok True" "w' = mem_insert k v x w"
      by (auto simp: mem_replace_def mem_live_def split: option.splits if_splits)
    with Some Ok show ?thesis by (simp add: mem_live_insert)
  qed
qed (use assms in \<open>auto simp: mem_replace_def\<close>)

lemma mem_delete_eq:
  "\<exists>w'. mem_delete ks w = (Ok (), w') \<and> mem_live w' = (\<lambda>k. if k \<in> set ks then None else mem_live w k)
    \<and> mem_members w' = mem_members w"
  by (auto simp: mem_delete_def mem_live_def fold_delete_at split: option.splits)

lemma mem_touch_cases:
  assumes "mem_touch k ttl w = (r, w')"
  shows "r = Ok () \<and> mem_live w k \<noteq> None \<and> mem_live w' = mem_live w \<and> mem_members w' = mem_members w
    \<or> r = Err NotFound \<and> mem_live w k = None \<and> w' = w
    \<or> r = Panic \<and> w' = w"
proof (cases "mem_live w k")
  case None
  with assms show ?thesis
    by (auto simp: mem_touch_def mem_live_def split: option.splits if_splits)
next
  case (Some u)
  then obtain e where e: "mw_data w k = Some e" "\<not> is_expired (mw_clock w) e"
    by (auto simp: mem_live_def split: option.splits if_splits)
  show ?thesis
  proof (cases "mem_expires_at (mw_clock w) ttl")
    case (Ok x)
    with assms e have r: "r = Ok ()"
      and w': "w' = w\<lparr>mw_data := (mw_data w)(k \<mapsto> e\<lparr>e_expires_at := x\<rparr>)\<rparr>"
      by (auto simp: mem_touch_def)
    have "mem_live w' = mem_live w"
      using mem_expires_at_cases [OF Ok] e w'
      by (auto simp: mem_live_def is_expired_def fun_eq_iff split: option.splits)
    with r w' Some show ?thesis by simp
  qed (use assms e in \<open>auto simp: mem_touch_def\<close>)
qed

lemma mem_set_add_eq:
  "\<exists>w'. mem_set_add k ms w = (Ok (), w') \<and> mem_live w' = mem_live w
    \<and> mem_members w' = (mem_members w)(k := mem_members w k \<union> set ms)"
  by (auto simp: mem_set_add_def mem_members_def set_fold_Dlist_insert Let_def fun_eq_iff
      split: option.splits)

lemma mem_set_remove_eq:
  "\<exists>w'. mem_set_remove k ms w = (Ok (), w') \<and> mem_live w' = mem_live w
    \<and> mem_members w' = (mem_members w)(k := mem_members w k - set ms)"
proof (cases "mw_sets w k")
  case None
  then show ?thesis by (auto simp: mem_set_remove_def mem_members_def fun_eq_iff)
next
  case (Some s)
  let ?s = "fold Dlist.remove ms s"
  have "Dlist.null ?s \<Longrightarrow> set (list_of_dlist s) - set ms = {}"
    by (simp add: Dlist.null_def set_fold_Dlist_remove [symmetric])
  with Some show ?thesis
    by (auto simp: mem_set_remove_def mem_members_def set_fold_Dlist_remove Let_def fun_eq_iff)
qed

lemma mem_set_members_eq:
  "\<exists>ms. mem_set_members k w = (Ok ms, w) \<and> set ms = mem_members w k \<and> distinct ms"
  by (auto simp: mem_set_members_def mem_members_def split: option.splits)

lemma mem_deleteD:
  "mem_delete ks w = (r, w') \<Longrightarrow> r = Ok () \<and> mem_members w' = mem_members w \<and>
     mem_live w' = (\<lambda>k. if k \<in> set ks then None else mem_live w k)"
  using mem_delete_eq [of ks w] by auto

lemma mem_set_addD:
  "mem_set_add k ms w = (r, w') \<Longrightarrow> r = Ok () \<and> mem_live w' = mem_live w \<and>
     mem_members w' = (mem_members w)(k := mem_members w k \<union> set ms)"
  using mem_set_add_eq [of k ms w] by auto

lemma mem_set_removeD:
  "mem_set_remove k ms w = (r, w') \<Longrightarrow> r = Ok () \<and> mem_live w' = mem_live w \<and>
     mem_members w' = (mem_members w)(k := mem_members w k - set ms)"
  using mem_set_remove_eq [of k ms w] by auto

lemma mem_set_membersD:
  "mem_set_members k w = (r, w') \<Longrightarrow>
     \<exists>ms. r = Ok ms \<and> w' = w \<and> set ms = mem_members w k \<and> distinct ms"
  using mem_set_members_eq [of k w] by auto

lemmas mem_opD = mem_set_cases mem_add_cases mem_replace_cases mem_touch_cases
  mem_deleteD mem_set_addD mem_set_removeD mem_set_membersD

subsection \<open>The memory backend keeps the contracts\<close>

interpretation mem: kv_store memory_driver mem_live
  by unfold_locales
    (auto simp: memory_driver_def mem_get_eq mem_exists_eq outside_def
      split: option.splits if_splits dest!: mem_opD)

interpretation mem: set_store memory_sets mem_members
  by unfold_locales (auto simp: memory_sets_def dest!: mem_opD)

interpretation mem: backend memory_driver mem_live memory_sets mem_members
  by unfold_locales
    (auto simp: memory_driver_def memory_sets_def mem_get_eq mem_exists_eq dest!: mem_opD)

interpretation mem: bulk_backend memory_driver mem_live memory_sets mem_members memory_bulk
  by unfold_locales (auto simp: memory_bulk_def mem_get_many_eq mem_exists_many_eq)

lemma mem_set_scan_pages:
  "\<exists>pages. set (concat pages) = mem_members w k \<and>
     (\<forall>visit v. mem_set_scan k visit (v, w) = io_each visit pages (v, w))"
proof -
  obtain ms where ms: "mem_set_members k w = (Ok ms, w)" "set ms = mem_members w k"
    using mem_set_members_eq by blast
  show ?thesis
  proof (cases "ms = []")
    case True
    with ms show ?thesis by (intro exI [of _ "[]"]) (simp add: mem_set_scan_def io_ret_def)
  next
    case False
    with ms show ?thesis by (intro exI [of _ "[ms]"]) (simp add: mem_set_scan_def)
  qed
qed

interpretation mem: steady_backend memory_driver mem_live memory_sets mem_members memory_bulk
  memory_set_scanner
proof
  fix ks and w :: "'a mem_world_scheme"
  show "\<exists>w'. drv_delete memory_driver ks w = (Ok (), w') \<and> mem_members w' = mem_members w \<and>
      mem_live w' = (\<lambda>k. if k \<in> set ks then None else mem_live w k)"
    using mem_delete_eq [of ks w] by (auto simp: memory_driver_def)
next
  fix k and w :: "'a mem_world_scheme"
  show "\<exists>pages. set (concat pages) = mem_members w k \<and>
     (\<forall>visit v. ssc_set_scan memory_set_scanner k visit (v, w) = io_each visit pages (v, w))"
    using mem_set_scan_pages [of w k] by (simp add: memory_set_scanner_def)
qed (use mem_set_add_eq mem_set_remove_eq mem_set_members_eq in
    \<open>fastforce simp: memory_defs mem_get_eq mem_exists_eq mem_get_many_eq mem_exists_many_eq\<close>)+

lemma mem_listing_scan:
  assumes "mem_set_scan k visit (v, w) = (r, (v', w'))"
  shows "\<exists>pages. scan_run (calm mem_live mem_members) visit pages (v, w) (r, (v', w')) \<and>
        set (concat pages) \<subseteq> mem_members w k \<and>
        (r = Ok () \<longrightarrow> mem_members w k \<inter> mem_members w' k \<subseteq> set (concat pages))"
proof -
  obtain pages where p: "set (concat pages) = mem_members w k"
    "io_each visit pages (v, w) = (r, (v', w'))"
    using mem_set_scan_pages [of w k] assms by metis
  from io_each_scan_run [OF _ p(2), of "calm mem_live mem_members"] obtain qs where
    "scan_run (calm mem_live mem_members) visit qs (v, w) (r, (v', w'))" "set qs \<subseteq> set pages"
    "r = Ok () \<longrightarrow> qs = pages" by auto
  then show ?thesis using p(1) by (intro exI [of _ qs]) auto
qed

text \<open>The provider declares every capability; the strategies also run without them.\<close>

interpretation mem: listing_backend memory_driver mem_live memory_sets mem_members
  "Some memory_bulk" "Some memory_set_scanner"
proof (rule listing_backend.intro [OF mem.backend_axioms listing_backend_axioms.intro])
  fix b :: "'a mem_world_scheme bulk"
  assume "Some memory_bulk = Some b"
  then have "b = memory_bulk" by simp
  then show "bulk_backend memory_driver mem_live memory_sets mem_members b"
    by (simp add: mem.bulk_backend_axioms)
qed (simp only: option.inject, hypsubst, rule mem_listing_scan, simp add: memory_set_scanner_def)

interpretation mem_plain: listing_backend memory_driver mem_live memory_sets mem_members None None
  by unfold_locales simp_all

subsection \<open>Properties\<close>

text \<open>the in-process implementations keep the documented contract of every trait they stand
  for: reads return exactly the live values, conditional writes and deletions change the
  abstract map as documented, a panic changes nothing, sets behave as sets, and no call
  touches another key.\<close>

theorem memory_backend_lawful:
  "steady_backend (memory_driver :: 'a mem_world_scheme driver) mem_live memory_sets mem_members
     memory_bulk memory_set_scanner"
  by (rule mem.steady_backend_axioms)

text \<open>a stored value is readable for exactly its lease: for ever when the lease is zero,
  otherwise until the deadline and not after it.\<close>

theorem memory_set_get_lease:
  assumes "mem_set k v ttl w = (Ok (), w')"
  shows "mem_get k (advance d w') = (if ttl = 0 \<or> d < ttl then Ok v else Err NotFound, advance d w')"
  using assms
  by (auto simp: mem_set_def mem_get_def advance_def mem_insert_def is_expired_def
      split: rresult.splits dest!: mem_expires_at_cases)

theorem memory_set_get_lease_witness:
  "mem_set ''k'' [1] 5 memory_new = (Ok (), mem_insert ''k'' [1] (Some 5) memory_new) \<and>
   mem_get ''k'' (advance 5 (mem_insert ''k'' [1] (Some 5) memory_new)) =
     (Err NotFound, advance 5 (mem_insert ''k'' [1] (Some 5) memory_new))"
proof -
  have "mem_set ''k'' [1] 5 memory_new = (Ok (), mem_insert ''k'' [1] (Some 5) memory_new)"
    by (simp add: mem_set_def mem_expires_at_def instant_add_def memory_new_def clock_max_def)
  with memory_set_get_lease [OF this, of 5] show ?thesis by simp
qed

text \<open>leased locks exclude each other and are fenced: while a lease runs no second claim is
  granted, and when a second owner did get the lock the first owner's late release deletes
  nothing.\<close>

theorem memory_lock_fenced:
  assumes "mem_add key t1 lease w = (Ok True, w1)" "0 < lease"
    and "mem_add key t2 lease' (advance d w1) = (Ok True, w2)"
  shows "lease \<le> d \<and> (t1 \<noteq> t2 \<longrightarrow> mem_delete_if key t1 w2 = (Ok False, w2))"
proof
  from assms(1,2) have e: "mw_data w1 key = Some \<lparr>e_value = t1, e_expires_at = Some (mw_clock w + lease)\<rparr>"
    and c: "mw_clock w1 = mw_clock w"
    by (auto simp: mem_add_def mem_insert_def split: rresult.splits option.splits if_splits
        dest!: mem_expires_at_cases)
  from mem_add_cases [OF assms(3)] have "mem_live (advance d w1) key = None" by auto
  with e c show "lease \<le> d"
    by (auto simp: mem_live_def advance_def is_expired_def split: if_splits)
  from mem_add_cases [OF assms(3)] have "mem_live w2 key = Some t2" by auto
  then show "t1 \<noteq> t2 \<longrightarrow> mem_delete_if key t1 w2 = (Ok False, w2)"
    by (auto simp: mem_delete_if_def mem_live_def Let_def split: option.splits if_splits)
qed

theorem memory_lock_fenced_witness:
  "\<exists>w1 w2. mem_add ''l'' [1] 3 memory_new = (Ok True, w1) \<and>
     mem_add ''l'' [2] 3 (advance 4 w1) = (Ok True, w2) \<and>
     mem_delete_if ''l'' [1] w2 = (Ok False, w2)"
proof -
  have a: "mem_add ''l'' [1] 3 memory_new = (Ok True, mem_insert ''l'' [1] (Some 3) memory_new)"
    by (simp add: mem_add_def mem_expires_at_def instant_add_def memory_new_def clock_max_def)
  have b: "mem_add ''l'' [2] 3 (advance 4 (mem_insert ''l'' [1] (Some 3) memory_new)) =
     (Ok True, mem_insert ''l'' [2] (Some 7) (advance 4 (mem_insert ''l'' [1] (Some 3) memory_new)))"
    by (simp add: mem_add_def mem_expires_at_def instant_add_def memory_new_def clock_max_def
        advance_def mem_insert_def is_expired_def)
  from memory_lock_fenced [OF a _ b] a b show ?thesis by auto
qed

text \<open>the remaining lease a reader is told is positive, never exceeds the lease written, is
  zero exactly for a permanent entry, and an expired or missing entry is reported missing.\<close>

theorem memory_ttl_reports:
  assumes "mem_set k v ttl w = (Ok (), w')"
  shows "mem_ttl k (advance d w') =
     (if ttl = 0 then Ok 0 else if d < ttl then Ok (ttl - d) else Err NotFound, advance d w')"
  using assms
  by (auto simp: mem_set_def mem_ttl_def advance_def mem_insert_def
      split: rresult.splits dest!: mem_expires_at_cases)

theorem memory_ttl_reports_witness:
  "mem_set ''k'' [1] 5 memory_new = (Ok (), mem_insert ''k'' [1] (Some 5) memory_new) \<and>
   mem_ttl ''k'' (advance 2 (mem_insert ''k'' [1] (Some 5) memory_new)) =
     (Ok 3, advance 2 (mem_insert ''k'' [1] (Some 5) memory_new))"
proof -
  have "mem_set ''k'' [1] 5 memory_new = (Ok (), mem_insert ''k'' [1] (Some 5) memory_new)"
    by (simp add: mem_set_def mem_expires_at_def instant_add_def memory_new_def clock_max_def)
  with memory_ttl_reports [OF this, of 2] show ?thesis by simp
qed

end
