(* ===== verification/Document.thy ===== *)
theory Document
  imports Keyspace Options Memory
begin

text \<open>
  Enumerable ID-addressed storage: \<open>DocumentImpl\<close> of \<open>cache/src/strategies/document.rs\<close>.

  \<open>create\<close> publishes the identifier in the enumeration set before it stores the value, \<open>delete\<close>
  removes the value before the membership, \<open>update\<close> replaces only, and \<open>keys\<close> sweeps members
  whose entries are gone. The invariant \<open>enumerated\<close> (every live entry is a member) is the point
  of that order; it is proved for every operation and every outcome, failures in the middle
  included. The identifier source is the code's \<open>NewId\<close> closure, an argument of the model.
\<close>

datatype document_layout = DocumentLayout | IndexedLayout

record 'w document_wiring =
  dw_driver :: "'w driver"
  dw_sets :: "'w sets option"
  dw_leases :: "'w leases option"
  dw_bulk :: "'w bulk option"
  dw_set_scanner :: "'w set_scanner option"
  dw_keyspace :: keyspace
  dw_default_ttl :: nat
  dw_require_ttl :: bool
  dw_concurrency :: nat
  dw_new_id :: "'w \<Rightarrow> string \<times> 'w"

record 'w document = "'w document_wiring" +
  dw_layout :: document_layout

definition with_layout :: "'w document_wiring \<Rightarrow> document_layout \<Rightarrow> 'w document" where
  "with_layout wiring layout =
     \<lparr>dw_driver = dw_driver wiring, dw_sets = dw_sets wiring, dw_leases = dw_leases wiring,
      dw_bulk = dw_bulk wiring, dw_set_scanner = dw_set_scanner wiring,
      dw_keyspace = dw_keyspace wiring, dw_default_ttl = dw_default_ttl wiring,
      dw_require_ttl = dw_require_ttl wiring, dw_concurrency = max (dw_concurrency wiring) 1,
      dw_new_id = dw_new_id wiring, dw_layout = layout\<rparr>"

definition document_new_with_id :: "'w document_wiring \<Rightarrow> 'w document" where
  "document_new_with_id wiring = with_layout wiring DocumentLayout"

definition document_new_indexed :: "'w document_wiring \<Rightarrow> 'w document" where
  "document_new_indexed wiring = with_layout wiring IndexedLayout"

text \<open>Direct construction; the default UUID generator is the argument \<open>default_new_id\<close>.\<close>

definition document_new ::
  "('w \<Rightarrow> string \<times> 'w) \<Rightarrow> 'w driver \<Rightarrow> 'w sets option \<Rightarrow> keyspace \<Rightarrow> nat \<Rightarrow> bool \<Rightarrow> 'w document" where
  "document_new default_new_id drv sts ks default_ttl require_ttl =
     document_new_with_id
       \<lparr>dw_driver = drv, dw_sets = sts, dw_leases = None, dw_bulk = None, dw_set_scanner = None,
        dw_keyspace = ks, dw_default_ttl = default_ttl, dw_require_ttl = require_ttl,
        dw_concurrency = default_concurrency, dw_new_id = default_new_id\<rparr>"

definition document_resolve_ttl :: "'w document \<Rightarrow> options \<Rightarrow> nat rresult" where
  "document_resolve_ttl d opts =
     (case opt_ttl opts of
        Some ttl \<Rightarrow> Ok ttl
      | None \<Rightarrow>
          if opt_permanent opts then Ok 0
          else if dw_default_ttl d \<noteq> 0 then Ok (dw_default_ttl d)
          else if dw_require_ttl d then Err NoTTL
          else Ok 0)"

definition document_resolve_id :: "'w document \<Rightarrow> options \<Rightarrow> ('w, string) io" where
  "document_resolve_id d opts w =
     (case opt_id opts of
        Some i \<Rightarrow> (Ok i, w)
      | None \<Rightarrow> (let (i, w') = dw_new_id d w in (Ok i, w')))"

definition document_entry_key :: "'w document \<Rightarrow> string \<Rightarrow> string" where
  "document_entry_key d i =
     (case dw_layout d of
        DocumentLayout \<Rightarrow> doc_entry (dw_keyspace d) i
      | IndexedLayout \<Rightarrow> idx_entry (dw_keyspace d) i)"

definition document_index_key :: "'w document \<Rightarrow> string" where
  "document_index_key d =
     (case dw_layout d of
        DocumentLayout \<Rightarrow> doc_index (dw_keyspace d)
      | IndexedLayout \<Rightarrow> idx_index (dw_keyspace d))"

definition document_create :: "'w document \<Rightarrow> bytes \<Rightarrow> options \<Rightarrow> ('w, string) io" where
  "document_create d v opts =
     io_bind (io_lift (document_resolve_ttl d opts)) (\<lambda>ttl.
     io_bind (document_resolve_id d opts) (\<lambda>i.
     io_bind (case dw_sets d of
                Some sts \<Rightarrow> sts_add sts (document_index_key d) [i]
              | None \<Rightarrow> io_ret ()) (\<lambda>_.
     io_bind (drv_set (dw_driver d) (document_entry_key d i) v ttl) (\<lambda>_.
     io_ret i))))"

definition document_get :: "'w document \<Rightarrow> string \<Rightarrow> ('w, bytes) io" where
  "document_get d i = drv_get (dw_driver d) (document_entry_key d i)"

definition document_update :: "'w document \<Rightarrow> string \<Rightarrow> bytes \<Rightarrow> options \<Rightarrow> ('w, unit) io" where
  "document_update d i v opts =
     io_bind (io_lift (document_resolve_ttl d opts)) (\<lambda>ttl.
     io_bind (drv_replace (dw_driver d) (document_entry_key d i) v ttl) (\<lambda>ok.
     if \<not> ok then io_fail NotFound else io_ret ()))"

definition document_delete :: "'w document \<Rightarrow> string \<Rightarrow> ('w, unit) io" where
  "document_delete d i =
     io_bind (drv_delete (dw_driver d) [document_entry_key d i]) (\<lambda>_.
     case dw_sets d of
       Some sts \<Rightarrow> io_bind (sts_remove sts (document_index_key d) [i]) (\<lambda>_. io_ret ())
     | None \<Rightarrow> io_ret ())"

definition document_keys :: "'w document \<Rightarrow> ('w, string list) io" where
  "document_keys d =
     (case dw_sets d of
        None \<Rightarrow> io_fail Unsupported
      | Some sts \<Rightarrow>
          live_members (dw_driver d) (dw_bulk d) sts (dw_set_scanner d) (document_index_key d)
            (document_entry_key d))"

definition document_list :: "'w document \<Rightarrow> ('w, bytes list) io" where
  "document_list d =
     io_bind (document_keys d) (\<lambda>ids.
       get_all (dw_driver d) (dw_bulk d) (map (document_entry_key d) ids))"

definition document_ttl :: "'w document \<Rightarrow> string \<Rightarrow> ('w, nat) io" where
  "document_ttl d i =
     (case dw_leases d of
        None \<Rightarrow> io_fail Unsupported
      | Some lea \<Rightarrow> lea_ttl lea (document_entry_key d i))"

text \<open>The operations of the trait as data, to speak of sequences of calls.\<close>

datatype document_call =
    Create bytes options
  | Get string
  | Update string bytes options
  | Delete string
  | Keys
  | ListAll
  | Ttl string

fun document_step :: "'w document \<Rightarrow> document_call \<Rightarrow> 'w \<Rightarrow> 'w" where
  "document_step d (Create v opts) w = snd (document_create d v opts w)"
| "document_step d (Get i) w = snd (document_get d i w)"
| "document_step d (Update i v opts) w = snd (document_update d i v opts w)"
| "document_step d (Delete i) w = snd (document_delete d i w)"
| "document_step d Keys w = snd (document_keys d w)"
| "document_step d ListAll w = snd (document_list d w)"
| "document_step d (Ttl i) w = snd (document_ttl d i w)"

lemma document_resolve_ttl_policy:
  "document_resolve_ttl d opts = lease_policy (dw_default_ttl d) (dw_require_ttl d) opts"
  by (simp add: document_resolve_ttl_def lease_policy_def split: option.split)

lemma document_entry_key_inject [simp]: "document_entry_key d i = document_entry_key d j \<longleftrightarrow> i = j"
  by (simp add: document_entry_key_def key_simps split: document_layout.split)

lemma document_index_not_entry [simp]:
  "document_index_key d \<noteq> document_entry_key d i" "document_entry_key d i \<noteq> document_index_key d"
  by (simp_all add: document_entry_key_def document_index_key_def key_simps split: document_layout.split)

subsection \<open>The enumeration invariant\<close>

definition enumerated ::
  "('w \<Rightarrow> string \<rightharpoonup> bytes) \<Rightarrow> ('w \<Rightarrow> string \<Rightarrow> string set) \<Rightarrow> 'w document \<Rightarrow> 'w \<Rightarrow> bool" where
  "enumerated live mem d w \<longleftrightarrow>
     (\<forall>i. live w (document_entry_key d i) \<noteq> None \<longrightarrow> i \<in> mem w (document_index_key d))"

lemma enumerated_mono:
  assumes "enumerated live mem d w"
    and "outside {} (live w) (live w')" "mem w (document_index_key d) \<subseteq> mem w' (document_index_key d)"
  shows "enumerated live mem d w'"
  using assms by (auto simp: enumerated_def dest: outside_live)

lemma enumerated_calm: "enumerated live mem d w \<Longrightarrow> calm live mem w w' \<Longrightarrow> enumerated live mem d w'"
  by (auto simp: calm_def intro: enumerated_mono)

lemma enumerated_swept:
  assumes "enumerated live mem d w"
    and "swept live mem (document_index_key d) (document_entry_key d) w w'"
  shows "enumerated live mem d w'"
proof -
  have "i \<in> mem w (document_index_key d)" if "live w' (document_entry_key d i) \<noteq> None" for i
    using assms that by (auto simp: enumerated_def swept_def dest: outside_live)
  then show ?thesis using assms(2) by (auto simp: enumerated_def swept_def)
qed

text \<open>A document over a backend with the capabilities it was wired to.\<close>

locale document_backend = listing_backend "dw_driver d" live sts mem "dw_bulk d" "dw_set_scanner d"
  for d :: "'w document" and live and sts :: "'w sets" and mem +
  assumes wired_sets: "dw_sets d = Some sts"
    and leases_calm: "dw_leases d = Some lea \<Longrightarrow> lea_ttl lea k w = (rl, w') \<Longrightarrow> calm live mem w w'"
    and new_id_calm: "dw_new_id d w = (i, w') \<Longrightarrow> calm live mem w w'"
begin

lemma resolve_id_calm: "document_resolve_id d opts w = (r, w') \<Longrightarrow> calm live mem w w'"
  using new_id_calm by (auto simp: document_resolve_id_def split: option.splits prod.splits)

lemma create_enumerated:
  assumes "enumerated live mem d w" "document_create d v opts w = (r, w')"
  shows "enumerated live mem d w'"
proof -
  let ?store = "\<lambda>i ttl. io_bind (drv_set (dw_driver d) (document_entry_key d i) v ttl) (\<lambda>_. io_ret i)"
  let ?publish = "\<lambda>i ttl. io_bind (sts_add sts (document_index_key d) [i]) (\<lambda>_. ?store i ttl)"
  have store: "enumerated live mem d w2"
    if "?store i ttl w1 = (r, w2)" "enumerated live mem d w1" "i \<in> mem w1 (document_index_key d)" for i ttl w1 w2
  proof -
    from that(1) obtain q where s: "drv_set (dw_driver d) (document_entry_key d i) v ttl w1 = (q, w2)"
      by (cases rule: io_bindE) (auto simp: io_ret_def)
    show ?thesis
      using set_frame [OF s] set_mem [OF s, of "document_index_key d"] that(2,3)
      by (auto simp: enumerated_def outside_def) (metis document_entry_key_inject option.simps(3))
  qed
  have publish: "enumerated live mem d w2"
    if p: "?publish i ttl w1 = (r, w2)" and e: "enumerated live mem d w1" for i ttl w1 w2
    using p
  proof (cases rule: io_bindE)
    case (ok u w3)
    have "enumerated live mem d w3" "i \<in> mem w3 (document_index_key d)"
      using add_between [OF ok(1)] add_live [OF ok(1)] add_Ok [OF ok(1)] e
      by (auto intro: enumerated_mono)
    with store [OF ok(2)] show ?thesis by simp
  qed (use add_between add_live e in \<open>blast intro: enumerated_mono\<close>)+
  have "io_bind (io_lift (document_resolve_ttl d opts))
      (\<lambda>ttl. io_bind (document_resolve_id d opts) (\<lambda>i. ?publish i ttl)) w = (r, w')"
    using assms(2) by (simp add: document_create_def wired_sets)
  then show ?thesis
  proof (cases rule: io_bindE)
    case (ok ttl w1)
    then have "io_bind (document_resolve_id d opts) (\<lambda>i. ?publish i ttl) w = (r, w')" by simp
    then show ?thesis
    proof (cases rule: io_bindE)
      case (ok i w2)
      with publish [OF ok(2)] show ?thesis
        using enumerated_calm [OF assms(1) resolve_id_calm] by blast
    qed (use enumerated_calm [OF assms(1) resolve_id_calm] in blast)+
  qed (use assms(1) in auto)
qed

lemma update_enumerated:
  assumes "enumerated live mem d w" "document_update d i v opts w = (r, w')"
  shows "enumerated live mem d w'"
proof -
  from assms(2) have "w' = w \<or> (\<exists>q ttl. drv_replace (dw_driver d) (document_entry_key d i) v ttl w = (q, w'))"
    unfolding document_update_def
    by (auto elim!: io_bindE simp: io_ret_def io_fail_def split: if_splits)
  then show ?thesis
  proof
    assume "\<exists>q ttl. drv_replace (dw_driver d) (document_entry_key d i) v ttl w = (q, w')"
    then obtain q ttl where s: "drv_replace (dw_driver d) (document_entry_key d i) v ttl w = (q, w')" by blast
    show ?thesis
      using replace_frame [OF s] replace_key [OF s] replace_mem [OF s, of "document_index_key d"] assms(1)
      by (auto simp: enumerated_def outside_def) (metis option.simps(3))
  qed (use assms(1) in simp)
qed

lemma delete_enumerated:
  assumes "enumerated live mem d w" "document_delete d i w = (r, w')"
  shows "enumerated live mem d w'"
proof -
  from assms(2) have "io_bind (drv_delete (dw_driver d) [document_entry_key d i])
      (\<lambda>_. sts_remove sts (document_index_key d) [i]) w = (r, w')"
    by (simp add: document_delete_def wired_sets)
  then show ?thesis
  proof (cases rule: io_bindE)
    case (ok u w1)
    have e: "enumerated live mem d w1" "live w1 (document_entry_key d i) = None"
      using delete_frame [OF ok(1)] delete_mem [OF ok(1)] delete_Ok [OF ok(1)]
      by (auto intro: enumerated_mono [OF assms(1)])
    show ?thesis
      using e remove_between [OF ok(2)] outside_live [OF remove_live [OF ok(2)]]
      unfolding enumerated_def by fastforce
  qed (use delete_frame delete_mem in \<open>auto intro!: enumerated_mono [OF assms(1)]\<close>)
qed

lemma keys_swept:
  assumes "document_keys d w = (r, w')"
  shows "swept live mem (document_index_key d) (document_entry_key d) w w'"
    "r = Ok ids \<Longrightarrow> listed live mem (document_index_key d) (document_entry_key d) w w' ids"
  using assms live_members_spec by (auto simp: document_keys_def wired_sets)

lemma list_swept:
  assumes "document_list d w = (r, w')"
  shows "swept live mem (document_index_key d) (document_entry_key d) w w'"
proof -
  from assms have "io_bind (document_keys d)
      (\<lambda>ids. get_all (dw_driver d) (dw_bulk d) (map (document_entry_key d) ids)) w = (r, w')"
    by (simp add: document_list_def)
  then show ?thesis
    by (cases rule: io_bindE)
      (auto dest: keys_swept(1) get_all_obs(1) swept_calm intro: swept_trans)
qed

lemma step_enumerated: "enumerated live mem d w \<Longrightarrow> enumerated live mem d (document_step d c w)"
proof (cases c)
  case (Get i)
  assume "enumerated live mem d w"
  then show ?thesis
    using Get drv_get_calm [of "document_entry_key d i" w] enumerated_calm
    by (cases "document_get d i w") (auto simp: document_get_def)
next
  case (Ttl i)
  assume e: "enumerated live mem d w"
  show ?thesis
  proof (cases "dw_leases d")
    case None
    with Ttl e show ?thesis by (simp add: document_ttl_def io_fail_def)
  next
    case (Some lea)
    with Ttl e leases_calm [OF Some, of "document_entry_key d i" w] enumerated_calm show ?thesis
      by (cases "lea_ttl lea (document_entry_key d i) w") (auto simp: document_ttl_def)
  qed
qed (metis prod.collapse document_step.simps create_enumerated update_enumerated delete_enumerated
    keys_swept(1) list_swept enumerated_swept)+

lemma create_stores:
  assumes "document_create d v opts w = (Ok i, w')"
  shows "live w' (document_entry_key d i) = Some v" "i \<in> mem w' (document_index_key d)"
    "opt_id opts = Some j \<Longrightarrow> i = j"
proof -
  from assms obtain ttl w1 w2 where s: "document_resolve_id d opts w = (Ok i, w1)"
    "sts_add sts (document_index_key d) [i] w1 = (Ok (), w2)"
    "drv_set (dw_driver d) (document_entry_key d i) v ttl w2 = (Ok (), w')"
    by (auto simp: document_create_def wired_sets io_bind_Ok io_ret_def)
  show "live w' (document_entry_key d i) = Some v" by (rule set_Ok [OF s(3)])
  show "i \<in> mem w' (document_index_key d)"
    using add_Ok [OF s(2)] set_mem [OF s(3), of "document_index_key d"] by simp
  show "opt_id opts = Some j \<Longrightarrow> i = j"
    using s(1) by (simp add: document_resolve_id_def)
qed

lemma update_replaces:
  assumes "document_update d i v opts w = (Ok (), w')"
  shows "live w (document_entry_key d i) \<noteq> None" "live w' (document_entry_key d i) = Some v"
proof -
  from assms obtain ttl where s: "drv_replace (dw_driver d) (document_entry_key d i) v ttl w = (Ok True, w')"
    by (auto simp: document_update_def io_bind_Ok io_ret_def io_fail_def split: if_splits)
  show "live w' (document_entry_key d i) = Some v" by (rule replace_True [OF s])
  then show "live w (document_entry_key d i) \<noteq> None" using replace_key [OF s] by simp
qed

lemma get_stored:
  assumes "document_get d i w = (Ok x, w')"
  shows "live w (document_entry_key d i) = Some x"
  using get_Ok [OF assms [unfolded document_get_def]]
    outside_live [OF get_frame [OF assms [unfolded document_get_def]]] by simp

end

subsection \<open>The in-process document\<close>

text \<open>
  The memory backend with the sequential identifier generator of \<open>keyspace.rs\<close>, whose counter
  is one more component of the world.
\<close>

record id_world = mem_world +
  iw_counter :: "64 word"

definition memory_new_id :: "id_world \<Rightarrow> string \<times> id_world" where
  "memory_new_id w = (let (i, c) = new_id (mw_clock w) (iw_counter w) in (i, w\<lparr>iw_counter := c\<rparr>))"

definition memory_wiring :: "keyspace \<Rightarrow> nat \<Rightarrow> bool \<Rightarrow> id_world document_wiring" where
  "memory_wiring ks default_ttl require_ttl =
     \<lparr>dw_driver = memory_driver, dw_sets = Some memory_sets, dw_leases = Some memory_leases,
      dw_bulk = Some memory_bulk, dw_set_scanner = Some memory_set_scanner, dw_keyspace = ks,
      dw_default_ttl = default_ttl, dw_require_ttl = require_ttl,
      dw_concurrency = default_concurrency, dw_new_id = memory_new_id\<rparr>"

definition id_world_new :: id_world where
  "id_world_new = \<lparr>mw_clock = 0, mw_data = Map.empty, mw_sets = Map.empty, iw_counter = 0\<rparr>"

lemmas memory_document_defs = with_layout_def memory_wiring_def

lemma memory_new_id_calm: "memory_new_id w = (i, w') \<Longrightarrow> calm mem_live mem_members w w'"
  by (auto simp: memory_new_id_def new_id_def calm_def outside_def mem_live_def mem_members_def fun_eq_iff
      split: option.splits)

lemma mem_ttl_calm: "mem_ttl k w = (r, w') \<Longrightarrow> calm mem_live mem_members w w'"
  by (auto simp: mem_ttl_def split: option.splits if_splits)

interpretation mdoc: document_backend "with_layout (memory_wiring ks default_ttl require_ttl) layout"
  mem_live memory_sets mem_members
  for ks default_ttl require_ttl layout
proof (rule document_backend.intro)
  show "listing_backend (dw_driver (with_layout (memory_wiring ks default_ttl require_ttl) layout)) mem_live
     memory_sets mem_members (dw_bulk (with_layout (memory_wiring ks default_ttl require_ttl) layout))
     (dw_set_scanner (with_layout (memory_wiring ks default_ttl require_ttl) layout))"
    using mem.listing_backend_axioms by (simp add: memory_document_defs)
  show "document_backend_axioms (with_layout (memory_wiring ks default_ttl require_ttl) layout) mem_live
     memory_sets mem_members"
    by unfold_locales
      (auto simp: memory_document_defs memory_leases_def dest: memory_new_id_calm mem_ttl_calm)
qed

subsection \<open>Properties\<close>

text \<open>C1: no stored document is ever invisible. Over any lawful backend, after any sequence of
  calls, each of which may fail or be cut short at any of its backend calls, every live entry is a
  member of the enumeration set.\<close>

theorem document_enumeration_invariant:
  assumes "document_backend d live sts mem" "enumerated live mem d w"
  shows "enumerated live mem d (fold (document_step d) calls w)"
  using assms(2)
  by (induction calls arbitrary: w) (simp_all add: document_backend.step_enumerated [OF assms(1)])

definition sample_document :: "id_world document" where
  "sample_document =
     document_new_with_id (memory_wiring (keyspace_new ''app'' ''main'' 0 False) 0 False)"

lemma sample_document_fields [simp]:
  "dw_driver sample_document = memory_driver" "dw_sets sample_document = Some memory_sets"
  "dw_leases sample_document = Some memory_leases" "dw_bulk sample_document = Some memory_bulk"
  "dw_set_scanner sample_document = Some memory_set_scanner" "dw_new_id sample_document = memory_new_id"
  "document_resolve_ttl sample_document options_default = Ok 0"
  by (simp_all add: sample_document_def document_new_with_id_def memory_document_defs
      document_resolve_ttl_def options_default_def)

lemma sample_document_backend: "document_backend sample_document mem_live memory_sets mem_members"
  by (simp add: sample_document_def document_new_with_id_def mdoc.document_backend_axioms)

lemma sample_enumerated: "enumerated mem_live mem_members sample_document id_world_new"
  by (simp add: enumerated_def id_world_new_def mem_live_def)

theorem document_enumeration_invariant_witness:
  "enumerated mem_live mem_members sample_document
     (fold (document_step sample_document)
       [Create [1] (with_id ''a'' options_default), Create [2] options_default, Delete ''a'', Keys]
       id_world_new)"
  by (rule document_enumeration_invariant [OF sample_document_backend sample_enumerated])

text \<open>C9: what \<open>keys\<close> returns. Over any lawful backend, with any of the optional bulk and cursor
  capabilities, the result lists without repetition only documents that were alive when the call
  began, and every document still alive when it ended.\<close>

theorem document_keys_live:
  assumes "document_backend d live sts mem" "enumerated live mem d w"
    and "document_keys d w = (Ok ids, w')"
  shows "distinct ids \<and> set ids \<subseteq> {i. live w (document_entry_key d i) \<noteq> None} \<and>
    {i. live w' (document_entry_key d i) \<noteq> None} \<subseteq> set ids"
proof -
  let ?ek = "document_entry_key d" and ?ik = "document_index_key d"
  have l: "listed live mem ?ik ?ek w w' ids"
    using document_backend.keys_swept(2) [OF assms(1,3)] by simp
  have o: "outside {} (live w) (live w')"
    using document_backend.keys_swept(1) [OF assms(1,3)] by (simp add: swept_def)
  have "i \<in> mem w ?ik" if "live w' (?ek i) \<noteq> None" for i
    using assms(2) that outside_live [OF o, of "?ek i"] by (auto simp: enumerated_def)
  with l show ?thesis unfolding listed_def by blast
qed

text \<open>Creating a permanent document with a chosen identifier in the memory backend.\<close>

lemma sample_create_eq:
  "\<exists>w'. document_create sample_document v (with_id i options_default) w = (Ok i, w') \<and>
     mem_live w' = (mem_live w)(document_entry_key sample_document i \<mapsto> v)"
proof -
  have "document_resolve_ttl sample_document (with_id i options_default) = Ok 0"
    by (simp add: with_id_def document_resolve_ttl_policy lease_policy_def options_default_def
        sample_document_def document_new_with_id_def memory_document_defs)
  moreover obtain w1 where "mem_set_add (document_index_key sample_document) [i] w = (Ok (), w1)"
    "mem_live w1 = mem_live w"
    using mem_set_add_eq by blast
  ultimately show ?thesis
    by (simp add: document_create_def document_resolve_id_def with_id_def io_bind_def io_ret_def
        memory_driver_def memory_sets_def mem_set_def mem_expires_at_def mem_live_insert_permanent)
qed

definition sample_created :: id_world where
  "sample_created = snd (document_create sample_document [1] (with_id ''a'' options_default) id_world_new)"

lemma sample_created_eq:
  "document_create sample_document [1] (with_id ''a'' options_default) id_world_new =
     (Ok ''a'', sample_created)"
  using sample_create_eq [of "[1]" "''a''" id_world_new] by (auto simp: sample_created_def)

theorem document_keys_live_witness:
  "\<exists>ids w'. document_keys sample_document sample_created = (Ok ids, w') \<and> ''a'' \<in> set ids"
proof -
  have e: "enumerated mem_live mem_members sample_document sample_created"
    using document_backend.create_enumerated [OF sample_document_backend sample_enumerated sample_created_eq] .
  obtain ids w' where k: "document_keys sample_document sample_created = (Ok ids, w')"
    "mem_live w' = mem_live sample_created"
    using mem.live_members_steady [of "Some memory_bulk" "Some memory_set_scanner"
        "document_index_key sample_document" "document_entry_key sample_document" sample_created]
    by (simp add: document_keys_def) blast
  have "mem_live w' (document_entry_key sample_document ''a'') \<noteq> None"
    using document_backend.create_stores(1) [OF sample_document_backend sample_created_eq] k(2) by simp
  with document_keys_live [OF sample_document_backend e k(1)] k(1) show ?thesis by blast
qed

text \<open>C10: the optimised listing paths agree with the plain one. Over a backend whose calls
  succeed, whichever of the bulk and cursor capabilities are present, \<open>keys\<close> returns exactly
  the live documents and leaves exactly them in the enumeration set, and \<open>list\<close> returns their
  values.\<close>

theorem document_listing_paths_agree:
  assumes "steady_backend (dw_driver d) live sts mem blk ssc" "dw_sets d = Some sts"
    and "dw_bulk d \<in> {None, Some blk}" "dw_set_scanner d \<in> {None, Some ssc}"
    and "enumerated live mem d w"
  shows "\<exists>ids w'. document_keys d w = (Ok ids, w') \<and> distinct ids \<and>
      set ids = {i. live w (document_entry_key d i) \<noteq> None} \<and> live w' = live w \<and>
      mem w' = (mem w)(document_index_key d := set ids) \<and>
      document_list d w = (Ok (map (\<lambda>i. the (live w (document_entry_key d i))) ids), w')"
proof -
  let ?ek = "document_entry_key d"
  have "document_keys d = live_members (dw_driver d) (dw_bulk d) sts (dw_set_scanner d) (document_index_key d) ?ek"
    by (simp add: document_keys_def assms(2))
  with steady_backend.live_members_steady [OF assms(1,3,4)]
  obtain ids w' where k: "document_keys d w = (Ok ids, w')" "distinct ids"
    "set ids = {i \<in> mem w (document_index_key d). live w (?ek i) \<noteq> None}" "live w' = live w"
    "mem w' = (mem w)(document_index_key d := set ids)"
    by metis
  have ids: "set ids = {i. live w (?ek i) \<noteq> None}"
    using k(3) assms(5) by (auto simp: enumerated_def)
  have "flatten_options (map (live w) (map ?ek xs)) = map (\<lambda>i. the (live w (?ek i))) xs"
    if "set xs \<subseteq> {i. live w (?ek i) \<noteq> None}" for xs
    using that by (induction xs) (auto simp: flatten_options_def List.map_filter_def)
  then have "document_list d w = (Ok (map (\<lambda>i. the (live w (?ek i))) ids), w')"
    using k(1,4) ids steady_backend.get_all_steady [OF assms(1,3), of "map ?ek ids" w']
    by (simp add: document_list_def io_bind_def)
  with k ids show ?thesis by blast
qed

theorem document_listing_paths_agree_witness:
  "\<exists>ids w'. document_keys sample_document sample_created = (Ok ids, w') \<and>
     document_list sample_document sample_created =
       (Ok (map (\<lambda>i. the (mem_live sample_created (document_entry_key sample_document i))) ids), w')"
proof -
  have e: "enumerated mem_live mem_members sample_document sample_created"
    using document_backend.create_enumerated [OF sample_document_backend sample_enumerated sample_created_eq] .
  have "steady_backend (dw_driver sample_document) mem_live memory_sets mem_members memory_bulk memory_set_scanner"
    "dw_sets sample_document = Some memory_sets" "dw_bulk sample_document \<in> {None, Some memory_bulk}"
    "dw_set_scanner sample_document \<in> {None, Some memory_set_scanner}"
    by (simp_all add: mem.steady_backend_axioms)
  from document_listing_paths_agree [OF this e] show ?thesis by blast
qed

text \<open>a created document is the one later read, also after other documents were created,
  updated or deleted, until it is itself written again; an update changes only documents
  that exist.\<close>

theorem document_create_get:
  assumes "document_backend d live sts mem"
    and "document_create d v opts w = (Ok i, w1)"
    and "j \<noteq> i" "document_update d j v2 opts2 w1 = (Ok (), w2)"
    and "document_get d i w2 = (Ok x, w3)"
  shows "x = v \<and> live w1 (document_entry_key d j) \<noteq> None \<and>
    live w2 (document_entry_key d j) = Some v2"
proof -
  from assms(4) obtain ttl where
    s: "drv_replace (dw_driver d) (document_entry_key d j) v2 ttl w1 = (Ok True, w2)"
    by (auto simp: document_update_def io_bind_Ok io_ret_def io_fail_def split: if_splits)
  have kv: "kv_store (dw_driver d) live"
    using assms(1) by (simp add: document_backend_def listing_backend_def backend_def)
  have "live w2 (document_entry_key d i) = Some x"
    by (rule document_backend.get_stored [OF assms(1,5)])
  then have "live w1 (document_entry_key d i) = Some x"
    using outside_live [OF kv_store.replace_frame [OF kv s], of "document_entry_key d i"] assms(3) by simp
  with document_backend.create_stores(1) [OF assms(1,2)]
    document_backend.update_replaces [OF assms(1,4)] show ?thesis by simp
qed

theorem document_create_get_witness:
  "\<exists>w1 w2. document_create sample_document [2] (with_id ''b'' options_default) sample_created = (Ok ''b'', w1) \<and>
     document_update sample_document ''a'' [3] options_default w1 = (Ok (), w2) \<and>
     document_get sample_document ''b'' w2 = (Ok [2], w2)"
proof -
  obtain w1 where 1: "document_create sample_document [2] (with_id ''b'' options_default) sample_created
      = (Ok ''b'', w1)" "mem_live w1 = (mem_live sample_created)(document_entry_key sample_document ''b'' \<mapsto> [2])"
    using sample_create_eq by blast
  have "mem_live w1 (document_entry_key sample_document ''a'') = Some [1]"
    using document_backend.create_stores(1) [OF sample_document_backend sample_created_eq] 1(2) by simp
  moreover obtain q w2 where r: "mem_replace (document_entry_key sample_document ''a'') [3] 0 w1 = (q, w2)"
    by (metis surj_pair)
  ultimately have 2: "document_update sample_document ''a'' [3] options_default w1 = (Ok (), w2)"
    and live: "mem_live w2 = (mem_live w1)(document_entry_key sample_document ''a'' \<mapsto> [3])"
    using mem_replace_cases [OF r]
    by (auto simp: document_update_def io_bind_def io_ret_def memory_driver_def mem_replace_def
        mem_expires_at_def split: option.splits if_splits)
  obtain x where x: "document_get sample_document ''b'' w2 = (Ok x, w2)"
    using live 1(2) by (simp add: document_get_def memory_driver_def mem_get_eq)
  from document_create_get [OF sample_document_backend 1(1) _ 2 x] 1(1) 2 x show ?thesis by auto
qed

text \<open>the order of writes does not cover a listing that runs beside a \<open>create\<close> of the same
  identifier. A sweep classifies the identifier as stale, a complete and successful \<open>create\<close> runs,
  then the sweep removes the membership: the stored document is alive and not enumerated.\<close>

theorem document_sweep_race:
  "\<exists>w0 w1 w2 w3. enumerated mem_live mem_members sample_document w0 \<and>
     classify_members memory_driver (Some memory_bulk) [''a''] (document_entry_key sample_document) w0
       = (Ok ([], [''a'']), w1) \<and>
     document_create sample_document [1] (with_id ''a'' options_default) w1 = (Ok ''a'', w2) \<and>
     cleanup_stale memory_sets (document_index_key sample_document) [''a''] w2 = (Ok (), w3) \<and>
     mem_live w3 (document_entry_key sample_document ''a'') = Some [1] \<and>
     \<not> enumerated mem_live mem_members sample_document w3"
proof -
  let ?ik = "document_index_key sample_document" and ?ek = "document_entry_key sample_document"
  obtain w0 where w0: "mem_set_add ?ik [''a''] id_world_new = (Ok (), w0)" "mem_live w0 = mem_live id_world_new"
    using mem_set_add_eq by blast
  then have dead: "mem_live w0 k = None" for k by (simp add: id_world_new_def mem_live_def)
  then have "enumerated mem_live mem_members sample_document w0" by (simp add: enumerated_def)
  moreover have "classify_members memory_driver (Some memory_bulk) [''a''] ?ek w0 = (Ok ([], [''a'']), w0)"
    using mem.classify_steady [of "Some memory_bulk" "[''a'']" ?ek w0] dead by simp
  moreover obtain w2 where c: "document_create sample_document [1] (with_id ''a'' options_default) w0 = (Ok ''a'', w2)"
    "mem_live w2 = (mem_live w0)(?ek ''a'' \<mapsto> [1])"
    using sample_create_eq by blast
  moreover obtain w3 where "cleanup_stale memory_sets ?ik [''a''] w2 = (Ok (), w3)" "mem_live w3 = mem_live w2"
    "mem_members w3 = (mem_members w2)(?ik := mem_members w2 ?ik - set [''a''])"
    using mem.cleanup_steady by blast
  moreover from this c(2) have "mem_live w3 (?ek ''a'') = Some [1]" "''a'' \<notin> mem_members w3 ?ik" by simp_all
  then have "\<not> enumerated mem_live mem_members sample_document w3" by (auto simp: enumerated_def)
  ultimately show ?thesis by fastforce
qed

end
