(* ===== verification/Indexed.thy ===== *)
theory Indexed
  imports Document
begin

text \<open>
  Documents with secondary indexes: \<open>IndexedImpl\<close> of \<open>cache/src/strategies/indexed.rs\<close>.

  Every entry may be filed under \<open>field=value\<close> pairs. The membership set of a pair holds the
  identifiers filed under it; the inverse record of an identifier holds its pairs as strings, so
  that a later update or deletion can undo them. The lemmas speak of successful calls over any
  lawful backend: after a create the entry is found under its pairs, after an update under exactly
  the requested pairs, after a deletion (single or by group) under none.

  A \<open>HashMap\<close> is an association list in its iteration order.
\<close>

record 'w indexed =
  ix_document :: "'w document"
  ix_driver :: "'w driver"
  ix_sets :: "'w sets option"
  ix_bulk :: "'w bulk option"
  ix_set_scanner :: "'w set_scanner option"
  ix_keyspace :: keyspace
  ix_concurrency :: nat

definition indexed_new_with_id :: "'w document_wiring \<Rightarrow> 'w indexed" where
  "indexed_new_with_id wiring =
     \<lparr>ix_document = document_new_indexed wiring, ix_driver = dw_driver wiring,
      ix_sets = dw_sets wiring, ix_bulk = dw_bulk wiring, ix_set_scanner = dw_set_scanner wiring,
      ix_keyspace = dw_keyspace wiring, ix_concurrency = max (dw_concurrency wiring) 1\<rparr>"

definition index_pair :: "string \<Rightarrow> string \<Rightarrow> string" where
  "index_pair field val = field @ ''='' @ val"

definition split_pair :: "string \<Rightarrow> string \<times> string" where
  "split_pair p = (case split_once (CHR ''='') p of Some parts \<Rightarrow> parts | None \<Rightarrow> (p, ''''))"

definition indexed_file ::
  "'w indexed \<Rightarrow> 'w sets \<Rightarrow> string \<Rightarrow> (string \<times> string) list \<Rightarrow> ('w, unit) io" where
  "indexed_file ix sts i indexes =
     (if indexes = [] then io_ret ()
      else io_bind
        (io_each (\<lambda>(field, val). sts_add sts (idx_by_field (ix_keyspace ix) field val) [i]) indexes)
        (\<lambda>_. sts_add sts (idx_fields (ix_keyspace ix) i)
                (map (\<lambda>(field, val). index_pair field val) indexes)))"

text \<open>The membership set a recorded pair names, and removing an identifier from it.\<close>

definition pair_key :: "keyspace \<Rightarrow> string \<Rightarrow> string" where
  "pair_key ks p = (let (field, val) = split_pair p in idx_by_field ks field val)"

definition remove_membership :: "'w indexed \<Rightarrow> 'w sets \<Rightarrow> string \<Rightarrow> string \<Rightarrow> ('w, unit) io" where
  "remove_membership ix sts i p = sts_remove sts (pair_key (ix_keyspace ix) p) [i]"

definition indexed_refile ::
  "'w indexed \<Rightarrow> 'w sets \<Rightarrow> string \<Rightarrow> (string \<times> string) list \<Rightarrow> ('w, unit) io" where
  "indexed_refile ix sts i indexes =
     (let wanted = map (\<lambda>(field, val). index_pair field val) indexes;
          fields_key = idx_fields (ix_keyspace ix) i
      in io_bind (sts_members sts fields_key) (\<lambda>previous.
           let dropped = filter (\<lambda>p. p \<notin> set wanted) previous
           in io_bind (io_each (remove_membership ix sts i) dropped) (\<lambda>_.
              io_bind (if dropped \<noteq> [] then io_ignore (sts_remove sts fields_key dropped) else io_ret ())
                (\<lambda>_. indexed_file ix sts i indexes))))"

definition indexed_unfile :: "'w indexed \<Rightarrow> 'w sets \<Rightarrow> string \<Rightarrow> ('w, unit) io" where
  "indexed_unfile ix sts i =
     (let fields_key = idx_fields (ix_keyspace ix) i
      in io_bind (sts_members sts fields_key) (\<lambda>previous.
         io_bind (io_each (remove_membership ix sts i) previous) (\<lambda>_.
           sts_remove sts fields_key previous)))"

definition ids_by_index :: "'w indexed \<Rightarrow> string \<Rightarrow> string \<Rightarrow> ('w, string list) io" where
  "ids_by_index ix field val =
     (case ix_sets ix of
        None \<Rightarrow> io_fail Unsupported
      | Some sts \<Rightarrow>
          live_members (ix_driver ix) (ix_bulk ix) sts (ix_set_scanner ix)
            (idx_by_field (ix_keyspace ix) field val) (idx_entry (ix_keyspace ix)))"

definition by_index :: "'w indexed \<Rightarrow> string \<Rightarrow> string \<Rightarrow> ('w, bytes list) io" where
  "by_index ix field val =
     io_bind (ids_by_index ix field val) (\<lambda>ids.
       get_all (ix_driver ix) (ix_bulk ix) (map (idx_entry (ix_keyspace ix)) ids))"

text \<open>\<open>removals.entry(index_key).or_default().push(id.clone())\<close>\<close>

fun removal_push :: "string \<Rightarrow> string \<Rightarrow> (string \<times> string list) list \<Rightarrow> (string \<times> string list) list" where
  "removal_push key i [] = [(key, [i])]"
| "removal_push key i ((k, ids) # rest) =
     (if key = k then (k, ids @ [i]) # rest else (k, ids) # removal_push key i rest)"

definition group_removals ::
  "keyspace \<Rightarrow> (string \<times> string list) list \<Rightarrow> (string \<times> string list) list" where
  "group_removals ks records =
     fold (\<lambda>(i, fields). fold (\<lambda>p. removal_push (pair_key ks p) i) fields) records []"

definition delete_by_index :: "'w indexed \<Rightarrow> string \<Rightarrow> string \<Rightarrow> ('w, nat) io" where
  "delete_by_index ix field val =
     io_bind (ids_by_index ix field val) (\<lambda>ids.
       if ids = [] then io_ret 0
       else case ix_sets ix of
         None \<Rightarrow> io_fail Unsupported
       | Some sts \<Rightarrow>
           io_bind (io_collect (\<lambda>i. io_bind (sts_members sts (idx_fields (ix_keyspace ix) i))
                                      (\<lambda>fields. io_ret (i, fields))) ids) (\<lambda>records.
           io_bind (io_each (\<lambda>(index_key, members). sts_remove sts index_key members)
                      (group_removals (ix_keyspace ix) records)) (\<lambda>_.
           io_bind (sts_remove sts (idx_index (ix_keyspace ix)) ids) (\<lambda>_.
           io_bind (io_each (\<lambda>(i, fields). sts_remove sts (idx_fields (ix_keyspace ix) i) fields) records) (\<lambda>_.
           io_bind (drv_delete (ix_driver ix) (map (idx_entry (ix_keyspace ix)) ids)) (\<lambda>_.
           io_ret (length ids)))))))"

text \<open>\<open>opts.indexes.as_ref().filter(|indexes| !indexes.is_empty())\<close>\<close>

definition wanted_indexes :: "options \<Rightarrow> (string \<times> string) list option" where
  "wanted_indexes opts =
     (case opt_indexes opts of
        Some indexes \<Rightarrow> if indexes \<noteq> [] then Some indexes else None
      | None \<Rightarrow> None)"

definition indexed_create :: "'w indexed \<Rightarrow> bytes \<Rightarrow> options \<Rightarrow> ('w, string) io" where
  "indexed_create ix v opts =
     io_bind (io_lift (document_resolve_ttl (ix_document ix) opts)) (\<lambda>_.
     io_bind (document_resolve_id (ix_document ix) opts) (\<lambda>i.
     io_bind (case wanted_indexes opts of
                Some indexes \<Rightarrow>
                  (case ix_sets ix of
                     None \<Rightarrow> io_fail Unsupported
                   | Some sts \<Rightarrow> indexed_file ix sts i indexes)
              | None \<Rightarrow> io_ret ()) (\<lambda>_.
     document_create (ix_document ix) v (opts\<lparr>opt_id := Some i\<rparr>))))"

definition indexed_get :: "'w indexed \<Rightarrow> string \<Rightarrow> ('w, bytes) io" where
  "indexed_get ix i = document_get (ix_document ix) i"

definition indexed_update :: "'w indexed \<Rightarrow> string \<Rightarrow> bytes \<Rightarrow> options \<Rightarrow> ('w, unit) io" where
  "indexed_update ix i v opts =
     (case wanted_indexes opts of
        Some indexes \<Rightarrow>
          (case ix_sets ix of
             None \<Rightarrow> io_fail Unsupported
           | Some sts \<Rightarrow>
               io_bind (document_update (ix_document ix) i v opts) (\<lambda>_. indexed_refile ix sts i indexes))
      | None \<Rightarrow> document_update (ix_document ix) i v opts)"

definition indexed_delete :: "'w indexed \<Rightarrow> string \<Rightarrow> ('w, unit) io" where
  "indexed_delete ix i =
     io_bind (case ix_sets ix of Some sts \<Rightarrow> indexed_unfile ix sts i | None \<Rightarrow> io_ret ())
       (\<lambda>_. document_delete (ix_document ix) i)"

definition indexed_keys :: "'w indexed \<Rightarrow> ('w, string list) io" where
  "indexed_keys ix = document_keys (ix_document ix)"

definition indexed_list :: "'w indexed \<Rightarrow> ('w, bytes list) io" where
  "indexed_list ix = document_list (ix_document ix)"

definition indexed_ttl :: "'w indexed \<Rightarrow> string \<Rightarrow> ('w, nat) io" where
  "indexed_ttl ix i = document_ttl (ix_document ix) i"

subsection \<open>Pairs, keys and grouped removals\<close>

lemma split_index_pair [simp]: "CHR ''='' \<notin> set f \<Longrightarrow> split_pair (index_pair f v) = (f, v)"
  by (simp add: split_pair_def index_pair_def split_once_append)

definition good_field :: "string \<Rightarrow> bool" where
  "good_field f \<longleftrightarrow> CHR '':'' \<notin> set f \<and> CHR ''='' \<notin> set f"

lemma index_pair_inject: "good_field f \<Longrightarrow> good_field g \<Longrightarrow> index_pair f v = index_pair g u \<longleftrightarrow> f = g \<and> v = u"
  by (metis good_field_def prod.inject split_index_pair)

lemma idx_by_field_inject:
  "good_field f \<Longrightarrow> good_field g \<Longrightarrow> idx_by_field ks f v = idx_by_field ks g u \<longleftrightarrow> f = g \<and> v = u"
  by (simp add: good_field_def qualify_field_inject)

lemma idx_keys_apart [simp]:
  "idx_by_field ks f v \<noteq> idx_fields ks i" "idx_by_field ks f v \<noteq> idx_index ks"
  "idx_by_field ks f v \<noteq> idx_entry ks i" "idx_fields ks i \<noteq> idx_index ks"
  "idx_fields ks i \<noteq> idx_entry ks j" "idx_index ks \<noteq> idx_entry ks i"
  "idx_fields ks i \<noteq> idx_by_field ks f v" "idx_index ks \<noteq> idx_fields ks i"
  "idx_index ks \<noteq> idx_by_field ks f v"
  by (simp_all add: key_simps)

lemma idx_fields_inject [simp]: "idx_fields ks i = idx_fields ks j \<longleftrightarrow> i = j"
  by (simp add: key_simps)

lemma removal_push_set:
  "{(k, i). \<exists>ids. (k, ids) \<in> set (removal_push key j rs) \<and> i \<in> set ids} =
     insert (key, j) {(k, i). \<exists>ids. (k, ids) \<in> set rs \<and> i \<in> set ids}"
  by (induction key j rs rule: removal_push.induct) auto

definition removal_rel :: "(string \<times> string list) list \<Rightarrow> (string \<times> string) set" where
  "removal_rel rs = {(k, i). \<exists>ids. (k, ids) \<in> set rs \<and> i \<in> set ids}"

lemma removal_rel_push: "removal_rel (removal_push key j rs) = insert (key, j) (removal_rel rs)"
  unfolding removal_rel_def by (rule removal_push_set)

lemma removal_rel_fields:
  "removal_rel (fold (\<lambda>p. removal_push (pair_key ks p) i) fs rs) =
     removal_rel rs \<union> (\<lambda>p. (pair_key ks p, i)) ` set fs"
  by (induction fs arbitrary: rs) (auto simp: removal_rel_push)

text \<open>Grouping loses and adds nothing: a group names exactly the recorded pairs.\<close>

lemma removal_rel_group:
  "removal_rel (group_removals ks records) =
     {(pair_key ks p, i) | p i. \<exists>fs. (i, fs) \<in> set records \<and> p \<in> set fs}"
proof -
  let ?step = "\<lambda>(i, fields). fold (\<lambda>p. removal_push (pair_key ks p) i) fields"
  have "removal_rel (fold ?step records rs) = removal_rel rs \<union>
     {(pair_key ks p, i) | p i. \<exists>fs. (i, fs) \<in> set records \<and> p \<in> set fs}" for rs
  proof (induction records arbitrary: rs)
    case (Cons r records)
    obtain i fs where r: "r = (i, fs)" by fastforce
    show ?case
      using Cons.IH [of "?step r rs"] removal_rel_fields [of ks i fs rs] by (auto simp: r)
  qed auto
  then show ?thesis by (simp add: group_removals_def removal_rel_def)
qed

lemma pair_key_pair [simp]: "good_field f \<Longrightarrow> pair_key ks (index_pair f v) = idx_by_field ks f v"
  by (simp add: pair_key_def good_field_def)

lemma pair_key_apart [simp]:
  "pair_key ks p \<noteq> idx_fields ks i" "pair_key ks p \<noteq> idx_index ks" "pair_key ks p \<noteq> idx_entry ks i"
  "idx_fields ks i \<noteq> pair_key ks p" "idx_index ks \<noteq> pair_key ks p"
  by (simp_all add: pair_key_def split: prod.splits)

subsection \<open>Loops of set updates\<close>

context set_store
begin

lemma each_add:
  "io_each (\<lambda>x. sts_add sts (g x) [i]) xs w = (Ok u, w') \<Longrightarrow>
     mem w' k = mem w k \<union> (if k \<in> g ` set xs then {i} else {})"
proof (induction xs arbitrary: w)
  case Nil
  then show ?case by (simp add: io_ret_def)
next
  case (Cons x xs)
  then obtain w1 where s: "sts_add sts (g x) [i] w = (Ok (), w1)"
    "io_each (\<lambda>x. sts_add sts (g x) [i]) xs w1 = (Ok u, w')"
    by (auto simp: io_bind_Ok)
  have "mem w1 k = mem w k \<union> (if k = g x then {i} else {})"
    using add_Ok [OF s(1)] add_other [OF s(1), of k] by auto
  with Cons.IH [OF s(2)] show ?case by auto
qed

lemma each_remove:
  "io_each (\<lambda>x. sts_remove sts (g x) (h x)) xs w = (Ok u, w') \<Longrightarrow>
     mem w' k = mem w k - {i. \<exists>x\<in>set xs. g x = k \<and> i \<in> set (h x)}"
proof (induction xs arbitrary: w)
  case Nil
  then show ?case by (simp add: io_ret_def)
next
  case (Cons x xs)
  then obtain w1 where s: "sts_remove sts (g x) (h x) w = (Ok (), w1)"
    "io_each (\<lambda>x. sts_remove sts (g x) (h x)) xs w1 = (Ok u, w')"
    by (auto simp: io_bind_Ok)
  have "mem w1 k = mem w k - (if k = g x then set (h x) else {})"
    using remove_Ok [OF s(1)] remove_other [OF s(1), of k] by auto
  with Cons.IH [OF s(2)] show ?case by auto
qed

lemma remove_memberships:
  assumes "io_each (remove_membership ix sts i) ps w = (Ok u, w')"
  shows "mem w' k = mem w k - (if k \<in> pair_key (ix_keyspace ix) ` set ps then {i} else {})"
proof -
  have "remove_membership ix sts i = (\<lambda>p. sts_remove sts (pair_key (ix_keyspace ix) p) [i])"
    by (simp add: remove_membership_def fun_eq_iff)
  with assms each_remove [of _ "\<lambda>_. [i]" ps w u w' k] show ?thesis by auto
qed

lemma file_spec:
  assumes "indexed_file ix sts i indexes w = (Ok u, w')"
  shows "mem w' k = mem w k \<union> (if k \<in> (\<lambda>(f, v). idx_by_field (ix_keyspace ix) f v) ` set indexes then {i} else {})
    \<union> (if k = idx_fields (ix_keyspace ix) i then (\<lambda>(f, v). index_pair f v) ` set indexes else {})"
proof (cases "indexes = []")
  case True
  with assms show ?thesis by (simp add: indexed_file_def io_ret_def)
next
  case False
  let ?by = "\<lambda>(f, v). idx_by_field (ix_keyspace ix) f v"
  have eq: "(\<lambda>(f, v). sts_add sts (idx_by_field (ix_keyspace ix) f v) [i]) = (\<lambda>x. sts_add sts (?by x) [i])"
    by auto
  from assms False obtain w1 where s: "io_each (\<lambda>x. sts_add sts (?by x) [i]) indexes w = (Ok (), w1)"
    "sts_add sts (idx_fields (ix_keyspace ix) i) (map (\<lambda>(f, v). index_pair f v) indexes) w1 = (Ok u, w')"
    by (auto simp: indexed_file_def io_bind_Ok eq)
  have "mem w1 k = mem w k \<union> (if k \<in> ?by ` set indexes then {i} else {})"
    by (rule each_add [OF s(1)])
  moreover have "mem w' k = mem w1 k \<union> (if k = idx_fields (ix_keyspace ix) i
      then (\<lambda>(f, v). index_pair f v) ` set indexes else {})"
    using add_Ok [OF s(2)] add_other [OF s(2), of k] by auto
  ultimately show ?thesis by simp
qed

end

subsection \<open>The abstract index\<close>

text \<open>
  The pairs each identifier is filed under, and the invariant that ties the membership sets to the
  inverse records: a record holds well-formed pairs only, and every membership is recorded (a
  sweep may remove a membership whose entry expired, so the converse does not hold).
\<close>

definition filed :: "keyspace \<Rightarrow> ('w \<Rightarrow> string \<Rightarrow> string set) \<Rightarrow> 'w \<Rightarrow> string \<Rightarrow> (string \<times> string) set" where
  "filed ks mem w i = {(f, v). good_field f \<and> i \<in> mem w (idx_by_field ks f v)}"

definition recorded :: "keyspace \<Rightarrow> ('w \<Rightarrow> string \<Rightarrow> string set) \<Rightarrow> 'w \<Rightarrow> bool" where
  "recorded ks mem w \<longleftrightarrow>
     (\<forall>i. \<forall>p \<in> mem w (idx_fields ks i). \<exists>f v. good_field f \<and> p = index_pair f v) \<and>
     (\<forall>i f v. (f, v) \<in> filed ks mem w i \<longrightarrow> index_pair f v \<in> mem w (idx_fields ks i))"

lemma filing_cong:
  assumes "\<And>f v. mem w' (idx_by_field ks f v) = mem w (idx_by_field ks f v)"
    and "\<And>i. mem w' (idx_fields ks i) = mem w (idx_fields ks i)"
  shows "filed ks mem w' = filed ks mem w" "recorded ks mem w' = recorded ks mem w"
proof -
  show f: "filed ks mem w' = filed ks mem w" by (simp add: filed_def fun_eq_iff assms(1))
  show "recorded ks mem w' = recorded ks mem w" by (simp add: recorded_def f assms(2))
qed

definition good_indexes :: "(string \<times> string) list \<Rightarrow> bool" where
  "good_indexes indexes \<longleftrightarrow> (\<forall>(f, v) \<in> set indexes. good_field f)"

context set_store
begin

lemma file_filed:
  assumes "indexed_file ix sts i indexes w = (Ok u, w')" "good_indexes indexes"
  shows "filed (ix_keyspace ix) mem w' = (filed (ix_keyspace ix) mem w)
    (i := filed (ix_keyspace ix) mem w i \<union> set indexes)"
proof -
  have key: "idx_by_field (ix_keyspace ix) f v \<in> (\<lambda>(f, v). idx_by_field (ix_keyspace ix) f v) ` set indexes
      \<longleftrightarrow> (f, v) \<in> set indexes" if "good_field f" for f v
    using assms(2) that idx_by_field_inject by (fastforce simp: good_indexes_def image_iff)
  have "(f, v) \<in> filed (ix_keyspace ix) mem w' j \<longleftrightarrow>
      (f, v) \<in> filed (ix_keyspace ix) mem w j \<or> j = i \<and> (f, v) \<in> set indexes" for f v j
  proof (cases "good_field f")
    case True
    have "mem w' (idx_by_field (ix_keyspace ix) f v) =
        mem w (idx_by_field (ix_keyspace ix) f v) \<union> (if (f, v) \<in> set indexes then {i} else {})"
      using file_spec [OF assms(1), of "idx_by_field (ix_keyspace ix) f v"] unfolding key [OF True] by simp
    with True show ?thesis by (simp add: filed_def)
  qed (use assms(2) in \<open>auto simp: filed_def good_indexes_def\<close>)
  then show ?thesis by (auto simp: fun_eq_iff)
qed

lemma file_recorded:
  assumes "indexed_file ix sts i indexes w = (Ok u, w')" "good_indexes indexes"
    and "recorded (ix_keyspace ix) mem w"
  shows "recorded (ix_keyspace ix) mem w'"
proof -
  have rec: "mem w' (idx_fields (ix_keyspace ix) j) = mem w (idx_fields (ix_keyspace ix) j) \<union>
      (if j = i then (\<lambda>(f, v). index_pair f v) ` set indexes else {})" for j
    using file_spec [OF assms(1), of "idx_fields (ix_keyspace ix) j"] by auto
  show ?thesis
    using assms(2,3) unfolding recorded_def file_filed [OF assms(1,2)] rec good_indexes_def
    by (auto split: if_splits)
qed

text \<open>Removing the memberships of some recorded pairs of one identifier.\<close>

lemma remove_filed:
  assumes "io_each (remove_membership ix sts i) ps w = (Ok u, w')"
    and "recorded (ix_keyspace ix) mem w" "set ps \<subseteq> mem w (idx_fields (ix_keyspace ix) i)"
  shows "filed (ix_keyspace ix) mem w' = (filed (ix_keyspace ix) mem w)
      (i := {(f, v) \<in> filed (ix_keyspace ix) mem w i. index_pair f v \<notin> set ps})"
    "mem w' (idx_fields (ix_keyspace ix) j) = mem w (idx_fields (ix_keyspace ix) j)"
proof -
  let ?ks = "ix_keyspace ix"
  have "idx_by_field ?ks f v \<in> pair_key ?ks ` set ps \<longleftrightarrow> index_pair f v \<in> set ps" if g: "good_field f" for f v
  proof
    assume "idx_by_field ?ks f v \<in> pair_key ?ks ` set ps"
    then obtain p where p: "p \<in> set ps" "idx_by_field ?ks f v = pair_key ?ks p" by auto
    with assms(2,3) obtain f' v' where "good_field f'" "p = index_pair f' v'"
      unfolding recorded_def by blast
    with p g show "index_pair f v \<in> set ps" using idx_by_field_inject by simp
  qed (use g in \<open>force simp: image_iff\<close>)
  then have "(f, v) \<in> filed ?ks mem w' j \<longleftrightarrow>
      (f, v) \<in> filed ?ks mem w j \<and> \<not> (j = i \<and> index_pair f v \<in> set ps)" for f v j
    using remove_memberships [OF assms(1), of "idx_by_field ?ks f v"] by (auto simp: filed_def)
  then show "filed ?ks mem w' = (filed ?ks mem w) (i := {(f, v) \<in> filed ?ks mem w i. index_pair f v \<notin> set ps})"
    by (auto simp: fun_eq_iff)
  show "mem w' (idx_fields ?ks j) = mem w (idx_fields ?ks j)"
    using remove_memberships [OF assms(1), of "idx_fields ?ks j"] by (auto simp: image_iff)
qed

text \<open>Pruning the inverse record of one identifier by pairs it is no longer filed under.\<close>

lemma prune_recorded:
  assumes "sts_remove sts (idx_fields ks i) ps w = (r, w')"
    and "\<And>j. j \<noteq> i \<Longrightarrow> mem w (idx_fields ks j) = mem w0 (idx_fields ks j) \<and> filed ks mem w j = filed ks mem w0 j"
    and "mem w (idx_fields ks i) = mem w0 (idx_fields ks i)"
    and "filed ks mem w i = {(f, v) \<in> filed ks mem w0 i. index_pair f v \<notin> set ps}"
    and "recorded ks mem w0"
  shows "recorded ks mem w' \<and> filed ks mem w' = filed ks mem w"
proof -
  have other: "mem w' (idx_by_field ks f v) = mem w (idx_by_field ks f v)" for f v
    by (rule remove_other [OF assms(1)]) simp
  then have f: "filed ks mem w' = filed ks mem w" by (simp add: filed_def fun_eq_iff)
  have r: "mem w' (idx_fields ks j) = mem w0 (idx_fields ks j)" if "j \<noteq> i" for j
    using remove_other [OF assms(1), of "idx_fields ks j"] assms(2) [OF that] that by simp
  have ri: "mem w0 (idx_fields ks i) - set ps \<subseteq> mem w' (idx_fields ks i)"
    "mem w' (idx_fields ks i) \<subseteq> mem w0 (idx_fields ks i)"
    using remove_between [OF assms(1)] assms(3) by simp_all
  have "index_pair g v \<in> mem w' (idx_fields ks j)" if "(g, v) \<in> filed ks mem w' j" for g v j
  proof (cases "j = i")
    case True
    with that assms(4,5) ri(1) show ?thesis by (auto simp: f recorded_def)
  next
    case False
    with that assms(2) [OF False] assms(5) r [OF False] show ?thesis by (auto simp: f recorded_def)
  qed
  moreover have "\<exists>g v. good_field g \<and> p = index_pair g v" if "p \<in> mem w' (idx_fields ks j)" for p j
    using that assms(5) r [of j] ri(2) unfolding recorded_def by (cases "j = i") blast+
  ultimately show ?thesis by (simp add: f recorded_def)
qed

end

subsection \<open>The strategy over any lawful backend\<close>

context document_backend
begin

lemma create_mem:
  assumes "document_create d v opts w = (Ok i, w')" "k \<noteq> document_index_key d" "k \<noteq> document_entry_key d i"
  shows "mem w' k = mem w k"
proof -
  from assms(1) obtain ttl w1 w2 where s: "document_resolve_id d opts w = (Ok i, w1)"
    "sts_add sts (document_index_key d) [i] w1 = (Ok (), w2)"
    "drv_set (dw_driver d) (document_entry_key d i) v ttl w2 = (Ok (), w')"
    by (auto simp: document_create_def wired_sets io_bind_Ok io_ret_def)
  show ?thesis
    using resolve_id_calm [OF s(1)] add_other [OF s(2) assms(2)] set_mem [OF s(3) assms(3)]
    by (simp add: calm_def)
qed

lemma update_mem:
  assumes "document_update d i v opts w = (Ok u, w')" "k \<noteq> document_entry_key d i"
  shows "mem w' k = mem w k"
  using assms replace_mem
  by (auto simp: document_update_def io_bind_Ok io_ret_def io_fail_def split: if_splits)

lemma delete_spec:
  assumes "document_delete d i w = (Ok u, w')"
  shows "live w' (document_entry_key d i) = None" "i \<notin> mem w' (document_index_key d)"
    "k \<noteq> document_index_key d \<Longrightarrow> k \<noteq> document_entry_key d i \<Longrightarrow> mem w' k = mem w k"
proof -
  from assms obtain w1 where s: "drv_delete (dw_driver d) [document_entry_key d i] w = (Ok (), w1)"
    "sts_remove sts (document_index_key d) [i] w1 = (Ok (), w')"
    by (auto simp: document_delete_def wired_sets io_bind_Ok io_ret_def)
  show "live w' (document_entry_key d i) = None"
    using delete_Ok [OF s(1)] outside_dead [OF remove_live [OF s(2)]] by simp
  show "i \<notin> mem w' (document_index_key d)" using remove_Ok [OF s(2)] by simp
  show "k \<noteq> document_index_key d \<Longrightarrow> k \<noteq> document_entry_key d i \<Longrightarrow> mem w' k = mem w k"
    using remove_other [OF s(2), of k] delete_mem [OF s(1), of k] by simp
qed

end

locale indexed_backend = document_backend "document_new_indexed wiring" live sts mem
  for wiring :: "'w document_wiring" and live and sts :: "'w sets" and mem
begin

lemma indexed_fields [simp]:
  "ix_document (indexed_new_with_id wiring) = document_new_indexed wiring"
  "ix_driver (indexed_new_with_id wiring) = dw_driver (document_new_indexed wiring)"
  "ix_bulk (indexed_new_with_id wiring) = dw_bulk (document_new_indexed wiring)"
  "ix_set_scanner (indexed_new_with_id wiring) = dw_set_scanner (document_new_indexed wiring)"
  "ix_sets (indexed_new_with_id wiring) = Some sts"
  "ix_keyspace (indexed_new_with_id wiring) = dw_keyspace wiring"
  "document_entry_key (document_new_indexed wiring) = idx_entry (dw_keyspace wiring)"
  "document_index_key (document_new_indexed wiring) = idx_index (dw_keyspace wiring)"
  using wired_sets
  by (simp_all add: indexed_new_with_id_def document_new_indexed_def with_layout_def
      document_entry_key_def document_index_key_def fun_eq_iff)

lemma create_run:
  assumes "indexed_create (indexed_new_with_id wiring) v opts w = (Ok i, w')"
    and "opt_indexes opts = Some indexes"
  obtains w1 w2 where "mem w1 = mem w" "indexed_file (indexed_new_with_id wiring) sts i indexes w1 = (Ok (), w2)"
    "document_create (document_new_indexed wiring) v (opts\<lparr>opt_id := Some i\<rparr>) w2 = (Ok i, w')"
proof -
  let ?d = "document_new_indexed wiring" and ?ix = "indexed_new_with_id wiring"
  have filing: "(case wanted_indexes opts of Some m \<Rightarrow> indexed_file ?ix sts j m | None \<Rightarrow> io_ret ()) =
      indexed_file ?ix sts j indexes" for j
    using assms(2) by (simp add: wanted_indexes_def indexed_file_def)
  from assms(1) obtain j w1 w2 where s: "document_resolve_id ?d opts w = (Ok j, w1)"
    "indexed_file ?ix sts j indexes w1 = (Ok (), w2)"
    "document_create ?d v (opts\<lparr>opt_id := Some j\<rparr>) w2 = (Ok i, w')"
    by (auto simp: indexed_create_def io_bind_Ok filing cong: option.case_cong)
  have "j = i" using create_stores(3) [OF s(3)] by simp
  moreover have "mem w1 = mem w" using resolve_id_calm [OF s(1)] by (simp add: calm_def)
  ultimately show thesis using that s by blast
qed

text \<open>Every set after a create, also for field names that hold a separator.\<close>

lemma create_sets:
  assumes "indexed_create (indexed_new_with_id wiring) v opts w = (Ok i, w')"
    and "opt_indexes opts = Some indexes"
  shows "mem w' (idx_by_field (dw_keyspace wiring) f u) = mem w (idx_by_field (dw_keyspace wiring) f u) \<union>
      (if idx_by_field (dw_keyspace wiring) f u \<in> (\<lambda>(f, v). idx_by_field (dw_keyspace wiring) f v) ` set indexes
       then {i} else {})"
    "mem w' (idx_fields (dw_keyspace wiring) j) = mem w (idx_fields (dw_keyspace wiring) j) \<union>
      (if j = i then (\<lambda>(f, v). index_pair f v) ` set indexes else {})"
proof -
  obtain w1 w2 where s: "mem w1 = mem w" "indexed_file (indexed_new_with_id wiring) sts i indexes w1 = (Ok (), w2)"
    "document_create (document_new_indexed wiring) v (opts\<lparr>opt_id := Some i\<rparr>) w2 = (Ok i, w')"
    using create_run [OF assms] .
  show "mem w' (idx_by_field (dw_keyspace wiring) f u) = mem w (idx_by_field (dw_keyspace wiring) f u) \<union>
      (if idx_by_field (dw_keyspace wiring) f u \<in> (\<lambda>(f, v). idx_by_field (dw_keyspace wiring) f v) ` set indexes
       then {i} else {})"
    using file_spec [OF s(2), of "idx_by_field (dw_keyspace wiring) f u"] s(1)
      create_mem [OF s(3), of "idx_by_field (dw_keyspace wiring) f u"] by simp
  show "mem w' (idx_fields (dw_keyspace wiring) j) = mem w (idx_fields (dw_keyspace wiring) j) \<union>
      (if j = i then (\<lambda>(f, v). index_pair f v) ` set indexes else {})"
    using file_spec [OF s(2), of "idx_fields (dw_keyspace wiring) j"] s(1)
      create_mem [OF s(3), of "idx_fields (dw_keyspace wiring) j"] by auto
qed

lemma create_filed:
  assumes "indexed_create (indexed_new_with_id wiring) v opts w = (Ok i, w')"
    and "opt_indexes opts = Some indexes" "good_indexes indexes"
    and "recorded (dw_keyspace wiring) mem w"
  shows "recorded (dw_keyspace wiring) mem w'"
    "filed (dw_keyspace wiring) mem w' =
       (filed (dw_keyspace wiring) mem w)(i := filed (dw_keyspace wiring) mem w i \<union> set indexes)"
    "live w' (idx_entry (dw_keyspace wiring) i) = Some v"
    "i \<in> mem w' (idx_index (dw_keyspace wiring))"
proof -
  let ?ks = "dw_keyspace wiring"
  obtain w1 w2 where s: "mem w1 = mem w" "indexed_file (indexed_new_with_id wiring) sts i indexes w1 = (Ok (), w2)"
    "document_create (document_new_indexed wiring) v (opts\<lparr>opt_id := Some i\<rparr>) w2 = (Ok i, w')"
    using create_run [OF assms(1,2)] .
  have m: "mem w' (idx_by_field ?ks f u) = mem w2 (idx_by_field ?ks f u)"
    "mem w' (idx_fields ?ks l) = mem w2 (idx_fields ?ks l)" for f u l
    using create_mem [OF s(3)] by simp_all
  note cong = filing_cong [of mem w' ?ks w2, OF m]
  have c1: "filed ?ks mem w1 = filed ?ks mem w" "recorded ?ks mem w1 = recorded ?ks mem w"
    using filing_cong [of mem w1 ?ks w] s(1) by simp_all
  show "recorded ?ks mem w'" using file_recorded [OF s(2) assms(3)] c1(2) assms(4) cong(2) by simp
  show "filed ?ks mem w' = (filed ?ks mem w)(i := filed ?ks mem w i \<union> set indexes)"
    using file_filed [OF s(2) assms(3)] c1(1) cong(1) by simp
  show "live w' (idx_entry ?ks i) = Some v" using create_stores(1) [OF s(3)] by simp
  show "i \<in> mem w' (idx_index ?ks)" using create_stores(2) [OF s(3)] by simp
qed

lemma refile_filed:
  assumes "indexed_refile (indexed_new_with_id wiring) sts i indexes w = (Ok u, w')"
    and "good_indexes indexes" "recorded (dw_keyspace wiring) mem w"
  shows "recorded (dw_keyspace wiring) mem w'"
    "filed (dw_keyspace wiring) mem w' = (filed (dw_keyspace wiring) mem w)(i := set indexes)"
proof -
  let ?ks = "dw_keyspace wiring" and ?ix = "indexed_new_with_id wiring"
  let ?wanted = "map (\<lambda>(f, v). index_pair f v) indexes"
  define keep where "keep prev = filter (\<lambda>p. p \<notin> set ?wanted) prev" for prev :: "string list"
  from assms(1) [unfolded indexed_refile_def Let_def indexed_fields, folded keep_def]
  obtain prev w1 w2 w3 where s: "sts_members sts (idx_fields ?ks i) w = (Ok prev, w1)"
    "io_each (remove_membership ?ix sts i) (keep prev) w1 = (Ok (), w2)"
    "(if keep prev \<noteq> [] then io_ignore (sts_remove sts (idx_fields ?ks i) (keep prev)) else io_ret ()) w2 = (Ok (), w3)"
    "indexed_file ?ix sts i indexes w3 = (Ok u, w')"
    by (auto simp: io_bind_Ok)
  have m1: "mem w1 = mem w" by (rule members_frame [OF s(1)])
  have prev: "set prev = mem w (idx_fields ?ks i)" using members_Ok [OF s(1)] by simp
  have r1: "recorded ?ks mem w1" using assms(3) filing_cong [of mem w1 ?ks w] m1 by simp
  have f1: "filed ?ks mem w1 = filed ?ks mem w" using filing_cong [of mem w1 ?ks w] m1 by simp
  have sub: "set (keep prev) \<subseteq> mem w1 (idx_fields ?ks i)" using prev m1 by (auto simp: keep_def)
  note rm = remove_filed [OF s(2), unfolded indexed_fields, OF r1 sub]
  have gone: "index_pair f v \<notin> set (keep prev) \<longleftrightarrow> (f, v) \<in> set indexes"
    if "(f, v) \<in> filed ?ks mem w i" for f v
  proof -
    have "good_field f" "index_pair f v \<in> set prev"
      using that assms(3) prev by (auto simp: filed_def recorded_def)
    then show ?thesis
      using assms(2) index_pair_inject unfolding keep_def good_indexes_def by fastforce
  qed
  have "recorded ?ks mem w3 \<and> filed ?ks mem w3 = filed ?ks mem w2"
  proof (cases "keep prev = []")
    case True
    with s(3) have "w3 = w2" by (simp add: io_ret_def)
    moreover have "filed ?ks mem w2 = filed ?ks mem w1" using rm(1) True by auto
    ultimately show ?thesis using r1 rm(2) by (simp add: recorded_def)
  next
    case False
    with s(3) obtain q where q: "sts_remove sts (idx_fields ?ks i) (keep prev) w2 = (q, w3)"
      by (auto simp: io_ignore_def split: prod.splits rresult.splits)
    show ?thesis by (rule prune_recorded [OF q _ _ _ r1]) (simp_all add: rm)
  qed
  then have r3: "recorded ?ks mem w3" and f3: "filed ?ks mem w3 = filed ?ks mem w2" by simp_all
  show "recorded ?ks mem w'" using file_recorded [OF s(4) assms(2)] r3 by simp
  have "{(f, v) \<in> filed ?ks mem w i. index_pair f v \<notin> set (keep prev)} \<union> set indexes = set indexes"
    using gone by auto
  then show "filed ?ks mem w' = (filed ?ks mem w)(i := set indexes)"
    using file_filed [OF s(4) assms(2)] f3 rm(1) f1 by simp
qed

lemma unfile_filed:
  assumes "indexed_unfile (indexed_new_with_id wiring) sts i w = (Ok u, w')"
    and "recorded (dw_keyspace wiring) mem w"
  shows "recorded (dw_keyspace wiring) mem w'"
    "filed (dw_keyspace wiring) mem w' = (filed (dw_keyspace wiring) mem w)(i := {})"
proof -
  let ?ks = "dw_keyspace wiring" and ?ix = "indexed_new_with_id wiring"
  from assms(1) obtain prev w1 w2 where s: "sts_members sts (idx_fields ?ks i) w = (Ok prev, w1)"
    "io_each (remove_membership ?ix sts i) prev w1 = (Ok (), w2)"
    "sts_remove sts (idx_fields ?ks i) prev w2 = (Ok u, w')"
    by (auto simp: indexed_unfile_def Let_def io_bind_Ok)
  have m1: "mem w1 = mem w" by (rule members_frame [OF s(1)])
  have prev: "set prev = mem w (idx_fields ?ks i)" using members_Ok [OF s(1)] by simp
  have r1: "recorded ?ks mem w1" and f1: "filed ?ks mem w1 = filed ?ks mem w"
    using assms(2) filing_cong [of mem w1 ?ks w] m1 by simp_all
  have sub: "set prev \<subseteq> mem w1 (idx_fields ?ks i)" using prev m1 by simp
  note rm = remove_filed [OF s(2), unfolded indexed_fields, OF r1 sub]
  have "(filed ?ks mem w)(i := {(f, v) \<in> filed ?ks mem w i. index_pair f v \<notin> set prev}) = (filed ?ks mem w)(i := {})"
    using assms(2) prev by (auto simp: recorded_def fun_eq_iff)
  moreover have "recorded ?ks mem w' \<and> filed ?ks mem w' = filed ?ks mem w2"
    by (rule prune_recorded [OF s(3) _ _ _ r1]) (simp_all add: rm)
  ultimately show "recorded ?ks mem w'" "filed ?ks mem w' = (filed ?ks mem w)(i := {})"
    using rm(1) f1 by simp_all
qed

lemma update_filed:
  assumes "indexed_update (indexed_new_with_id wiring) i v opts w = (Ok u, w')"
    and "opt_indexes opts = Some indexes" "indexes \<noteq> []" "good_indexes indexes"
    and "recorded (dw_keyspace wiring) mem w"
  shows "recorded (dw_keyspace wiring) mem w'"
    "filed (dw_keyspace wiring) mem w' = (filed (dw_keyspace wiring) mem w)(i := set indexes)"
proof -
  let ?ks = "dw_keyspace wiring"
  from assms(1-3) obtain w1 where s: "document_update (document_new_indexed wiring) i v opts w = (Ok (), w1)"
    "indexed_refile (indexed_new_with_id wiring) sts i indexes w1 = (Ok u, w')"
    by (auto simp: indexed_update_def wanted_indexes_def io_bind_Ok)
  have "mem w1 (idx_by_field ?ks f u) = mem w (idx_by_field ?ks f u)"
    "mem w1 (idx_fields ?ks l) = mem w (idx_fields ?ks l)" for f u l
    using update_mem [OF s(1)] by simp_all
  note cong = filing_cong [of mem w1 ?ks w, OF this]
  show "recorded ?ks mem w'" "filed ?ks mem w' = (filed ?ks mem w)(i := set indexes)"
    using refile_filed [OF s(2) assms(4)] assms(5) cong by simp_all
qed

lemma delete_filed:
  assumes "indexed_delete (indexed_new_with_id wiring) i w = (Ok u, w')"
    and "recorded (dw_keyspace wiring) mem w"
  shows "recorded (dw_keyspace wiring) mem w'"
    "filed (dw_keyspace wiring) mem w' = (filed (dw_keyspace wiring) mem w)(i := {})"
    "live w' (idx_entry (dw_keyspace wiring) i) = None"
    "i \<notin> mem w' (idx_index (dw_keyspace wiring))"
proof -
  let ?ks = "dw_keyspace wiring"
  from assms(1) obtain w1 where s: "indexed_unfile (indexed_new_with_id wiring) sts i w = (Ok (), w1)"
    "document_delete (document_new_indexed wiring) i w1 = (Ok u, w')"
    by (auto simp: indexed_delete_def io_bind_Ok)
  have "mem w' (idx_by_field ?ks f u) = mem w1 (idx_by_field ?ks f u)"
    "mem w' (idx_fields ?ks l) = mem w1 (idx_fields ?ks l)" for f u l
    using delete_spec(3) [OF s(2)] by simp_all
  note cong = filing_cong [of mem w' ?ks w1, OF this]
  show "recorded ?ks mem w'" "filed ?ks mem w' = (filed ?ks mem w)(i := {})"
    using unfile_filed [OF s(1) assms(2)] cong by simp_all
  show "live w' (idx_entry ?ks i) = None" "i \<notin> mem w' (idx_index ?ks)"
    using delete_spec(1,2) [OF s(2)] by simp_all
qed

lemma ids_by_index_spec:
  assumes "ids_by_index (indexed_new_with_id wiring) f v w = (r, w')"
  shows "swept live mem (idx_by_field (dw_keyspace wiring) f v) (idx_entry (dw_keyspace wiring)) w w'"
    "r = Ok ids \<Longrightarrow> listed live mem (idx_by_field (dw_keyspace wiring) f v) (idx_entry (dw_keyspace wiring)) w w' ids"
  using live_members_spec assms by (simp_all add: ids_by_index_def)

lemma swept_recorded:
  assumes "swept live mem (idx_by_field ks f v) ek w w'" "recorded ks mem w"
  shows "recorded ks mem w'"
proof -
  have fields: "mem w' (idx_fields ks i) = mem w (idx_fields ks i)" for i
    using assms(1) by (simp add: swept_def)
  have "mem w' (idx_by_field ks g u) \<subseteq> mem w (idx_by_field ks g u)" for g u
    using assms(1) by (cases "idx_by_field ks g u = idx_by_field ks f v") (auto simp: swept_def)
  then have "filed ks mem w' i \<subseteq> filed ks mem w i" for i by (auto simp: filed_def)
  with assms(2) show ?thesis unfolding recorded_def fields by blast
qed

lemma read_records:
  assumes "io_collect (\<lambda>i. io_bind (sts_members sts (g i)) (\<lambda>fs. io_ret (i, fs))) ids w = (Ok rs, w')"
  shows "mem w' = mem w" "map fst rs = ids" "\<forall>(i, fs) \<in> set rs. set fs = mem w (g i)"
    "outside {} (live w) (live w')"
proof -
  have "mem w' = mem w \<and> map fst rs = ids \<and> (\<forall>(i, fs) \<in> set rs. set fs = mem w (g i)) \<and>
      outside {} (live w) (live w')"
    using assms
  proof (induction ids arbitrary: w rs)
    case Nil
    then show ?case by (simp add: io_ret_def)
  next
    case (Cons i ids)
    then obtain fs w1 rs' where s: "sts_members sts (g i) w = (Ok fs, w1)" "rs = (i, fs) # rs'"
      "io_collect (\<lambda>i. io_bind (sts_members sts (g i)) (\<lambda>fs. io_ret (i, fs))) ids w1 = (Ok rs', w')"
      by (auto simp: io_bind_Ok)
    from Cons.IH [OF s(3)] members_frame [OF s(1)] members_Ok [OF s(1)] members_live [OF s(1)] s(2)
    show ?case by (auto intro: outside_trans)
  qed
  then show "mem w' = mem w" "map fst rs = ids" "\<forall>(i, fs) \<in> set rs. set fs = mem w (g i)"
    "outside {} (live w) (live w')" by simp_all
qed

lemma each_remove_live:
  assumes "io_each (\<lambda>x. sts_remove sts (g x) (h x)) xs w = (r, w')"
  shows "outside {} (live w) (live w')"
  by (rule io_each_invariant [where P = "\<lambda>w1. outside {} (live w) (live w1)", OF _ _ assms])
    (auto intro: outside_trans remove_live)

end

text \<open>The two passes over the records: the grouped memberships, then the records themselves.\<close>

definition records_of :: "keyspace \<Rightarrow> ('w \<Rightarrow> string \<Rightarrow> string set) \<Rightarrow> 'w \<Rightarrow> string list \<Rightarrow> (string \<times> string list) list \<Rightarrow> bool" where
  "records_of ks mem w ids rs \<longleftrightarrow> map fst rs = ids \<and> (\<forall>(i, fs) \<in> set rs. set fs = mem w (idx_fields ks i))"

lemma records_ofD:
  assumes "records_of ks mem w ids rs"
  shows "i \<in> set ids \<Longrightarrow> \<exists>fs. (i, fs) \<in> set rs"
    "(i, fs) \<in> set rs \<Longrightarrow> i \<in> set ids \<and> set fs = mem w (idx_fields ks i)"
  using assms by (force simp: records_of_def)+

context set_store
begin

lemma remove_groups:
  assumes "io_each (\<lambda>x. sts_remove sts (fst x) (snd x)) (group_removals ks rs) w = (Ok u, w')"
    and "records_of ks mem w ids rs"
  shows "mem w' k = mem w k - {i. i \<in> set ids \<and> (\<exists>p \<in> mem w (idx_fields ks i). k = pair_key ks p)}"
proof -
  have "mem w' k = mem w k - {i. (k, i) \<in> removal_rel (group_removals ks rs)}"
    unfolding each_remove [OF assms(1), of k] by (force simp: removal_rel_def)
  also have "{i. (k, i) \<in> removal_rel (group_removals ks rs)} =
      {i. i \<in> set ids \<and> (\<exists>p \<in> mem w (idx_fields ks i). k = pair_key ks p)}"
    unfolding removal_rel_group using records_ofD [OF assms(2)] by fastforce
  finally show ?thesis .
qed

lemma remove_records:
  assumes "io_each (\<lambda>x. sts_remove sts (idx_fields ks (fst x)) (snd x)) rs w = (Ok u, w')"
    and "records_of ks mem w ids rs"
  shows "mem w' (idx_fields ks i) = (if i \<in> set ids then {} else mem w (idx_fields ks i))"
    "(\<And>i. idx_fields ks i \<noteq> k) \<Longrightarrow> mem w' k = mem w k"
proof -
  have "{j. \<exists>x\<in>set rs. fst x = i \<and> j \<in> set (snd x)} = (if i \<in> set ids then mem w (idx_fields ks i) else {})"
    using records_ofD [OF assms(2), of i] by (auto; force)
  then show "mem w' (idx_fields ks i) = (if i \<in> set ids then {} else mem w (idx_fields ks i))"
    using each_remove [OF assms(1), of "idx_fields ks i"] by simp
  show "(\<And>i. idx_fields ks i \<noteq> k) \<Longrightarrow> mem w' k = mem w k"
    using each_remove [OF assms(1), of k] by simp
qed

end

context indexed_backend
begin

text \<open>The set updates of a group deletion, after the identifiers \<open>ids\<close> were listed in \<open>w1\<close>.\<close>

lemma delete_group_sets:
  assumes "recorded ks mem w1" "records_of ks mem w1 ids rs" "mem w2 = mem w1"
    and "io_each (\<lambda>x. sts_remove sts (fst x) (snd x)) (group_removals ks rs) w2 = (Ok (), w3)"
    and "sts_remove sts (idx_index ks) ids w3 = (Ok (), w4)"
    and "io_each (\<lambda>x. sts_remove sts (idx_fields ks (fst x)) (snd x)) rs w4 = (Ok (), w5)"
  shows "filed ks mem w5 i = (if i \<in> set ids then {} else filed ks mem w1 i)"
    "mem w5 (idx_fields ks i) = (if i \<in> set ids then {} else mem w1 (idx_fields ks i))"
    "mem w5 (idx_index ks) \<inter> set ids = {}"
proof -
  have ro2: "records_of ks mem w2 ids rs" using assms(2,3) by (simp add: records_of_def)
  note m3 = remove_groups [OF assms(4) ro2, unfolded assms(3)]
  have m4: "mem w4 k = mem w3 k" if "k \<noteq> idx_index ks" for k
    by (rule remove_other [OF assms(5) that])
  have f4: "mem w4 (idx_fields ks j) = mem w1 (idx_fields ks j)" for j
    using m4 [of "idx_fields ks j"] m3 [of "idx_fields ks j"] by simp
  then have ro4: "records_of ks mem w4 ids rs" using assms(2) by (simp add: records_of_def)
  note m5 = remove_records [OF assms(6) ro4]
  show "mem w5 (idx_fields ks i) = (if i \<in> set ids then {} else mem w1 (idx_fields ks i))"
    using m5(1) [of i] f4 by simp
  show "mem w5 (idx_index ks) \<inter> set ids = {}"
    using m5(2) [of "idx_index ks"] remove_Ok [OF assms(5)] by auto
  have left: "mem w5 (idx_by_field ks g u) = mem w1 (idx_by_field ks g u) -
      {i. i \<in> set ids \<and> (\<exists>p \<in> mem w1 (idx_fields ks i). idx_by_field ks g u = pair_key ks p)}" for g u
    using m5(2) [of "idx_by_field ks g u"] m4 [of "idx_by_field ks g u"] m3 [of "idx_by_field ks g u"] by simp
  have "\<exists>p \<in> mem w1 (idx_fields ks i). idx_by_field ks g u = pair_key ks p"
    if "(g, u) \<in> filed ks mem w1 i" for g u
    using that assms(1) by (force simp: recorded_def filed_def)
  with left show "filed ks mem w5 i = (if i \<in> set ids then {} else filed ks mem w1 i)"
    by (auto simp: filed_def)
qed

text \<open>Deleting a group: every member leaves every index, the enumeration and the store.\<close>

lemma delete_by_index_spec:
  assumes "delete_by_index (indexed_new_with_id wiring) f v w = (Ok n, w')"
    and "recorded (dw_keyspace wiring) mem w"
  shows "\<exists>ids w1. n = length ids \<and> recorded (dw_keyspace wiring) mem w' \<and>
    swept live mem (idx_by_field (dw_keyspace wiring) f v) (idx_entry (dw_keyspace wiring)) w w1 \<and>
    listed live mem (idx_by_field (dw_keyspace wiring) f v) (idx_entry (dw_keyspace wiring)) w w1 ids \<and>
    (\<forall>i. filed (dw_keyspace wiring) mem w' i =
       (if i \<in> set ids then {} else filed (dw_keyspace wiring) mem w1 i)) \<and>
    outside {} (live w1) (live w') \<and>
    (\<forall>i\<in>set ids. live w' (idx_entry (dw_keyspace wiring) i) = None \<and>
       i \<notin> mem w' (idx_index (dw_keyspace wiring)))"
proof -
  let ?ks = "dw_keyspace wiring" and ?ix = "indexed_new_with_id wiring"
  let ?member = "\<lambda>i. io_bind (sts_members sts (idx_fields ?ks i)) (\<lambda>fields. io_ret (i, fields))"
  obtain ids w1 where l: "ids_by_index ?ix f v w = (Ok ids, w1)"
    using assms(1) by (auto simp: delete_by_index_def io_bind_Ok)
  note sw = ids_by_index_spec(1) [OF l] and li = ids_by_index_spec(2) [OF l refl]
  have r1: "recorded ?ks mem w1" by (rule swept_recorded [OF sw assms(2)])
  show ?thesis
  proof (cases "ids = []")
    case True
    with l assms(1) have "n = 0" "w' = w1" by (auto simp: delete_by_index_def io_bind_Ok)
    with True r1 sw li show ?thesis by (intro exI [of _ ids] exI [of _ w1]) auto
  next
    case False
    with l assms(1) obtain rs w2 w3 w4 w5 where s: "io_collect ?member ids w1 = (Ok rs, w2)"
      "io_each (\<lambda>x. sts_remove sts (fst x) (snd x)) (group_removals ?ks rs) w2 = (Ok (), w3)"
      "sts_remove sts (idx_index ?ks) ids w3 = (Ok (), w4)"
      "io_each (\<lambda>x. sts_remove sts (idx_fields ?ks (fst x)) (snd x)) rs w4 = (Ok (), w5)"
      "drv_delete (dw_driver (document_new_indexed wiring)) (map (idx_entry ?ks) ids) w5 = (Ok (), w')"
      "n = length ids"
      by (auto simp: delete_by_index_def io_bind_Ok case_prod_beta')
    note rec = read_records [OF s(1)]
    have ro: "records_of ?ks mem w1 ids rs" using rec(2,3) by (simp add: records_of_def)
    note gs = delete_group_sets [OF r1 ro rec(1) s(2,3,4)]
    have m': "mem w' k = mem w5 k" if "k \<notin> idx_entry ?ks ` set ids" for k
      using delete_mem [OF s(5), of k] that by simp
    have m'b: "mem w' (idx_by_field ?ks g u) = mem w5 (idx_by_field ?ks g u)"
      and m'f: "mem w' (idx_fields ?ks i) = mem w5 (idx_fields ?ks i)"
      and m'i: "mem w' (idx_index ?ks) = mem w5 (idx_index ?ks)" for g u i
      by (rule m'; fastforce)+
    have filed': "filed ?ks mem w' i = (if i \<in> set ids then {} else filed ?ks mem w1 i)" for i
      using gs(1) [of i] by (simp add: filed_def m'b)
    have "recorded ?ks mem w'"
      using r1 unfolding recorded_def filed' m'f gs(2) by (auto split: if_splits)
    moreover have "live w' (idx_entry ?ks i) = None \<and> i \<notin> mem w' (idx_index ?ks)" if "i \<in> set ids" for i
      using delete_Ok [OF s(5), of "idx_entry ?ks i"] m'i gs(3) that by auto
    moreover have "outside {} (live w1) (live w')"
      using rec(4) each_remove_live [OF s(2)] remove_live [OF s(3)] each_remove_live [OF s(4)]
        delete_frame [OF s(5)] by (blast intro: outside_trans)
    ultimately show ?thesis using sw li s(6) filed' by (intro exI [of _ ids] exI [of _ w1]) simp
  qed
qed

end

text \<open>Over a steady backend the deletions succeed.\<close>

context steady_backend
begin

lemma document_delete_total:
  assumes "dw_driver d = drv" "dw_sets d = Some sts"
  shows "\<exists>w'. document_delete d i w = (Ok (), w')"
proof -
  obtain w1 where "drv_delete drv [document_entry_key d i] w = (Ok (), w1)" using delete_steady by blast
  moreover obtain w2 where "sts_remove sts (document_index_key d) [i] w1 = (Ok (), w2)"
    using remove_steady by blast
  ultimately show ?thesis by (simp add: document_delete_def assms io_bind_def io_ret_def)
qed

lemma unfile_total: "\<exists>w'. indexed_unfile ix sts i w = (Ok (), w')"
proof -
  have rm: "\<exists>w'. sts_remove sts k ms w = (Ok (), w')" for k ms w using remove_steady by blast
  obtain ms where "sts_members sts (idx_fields (ix_keyspace ix) i) w = (Ok ms, w)"
    using members_steady by blast
  moreover have "\<exists>w1. io_each (remove_membership ix sts i) ms w = (Ok (), w1)"
    by (rule io_each_total) (simp add: remove_membership_def rm)
  ultimately show ?thesis using rm by (auto simp: indexed_unfile_def Let_def io_bind_def)
qed

lemma delete_by_index_total:
  assumes "ix_sets ix = Some sts" "ix_driver ix = drv" "ix_bulk ix \<in> {None, Some blk}"
    "ix_set_scanner ix \<in> {None, Some ssc}"
  shows "\<exists>n w'. delete_by_index ix f v w = (Ok n, w')"
proof -
  let ?member = "\<lambda>i. io_bind (sts_members sts (idx_fields (ix_keyspace ix) i)) (\<lambda>fields. io_ret (i, fields))"
  have rm: "\<exists>w'. sts_remove sts k ms w = (Ok (), w')" for k ms w using remove_steady by blast
  have "\<exists>y w'. ?member i w = (Ok y, w')" for i w
    using members_steady [of "idx_fields (ix_keyspace ix) i" w] by (auto simp: io_bind_def io_ret_def)
  then have members: "\<exists>rs w'. io_collect ?member xs w = (Ok rs, w')" for xs w
    by (rule io_collect_total)
  obtain ids w1 where l: "ids_by_index ix f v w = (Ok ids, w1)"
    using live_members_steady [OF assms(3,4)] assms(1,2) by (simp add: ids_by_index_def) metis
  show ?thesis
  proof (cases "ids = []")
    case False
    obtain rs w2 where "io_collect ?member ids w1 = (Ok rs, w2)" using members by blast
    moreover obtain w3 where "io_each (\<lambda>(index_key, members). sts_remove sts index_key members)
        (group_removals (ix_keyspace ix) rs) w2 = (Ok (), w3)"
      using io_each_total [of "\<lambda>(k, ms). sts_remove sts k ms" "group_removals (ix_keyspace ix) rs" w2] rm
      by (auto simp: split_beta)
    moreover obtain w4 where "sts_remove sts (idx_index (ix_keyspace ix)) ids w3 = (Ok (), w4)"
      using rm by blast
    moreover obtain w5 where
      "io_each (\<lambda>(i, fields). sts_remove sts (idx_fields (ix_keyspace ix) i) fields) rs w4 = (Ok (), w5)"
      using io_each_total [of "\<lambda>(i, fs). sts_remove sts (idx_fields (ix_keyspace ix) i) fs" rs w4] rm
      by (auto simp: split_beta)
    moreover obtain w6 where "drv_delete drv (map (idx_entry (ix_keyspace ix)) ids) w5 = (Ok (), w6)"
      using delete_steady by blast
    ultimately show ?thesis
      using False l assms(1,2) by (simp add: delete_by_index_def io_bind_def io_ret_def)
  qed (use l in \<open>simp add: delete_by_index_def io_bind_def io_ret_def\<close>)
qed

end

context indexed_backend
begin

text \<open>What an undo does not reach: a set that no recorded pair decodes to.\<close>

lemma unfile_keeps:
  assumes "indexed_unfile (indexed_new_with_id wiring) sts i w = (Ok u, w')"
    and "j \<in> mem w k" "k \<noteq> idx_fields (dw_keyspace wiring) i"
    and "k \<notin> pair_key (dw_keyspace wiring) ` mem w (idx_fields (dw_keyspace wiring) i)"
  shows "j \<in> mem w' k"
proof -
  let ?ks = "dw_keyspace wiring" and ?ix = "indexed_new_with_id wiring"
  from assms(1) obtain prev w1 w2 where s: "sts_members sts (idx_fields ?ks i) w = (Ok prev, w1)"
    "io_each (remove_membership ?ix sts i) prev w1 = (Ok (), w2)"
    "sts_remove sts (idx_fields ?ks i) prev w2 = (Ok u, w')"
    by (auto simp: indexed_unfile_def Let_def io_bind_Ok)
  show ?thesis
    using members_Ok [OF s(1)] members_frame [OF s(1)] remove_memberships [OF s(2), of k]
      remove_other [OF s(3) assms(3)] assms(2,4) by simp
qed

end

subsection \<open>The in-process indexed store\<close>

interpretation midx: indexed_backend "memory_wiring ks default_ttl require_ttl" mem_live memory_sets mem_members
  for ks default_ttl require_ttl
  by (simp add: indexed_backend_def document_new_indexed_def mdoc.document_backend_axioms)

subsection \<open>Properties\<close>

text \<open>C4: filing refines a map from identifiers to sets of field/value pairs. Over any lawful
  backend, with field names free of the two separators: a successful \<open>create\<close> adds the
  requested pairs to those of its identifier, a successful \<open>update\<close> that names pairs leaves exactly
  those, a successful \<open>delete\<close> leaves none; no other identifier's pairs change and the invariant
  behind the inverse records is kept.\<close>

theorem indexed_filing_refines:
  assumes "indexed_backend wiring live sts mem" "recorded (dw_keyspace wiring) mem w"
    and "opt_indexes opts = Some indexes" "indexes \<noteq> []" "good_indexes indexes"
  shows "(indexed_create (indexed_new_with_id wiring) v opts w = (Ok i, w') \<longrightarrow>
      recorded (dw_keyspace wiring) mem w' \<and> filed (dw_keyspace wiring) mem w' =
        (filed (dw_keyspace wiring) mem w)(i := filed (dw_keyspace wiring) mem w i \<union> set indexes)) \<and>
    (indexed_update (indexed_new_with_id wiring) i v opts w = (Ok (), w') \<longrightarrow>
      recorded (dw_keyspace wiring) mem w' \<and> filed (dw_keyspace wiring) mem w' =
        (filed (dw_keyspace wiring) mem w)(i := set indexes)) \<and>
    (indexed_delete (indexed_new_with_id wiring) i w = (Ok (), w') \<longrightarrow>
      recorded (dw_keyspace wiring) mem w' \<and> filed (dw_keyspace wiring) mem w' =
        (filed (dw_keyspace wiring) mem w)(i := {}))"
  using indexed_backend.create_filed(1,2) [OF assms(1) _ assms(3,5,2)]
    indexed_backend.update_filed [OF assms(1) _ assms(3-5,2)]
    indexed_backend.delete_filed(1,2) [OF assms(1) _ assms(2)]
  by blast

definition sample_wiring :: "id_world document_wiring" where
  "sample_wiring = memory_wiring (keyspace_new ''app'' ''main'' 0 False) 0 False"

definition sample_filed_options :: options where
  "sample_filed_options = with_index ''team'' ''red'' (with_id ''a'' options_default)"

lemma sample_backend: "indexed_backend sample_wiring mem_live memory_sets mem_members"
  by (simp add: sample_wiring_def midx.indexed_backend_axioms)

lemma sample_recorded: "recorded ks mem_members id_world_new"
  by (simp add: recorded_def filed_def id_world_new_def mem_members_def)

lemma sample_indexes:
  "opt_indexes sample_filed_options = Some [(''team'', ''red'')]" "good_indexes [(''team'', ''red'')]"
  by (simp_all add: sample_filed_options_def with_index_def with_id_def options_default_def
      good_indexes_def good_field_def)

definition sample_filed_world :: id_world where
  "sample_filed_world = snd (indexed_create (indexed_new_with_id sample_wiring) [1] sample_filed_options id_world_new)"

lemma sample_filed_create:
  "indexed_create (indexed_new_with_id sample_wiring) [1] sample_filed_options id_world_new =
     (Ok ''a'', sample_filed_world)"
  by (simp add: sample_filed_world_def indexed_create_def indexed_new_with_id_def sample_wiring_def
      memory_wiring_def document_new_indexed_def with_layout_def document_resolve_ttl_def
      document_resolve_id_def sample_filed_options_def with_index_def with_id_def options_default_def
      io_bind_def io_ret_def wanted_indexes_def indexed_file_def memory_sets_def mem_set_add_def
      document_create_def memory_driver_def mem_set_def mem_expires_at_def)

theorem indexed_filing_refines_witness:
  "filed (dw_keyspace sample_wiring) mem_members sample_filed_world ''a'' = {(''team'', ''red'')}"
proof -
  have "filed (dw_keyspace sample_wiring) mem_members id_world_new ''a'' = {}"
    by (simp add: filed_def id_world_new_def mem_members_def)
  with indexed_filing_refines [OF sample_backend sample_recorded sample_indexes(1) _ sample_indexes(2)]
    sample_filed_create
  show ?thesis by simp
qed

text \<open>C11: a successful group deletion is complete: no entry that was filed under the pair is left
  alive, the deleted identifiers are in no index and not enumerated, and the count is the number
  of distinct entries found alive.\<close>

theorem delete_by_index_complete:
  assumes "indexed_backend wiring live sts mem" "recorded (dw_keyspace wiring) mem w"
    and "delete_by_index (indexed_new_with_id wiring) f v w = (Ok n, w')"
  shows "recorded (dw_keyspace wiring) mem w' \<and>
    (\<forall>i \<in> mem w (idx_by_field (dw_keyspace wiring) f v). live w' (idx_entry (dw_keyspace wiring) i) = None) \<and>
    (\<exists>ids. distinct ids \<and> length ids = n \<and>
      set ids \<subseteq> {i \<in> mem w (idx_by_field (dw_keyspace wiring) f v). live w (idx_entry (dw_keyspace wiring) i) \<noteq> None} \<and>
      (\<forall>i\<in>set ids. filed (dw_keyspace wiring) mem w' i = {} \<and> i \<notin> mem w' (idx_index (dw_keyspace wiring))))"
proof -
  let ?ks = "dw_keyspace wiring"
  obtain ids w1 where d: "n = length ids" "recorded ?ks mem w'"
    "listed live mem (idx_by_field ?ks f v) (idx_entry ?ks) w w1 ids"
    "\<forall>i. filed ?ks mem w' i = (if i \<in> set ids then {} else filed ?ks mem w1 i)"
    "outside {} (live w1) (live w')"
    "\<forall>i\<in>set ids. live w' (idx_entry ?ks i) = None \<and> i \<notin> mem w' (idx_index ?ks)"
    using indexed_backend.delete_by_index_spec [OF assms(1,3,2)] by blast
  have "live w' (idx_entry ?ks i) = None" if "i \<in> mem w (idx_by_field ?ks f v)" for i
  proof (cases "i \<in> set ids")
    case False
    with d(3) that have "live w1 (idx_entry ?ks i) = None" by (auto simp: listed_def)
    with outside_dead [OF d(5)] show ?thesis by simp
  qed (use d(6) in simp)
  with d show ?thesis by (intro conjI exI [of _ ids]) (auto simp: listed_def)
qed

theorem delete_by_index_complete_witness:
  "\<exists>n w'. delete_by_index (indexed_new_with_id sample_wiring) ''team'' ''red'' sample_filed_world = (Ok n, w') \<and>
     mem_live w' (idx_entry (dw_keyspace sample_wiring) ''a'') = None"
proof -
  let ?ix = "indexed_new_with_id sample_wiring" and ?ks = "dw_keyspace sample_wiring"
  obtain n w' where d: "delete_by_index ?ix ''team'' ''red'' sample_filed_world = (Ok n, w')"
    using mem.delete_by_index_total [of ?ix "''team''" "''red''" sample_filed_world]
    by (auto simp: indexed_new_with_id_def sample_wiring_def memory_wiring_def)
  note c = indexed_backend.create_filed [OF sample_backend sample_filed_create sample_indexes sample_recorded]
  from c(2) have "(''team'', ''red'') \<in> filed ?ks mem_members sample_filed_world ''a''" by simp
  then have "''a'' \<in> mem_members sample_filed_world (idx_by_field ?ks ''team'' ''red'')"
    by (simp add: filed_def)
  with delete_by_index_complete [OF sample_backend c(1) d] d show ?thesis by blast
qed

text \<open>a field name that contains the separator of the inverse record is filed under one set
  and removed from another: after a successful delete the identifier is still a member of its own
  index.\<close>

theorem indexed_equals_in_field:
  "\<exists>w1 w2. indexed_create (indexed_new_with_id sample_wiring) [1]
       (with_index ''a=b'' ''c'' (with_id ''x'' options_default)) id_world_new = (Ok ''x'', w1) \<and>
     indexed_delete (indexed_new_with_id sample_wiring) ''x'' w1 = (Ok (), w2) \<and>
     ''x'' \<in> mem_members w2 (idx_by_field (dw_keyspace sample_wiring) ''a=b'' ''c'')"
proof -
  let ?ix = "indexed_new_with_id sample_wiring" and ?ks = "dw_keyspace sample_wiring"
  let ?opts = "with_index ''a=b'' ''c'' (with_id ''x'' options_default)"
  have opts: "opt_indexes ?opts = Some [(''a=b'', ''c'')]"
    by (simp add: with_index_def with_id_def options_default_def)
  obtain w1 where c: "indexed_create ?ix [1] ?opts id_world_new = (Ok ''x'', w1)"
    by (simp add: indexed_create_def indexed_new_with_id_def sample_wiring_def memory_wiring_def
        document_new_indexed_def with_layout_def document_resolve_ttl_def document_resolve_id_def
        with_index_def with_id_def options_default_def io_bind_def io_ret_def wanted_indexes_def
        indexed_file_def memory_sets_def mem_set_add_def document_create_def memory_driver_def
        mem_set_def mem_expires_at_def)
  have empty: "mem_members id_world_new k = {}" for k by (simp add: id_world_new_def mem_members_def)
  note sets = indexed_backend.create_sets [OF sample_backend c opts]
  have filed: "''x'' \<in> mem_members w1 (idx_by_field ?ks ''a=b'' ''c'')"
    and fields: "mem_members w1 (idx_fields ?ks ''x'') = {''a=b=c''}"
    using sets(1) [of "''a=b''" "''c''"] sets(2) [of "''x''"] by (simp_all add: empty index_pair_def)
  have other: "idx_by_field ?ks ''a=b'' ''c'' \<notin> pair_key ?ks ` mem_members w1 (idx_fields ?ks ''x'')"
    unfolding fields by (simp add: pair_key_def split_pair_def key_simps)
  obtain w2 where u: "indexed_unfile ?ix memory_sets ''x'' w1 = (Ok (), w2)" using mem.unfile_total by blast
  have kept: "''x'' \<in> mem_members w2 (idx_by_field ?ks ''a=b'' ''c'')"
    by (rule indexed_backend.unfile_keeps [OF sample_backend u filed _ other]) simp
  have wired: "dw_driver (document_new_indexed sample_wiring) = memory_driver"
    "dw_sets (document_new_indexed sample_wiring) = Some memory_sets" "ix_sets ?ix = Some memory_sets"
    "ix_document ?ix = document_new_indexed sample_wiring"
    by (simp_all add: document_new_indexed_def with_layout_def sample_wiring_def memory_wiring_def
        indexed_new_with_id_def)
  obtain w3 where d: "document_delete (document_new_indexed sample_wiring) ''x'' w2 = (Ok (), w3)"
    using mem.document_delete_total [OF wired(1,2)] by blast
  have "indexed_delete ?ix ''x'' w1 = (Ok (), w3)"
    using u d wired(3,4) by (simp add: indexed_delete_def io_bind_def)
  moreover have "''x'' \<in> mem_members w3 (idx_by_field ?ks ''a=b'' ''c'')"
    using document_backend.delete_spec(3) [OF sample_backend [unfolded indexed_backend_def] d,
        of "idx_by_field ?ks ''a=b'' ''c''"] kept
    by (simp add: indexed_backend.indexed_fields [OF sample_backend])
  ultimately show ?thesis using c by blast
qed

end
