(* ===== verification/Volatile.thy ===== *)
theory Volatile
  imports Keyspace Options Memory
begin

text \<open>
  Caller-keyed storage without enumeration: \<open>VolatileImpl\<close> of
  \<open>cache/src/strategies/volatile.rs\<close>. Reads that the code writes through a \<open>dest\<close> argument
  return the value; on an error \<open>dest\<close> keeps its content.
\<close>

record 'w volatile =
  vl_driver :: "'w driver"
  vl_leases :: "'w leases option"
  vl_scanner :: "'w scanner option"
  vl_keyspace :: keyspace
  vl_default_ttl :: nat
  vl_require_ttl :: bool

definition volatile_new_with_capabilities ::
  "'w driver \<Rightarrow> 'w leases option \<Rightarrow> 'w scanner option \<Rightarrow> keyspace \<Rightarrow> nat \<Rightarrow> bool \<Rightarrow> 'w volatile" where
  "volatile_new_with_capabilities drv lea scn ks default_ttl require_ttl =
     \<lparr>vl_driver = drv, vl_leases = lea, vl_scanner = scn, vl_keyspace = ks,
      vl_default_ttl = default_ttl, vl_require_ttl = require_ttl\<rparr>"

definition volatile_new :: "'w driver \<Rightarrow> keyspace \<Rightarrow> nat \<Rightarrow> bool \<Rightarrow> 'w volatile" where
  "volatile_new drv ks default_ttl require_ttl =
     volatile_new_with_capabilities drv None None ks default_ttl require_ttl"

definition volatile_resolve_ttl :: "'w volatile \<Rightarrow> options \<Rightarrow> nat rresult" where
  "volatile_resolve_ttl s opts =
     (case opt_ttl opts of
        Some ttl \<Rightarrow> Ok ttl
      | None \<Rightarrow>
          if opt_permanent opts then Ok 0
          else if vl_default_ttl s \<noteq> 0 then Ok (vl_default_ttl s)
          else if vl_require_ttl s then Err NoTTL
          else Ok 0)"

definition volatile_set :: "'w volatile \<Rightarrow> string \<Rightarrow> bytes \<Rightarrow> options \<Rightarrow> ('w, unit) io" where
  "volatile_set s key v opts =
     io_bind (io_lift (volatile_resolve_ttl s opts)) (\<lambda>ttl.
       drv_set (vl_driver s) (vol_entry (vl_keyspace s) key) v ttl)"

definition volatile_get :: "'w volatile \<Rightarrow> string \<Rightarrow> ('w, bytes) io" where
  "volatile_get s key = drv_get (vl_driver s) (vol_entry (vl_keyspace s) key)"

definition volatile_delete :: "'w volatile \<Rightarrow> string \<Rightarrow> ('w, unit) io" where
  "volatile_delete s key = drv_delete (vl_driver s) [vol_entry (vl_keyspace s) key]"

definition volatile_touch :: "'w volatile \<Rightarrow> string \<Rightarrow> nat \<Rightarrow> ('w, unit) io" where
  "volatile_touch s key ttl = drv_touch (vl_driver s) (vol_entry (vl_keyspace s) key) ttl"

definition volatile_ttl :: "'w volatile \<Rightarrow> string \<Rightarrow> ('w, nat) io" where
  "volatile_ttl s key =
     (case vl_leases s of
        None \<Rightarrow> io_fail Unsupported
      | Some lea \<Rightarrow> lea_ttl lea (vol_entry (vl_keyspace s) key))"

definition volatile_scan :: "'w volatile \<Rightarrow> string \<Rightarrow> ('w, string list) io" where
  "volatile_scan s pat =
     (case vl_scanner s of
        None \<Rightarrow> io_fail Unsupported
      | Some scn \<Rightarrow>
          io_bind (scn_scan scn (vol_pattern (vl_keyspace s) pat)) (\<lambda>scanned.
            if \<exists>key \<in> set scanned. \<not> prefix (vol_prefix (vl_keyspace s)) key
            then io_fail (Internal ''scanner returned a key outside the Volatile keyspace'')
            else io_ret (dedup [] scanned)))"

lemma volatile_resolve_ttl_policy:
  "volatile_resolve_ttl s opts = lease_policy (vl_default_ttl s) (vl_require_ttl s) opts"
  by (simp add: volatile_resolve_ttl_def lease_policy_def split: option.split)

subsection \<open>Properties\<close>

text \<open>what one caller stored under a key is what a reader of that key gets next, whatever
  other key of the database (an entry of another strategy under the same name included) was
  written in between.\<close>

theorem volatile_set_get:
  assumes "kv_store (vl_driver s) live"
    and "volatile_set s key v opts w = (Ok (), w1)"
    and "other \<noteq> VolEntry key" "plain_key other"
    and "drv_set (vl_driver s) (qualify (vl_keyspace s) other) v2 ttl2 w1 = (r2, w2)"
    and "volatile_get s key w2 = (Ok x, w3)"
  shows "x = v"
proof -
  let ?k = "qualify (vl_keyspace s) (VolEntry key)"
  have ne: "?k \<noteq> qualify (vl_keyspace s) other"
    using assms(3,4) qualify_eq_iff [of "VolEntry key" other] by auto
  from assms(2) obtain ttl where "drv_set (vl_driver s) ?k v ttl w = (Ok (), w1)"
    by (auto simp: volatile_set_def io_bind_Ok)
  then have "live w1 ?k = Some v" by (rule kv_store.set_Ok [OF assms(1)])
  moreover have "live w3 ?k = Some x" "outside {} (live w2) (live w3)"
    using assms(6) kv_store.get_Ok [OF assms(1)] kv_store.get_frame [OF assms(1)]
    by (auto simp: volatile_get_def)
  then have "live w2 ?k = Some x" by (auto dest: outside_live)
  ultimately show ?thesis
    using outside_live [OF kv_store.set_frame [OF assms(1,5)], of ?k] ne by simp
qed

definition sample_volatile :: "mem_world volatile" where
  "sample_volatile = volatile_new memory_driver (keyspace_new ''app'' ''main'' 0 False) 0 True"

definition sample_after :: mem_world where
  "sample_after =
     snd (mem_set (qualify (vl_keyspace sample_volatile) (DocEntry ''a'')) [9] 0
       (snd (volatile_set sample_volatile ''a'' [7] (with_ttl 10 options_default) memory_new)))"

lemmas sample_volatile_defs = sample_volatile_def volatile_new_def volatile_new_with_capabilities_def
  memory_driver_def

theorem volatile_set_get_witness:
  "volatile_get sample_volatile ''a'' sample_after = (Ok [7], sample_after)"
proof -
  let ?ks = "vl_keyspace sample_volatile"
  define w1 where "w1 = mem_insert (vol_entry ?ks ''a'') [7] (Some 10) memory_new"
  have 1: "volatile_set sample_volatile ''a'' [7] (with_ttl 10 options_default) memory_new = (Ok (), w1)"
    by (simp add: w1_def volatile_set_def volatile_resolve_ttl_def with_ttl_def sample_volatile_defs
        mem_set_def mem_expires_at_def instant_add_def clock_max_def memory_new_def)
  have sa: "mem_set (qualify ?ks (DocEntry ''a'')) [9] 0 w1 = (Ok (), sample_after)"
    by (simp add: sample_after_def 1 mem_set_def mem_expires_at_def)
  then have 2: "drv_set (vl_driver sample_volatile) (qualify ?ks (DocEntry ''a'')) [9] 0 w1
      = (Ok (), sample_after)"
    by (simp add: sample_volatile_defs)
  have kv: "kv_store (vl_driver sample_volatile) mem_live"
    using mem.kv_store_axioms by (simp add: sample_volatile_defs)
  have "mem_live w1 (vol_entry ?ks ''a'') \<noteq> None"
    by (simp add: w1_def mem_live_def mem_insert_def is_expired_def memory_new_def)
  then have "mem_live sample_after (vol_entry ?ks ''a'') \<noteq> None"
    using mem_set_cases [OF sa] by auto
  then obtain x where x: "volatile_get sample_volatile ''a'' sample_after = (Ok x, sample_after)"
    by (auto simp: volatile_get_def sample_volatile_defs mem_get_eq)
  from volatile_set_get [OF kv 1 _ _ 2 x] x show ?thesis by simp
qed

text \<open>a scan over an exact scanner returns, without repetition, exactly the live keys of the
  Volatile segment whose remainder matches the caller's pattern.\<close>

theorem volatile_scan_exact:
  assumes "vl_scanner s = Some scn" "glob_semantics matches"
    and "scn_scan scn (vol_pattern (vl_keyspace s) pat) w = (Ok found, w')"
    and "set found = {k. live k \<noteq> None \<and> matches (vol_pattern (vl_keyspace s) pat) k}"
  shows "\<exists>ks. volatile_scan s pat w = (Ok ks, w') \<and> distinct ks \<and>
    set ks = {k. live k \<noteq> None \<and> (\<exists>r. k = vol_entry (vl_keyspace s) r \<and> matches pat r)}"
proof -
  let ?p = "vol_prefix (vl_keyspace s)"
  have scope: "matches (vol_pattern (vl_keyspace s) pat) k \<longleftrightarrow> (\<exists>r. k = ?p @ r \<and> matches pat r)" for k
    using glob_escape [OF assms(2)] by (simp add: vol_pattern_def)
  have entry: "vol_entry (vl_keyspace s) r = ?p @ r" for r by (simp add: key_simps)
  have "\<forall>k\<in>set found. prefix ?p k" by (auto simp: assms(4) scope)
  then have "volatile_scan s pat w = (Ok (dedup [] found), w')"
    using assms(1,3) by (auto simp: volatile_scan_def io_bind_def io_ret_def)
  then show ?thesis by (auto simp: distinct_dedup set_dedup assms(4) scope entry)
qed

theorem volatile_scan_exact_witness:
  "\<exists>ks. volatile_scan (sample_volatile\<lparr>vl_scanner :=
        Some \<lparr>scn_scan = \<lambda>p w. (Ok [''app:main:cache:vol:x'', ''app:main:cache:vol:x''], w)\<rparr>\<rparr>)
      ''*'' memory_new = (Ok ks, memory_new) \<and> set ks = {''app:main:cache:vol:x''}"
proof -
  let ?s = "sample_volatile\<lparr>vl_scanner :=
        Some \<lparr>scn_scan = \<lambda>p w. (Ok [''app:main:cache:vol:x'', ''app:main:cache:vol:x''], w)\<rparr>\<rparr>"
  let ?live = "[''app:main:cache:vol:x'' \<mapsto> [1::8 word]]"
  have pre: "vol_prefix (vl_keyspace sample_volatile) = ''app:main:cache:vol:''"
    by (simp add: sample_volatile_defs key_simps keyspace_new_def Let_def)
  have all: "glob_match (vol_pattern (vl_keyspace ?s) ''*'') k \<longleftrightarrow> prefix ''app:main:cache:vol:'' k" for k
  proof -
    have "vl_keyspace ?s = vl_keyspace sample_volatile" by simp
    then show ?thesis
      unfolding vol_pattern_def glob_escape [OF glob_match_semantics] pre
      by (simp only: pre) (simp add: glob_match_star prefix_def)
  qed
  have found: "set [''app:main:cache:vol:x'', ''app:main:cache:vol:x''] =
      {k. ?live k \<noteq> None \<and> glob_match (vol_pattern (vl_keyspace ?s) ''*'') k}"
    by (auto simp only: all split: if_splits) (auto split: if_splits)
  have answers: "vl_scanner ?s = Some \<lparr>scn_scan = \<lambda>p w. (Ok [''app:main:cache:vol:x'', ''app:main:cache:vol:x''], w)\<rparr>"
    by simp
  from volatile_scan_exact [OF answers glob_match_semantics _ found, of memory_new memory_new]
  obtain ks where ks: "volatile_scan ?s ''*'' memory_new = (Ok ks, memory_new)"
    "set ks = {k. ?live k \<noteq> None \<and> (\<exists>r. k = vol_entry (vl_keyspace ?s) r \<and> glob_match ''*'' r)}"
    by auto
  have "vol_entry (vl_keyspace ?s) r = ''app:main:cache:vol:'' @ r" for r
    using pre by (simp add: key_simps)
  with ks(2) have "set ks = {''app:main:cache:vol:x''}"
    by (auto simp: glob_match_star split: if_splits)
  with ks(1) show ?thesis by blast
qed

end
