(* ===== verification/Aside.thy ===== *)
theory Aside
  imports Keyspace Options Memory
begin

text \<open>
  Read-through caching: \<open>AsideImpl\<close> of \<open>cache/src/strategies/aside.rs\<close>.

  A cached entry is an envelope with the value, the millisecond deadline of its freshness and a
  marker for a remembered absence. A miss resolves the lease policy, tries one cross-process
  claim, runs the loader, stores the envelope and releases the claim.

  Arguments of the model: the loader (caller code), the wall clock \<open>as_now\<close> and the source of
  lock tokens as functions of the world, and the envelope codec (\<open>serde_json\<close>), whose
  documented behaviour is \<open>codec_laws\<close>. The shared in-process coordinator \<open>Flight\<close> and the
  background refresh are handles of the record; they are modelled in their own theories. A
  release that runs into its two-second timeout is one whose call fails.
\<close>

subsection \<open>Lease, freshness and the millisecond clock\<close>

definition aside_resolve_ttl :: "nat \<Rightarrow> bool \<Rightarrow> options \<Rightarrow> nat rresult" where
  "aside_resolve_ttl default_ttl require_ttl opts =
     (case opt_ttl opts of
        Some ttl \<Rightarrow> Ok ttl
      | None \<Rightarrow>
          if opt_permanent opts then Ok 0
          else if default_ttl \<noteq> 0 then Ok default_ttl
          else if require_ttl then Err NoTTL
          else Ok 0)"

definition resolve_stale :: "nat \<Rightarrow> options \<Rightarrow> nat" where
  "resolve_stale default_stale opts = (case opt_stale opts of Some s \<Rightarrow> s | None \<Rightarrow> default_stale)"

record freshness =
  fresh_for :: nat
  hard_ttl :: nat

definition freshness_of :: "nat \<Rightarrow> nat \<Rightarrow> freshness rresult" where
  "freshness_of ttl stale =
     (if ttl = 0 then Ok \<lparr>fresh_for = 0, hard_ttl = 0\<rparr>
      else if stale = 0 then Ok \<lparr>fresh_for = 0, hard_ttl = ttl\<rparr>
      else case duration_checked_add ttl stale of
             None \<Rightarrow> Err (Internal ''Aside TTL and stale window overflow Duration'')
           | Some h \<Rightarrow> Ok \<lparr>fresh_for = ttl, hard_ttl = h\<rparr>)"

definition i64_max :: int where
  "i64_max = 2 ^ 63 - 1"

definition unix_millis :: "int \<Rightarrow> int rresult" where
  "unix_millis t =
     (if t < 0 then Err (Internal (''Aside freshness deadline predates Unix epoch: ''
          @ ''second time provided was later than self''))
      else let ms = int (as_millis (nat t))
           in if ms \<le> i64_max then Ok ms
              else Err (Internal (''Aside freshness deadline does not fit Unix milliseconds: ''
                @ ''out of range integral type conversion attempted'')))"

definition fresh_until_millis :: "int \<Rightarrow> nat \<Rightarrow> int rresult" where
  "fresh_until_millis now d =
     (if d = 0 then Ok 0
      else case system_time_checked_add now d of
             None \<Rightarrow> Err (Internal ''Aside freshness deadline exceeds SystemTime'')
           | Some deadline \<Rightarrow> unix_millis deadline)"

subsection \<open>The envelope\<close>

record envelope =
  env_value :: "bytes option"
  env_fresh :: int
  env_void :: bool

text \<open>
  The codec: UTF-8 decoding, validation of one JSON text (which drops surrounding white space),
  and the two directions of the envelope. A failure carries the error's text.
\<close>

record codec =
  cdc_utf8 :: "bytes \<Rightarrow> string + bytes"
  cdc_raw :: "bytes \<Rightarrow> string + bytes"
  cdc_encode :: "envelope \<Rightarrow> string + bytes"
  cdc_decode :: "bytes \<Rightarrow> string + envelope"

datatype stored_entry = StoredValue bytes bool | StoredVoid

definition invalid_envelope :: "string \<Rightarrow> cache_error" where
  "invalid_envelope reason = Internal (''invalid Aside envelope: '' @ reason)"

definition encode_envelope :: "codec \<Rightarrow> envelope \<Rightarrow> bytes rresult" where
  "encode_envelope c e =
     (case cdc_encode c e of
        Inl err \<Rightarrow> Err (invalid_envelope (''cannot encode envelope: '' @ err))
      | Inr frame \<Rightarrow> Ok frame)"

definition pack_value :: "codec \<Rightarrow> bytes \<Rightarrow> int \<Rightarrow> bytes rresult" where
  "pack_value c body fresh_until_ms =
     (case cdc_utf8 c body of
        Inl err \<Rightarrow> Err (invalid_envelope (''loader value is not UTF-8 JSON: '' @ err))
      | Inr json \<Rightarrow>
          (case cdc_raw c json of
             Inl err \<Rightarrow> Err (invalid_envelope (''loader value is not valid JSON: '' @ err))
           | Inr v \<Rightarrow>
               encode_envelope c \<lparr>env_value = Some v, env_fresh = fresh_until_ms, env_void = False\<rparr>))"

definition pack_void :: "codec \<Rightarrow> bytes rresult" where
  "pack_void c = encode_envelope c \<lparr>env_value = None, env_fresh = 0, env_void = True\<rparr>"

definition unpack :: "codec \<Rightarrow> bytes \<Rightarrow> int \<Rightarrow> stored_entry rresult" where
  "unpack c frame now_ms =
     (case cdc_decode c frame of
        Inl err \<Rightarrow> Err (invalid_envelope (''cannot decode envelope: '' @ err))
      | Inr e \<Rightarrow>
          if env_void e then Ok StoredVoid
          else Ok (StoredValue (case env_value e of Some v \<Rightarrow> v | None \<Rightarrow> [])
                     (env_fresh e \<noteq> 0 \<and> now_ms > env_fresh e)))"

subsection \<open>The strategy\<close>

datatype claim = Owned string bytes | Published bytes | PublishedVoid | Unclaimed

record 'w aside =
  as_driver :: "'w driver"
  as_fenced :: "'w fenced option"
  as_keyspace :: keyspace
  as_loader :: "string \<Rightarrow> ('w, bytes) io"
  as_default_ttl :: nat
  as_default_stale :: nat
  as_require_ttl :: bool
  as_flight :: "string \<Rightarrow> ('w, bytes) io \<Rightarrow> ('w, bytes) io"
  as_background :: "string \<Rightarrow> options \<Rightarrow> ('w, bool) io"
  as_negative_ttl :: nat
  as_lock_lease :: nat
  as_codec :: codec
  as_now :: "'w \<Rightarrow> int"
  as_token :: "'w \<Rightarrow> bytes \<times> 'w"

definition aside_read :: "'w aside \<Rightarrow> string \<Rightarrow> ('w, stored_entry) io" where
  "aside_read a i =
     io_bind (drv_get (as_driver a) (aside_entry (as_keyspace a) i)) (\<lambda>frame w.
       (case unix_millis (as_now a w) of
          Ok now_ms \<Rightarrow> unpack (as_codec a) frame now_ms
        | Err e \<Rightarrow> Err e
        | Panic \<Rightarrow> Panic, w))"

definition aside_invalidate :: "'w aside \<Rightarrow> string \<Rightarrow> ('w, unit) io" where
  "aside_invalidate a i = drv_delete (as_driver a) [aside_entry (as_keyspace a) i]"

definition aside_claim :: "'w aside \<Rightarrow> string \<Rightarrow> ('w, claim) io" where
  "aside_claim a i w =
     (case as_fenced a of
        None \<Rightarrow> (Ok Unclaimed, w)
      | Some _ \<Rightarrow>
          (let key = aside_lock (as_keyspace a) i;
               (token, w1) = as_token a w
           in case drv_add (as_driver a) key token (as_lock_lease a) w1 of
                (Ok True, w2) \<Rightarrow> (Ok (Owned key token), w2)
              | (Panic, w2) \<Rightarrow> (Panic, w2)
              | (_, w2) \<Rightarrow>
                  (case aside_read a i w2 of
                     (Ok (StoredValue body _), w3) \<Rightarrow> (Ok (Published body), w3)
                   | (Ok StoredVoid, w3) \<Rightarrow> (Ok PublishedVoid, w3)
                   | (Err _, w3) \<Rightarrow> (Ok Unclaimed, w3)
                   | (Panic, w3) \<Rightarrow> (Panic, w3))))"

text \<open>The best-effort marker of a loader-reported absence.\<close>

definition remember_absence :: "'w aside \<Rightarrow> string \<Rightarrow> ('w, unit) io" where
  "remember_absence a i =
     (if as_negative_ttl a \<noteq> 0 then
        (case pack_void (as_codec a) of
           Ok frame \<Rightarrow>
             io_ignore (drv_set (as_driver a) (aside_entry (as_keyspace a) i) frame (as_negative_ttl a))
         | _ \<Rightarrow> io_ret ())
      else io_ret ())"

definition load_and_store_claimed :: "'w aside \<Rightarrow> string \<Rightarrow> freshness \<Rightarrow> ('w, bytes) io" where
  "load_and_store_claimed a i fr w =
     (case as_loader a i w of
        (Ok v, w1) \<Rightarrow>
          io_bind (io_lift (fresh_until_millis (as_now a w1) (fresh_for fr))) (\<lambda>fresh_until.
          io_bind (io_lift (pack_value (as_codec a) v fresh_until)) (\<lambda>frame.
          io_bind (drv_set (as_driver a) (aside_entry (as_keyspace a) i) frame (hard_ttl fr)) (\<lambda>_.
          io_ret v))) w1
      | (Err e, w1) \<Rightarrow>
          if e = NotFound then io_bind (remember_absence a i) (\<lambda>_. io_fail NotFound) w1
          else (Err e, w1)
      | (Panic, w1) \<Rightarrow> (Panic, w1))"

text \<open>
  \<open>FencedClaim::release\<close>, and the same bounded attempt its \<open>Drop\<close> schedules when the loader
  panics; the outcome is suppressed.
\<close>

definition release_claim :: "'w aside \<Rightarrow> claim \<Rightarrow> 'w \<Rightarrow> 'w" where
  "release_claim a c w =
     (case (c, as_fenced a) of
        (Owned key token, Some fen) \<Rightarrow> snd (fen_delete_if fen key token w)
      | _ \<Rightarrow> w)"

definition load_and_store :: "'w aside \<Rightarrow> string \<Rightarrow> options \<Rightarrow> ('w, bytes) io" where
  "load_and_store a i opts =
     io_bind (io_lift (aside_resolve_ttl (as_default_ttl a) (as_require_ttl a) opts)) (\<lambda>ttl.
     io_bind (io_lift (freshness_of ttl (resolve_stale (as_default_stale a) opts))) (\<lambda>fr.
     io_bind (aside_claim a i) (\<lambda>c.
       case c of
         Published v \<Rightarrow> io_ret v
       | PublishedVoid \<Rightarrow> io_fail NotFound
       | _ \<Rightarrow> (\<lambda>w. let (r, w') = load_and_store_claimed a i fr w in (r, release_claim a c w')))))"

definition load_through_flight :: "'w aside \<Rightarrow> string \<Rightarrow> options \<Rightarrow> ('w, bytes) io" where
  "load_through_flight a i opts = as_flight a i (load_and_store a i opts)"

definition aside_refresh :: "'w aside \<Rightarrow> string \<Rightarrow> options \<Rightarrow> ('w, unit) io" where
  "aside_refresh a i opts = io_bind (load_through_flight a i opts) (\<lambda>_. io_ret ())"

definition get_or_load :: "'w aside \<Rightarrow> string \<Rightarrow> options \<Rightarrow> ('w, bytes) io" where
  "get_or_load a i opts w =
     (case aside_read a i w of
        (Ok (StoredValue body stale), w1) \<Rightarrow>
          if stale then io_bind (io_ignore (as_background a i opts)) (\<lambda>_. io_ret body) w1
          else (Ok body, w1)
      | (Ok StoredVoid, w1) \<Rightarrow> (Err NotFound, w1)
      | (Err e, w1) \<Rightarrow>
          if e = NotFound then load_through_flight a i opts w1 else (Err e, w1)
      | (Panic, w1) \<Rightarrow> (Panic, w1))"

text \<open>Reading does not look at the loader or the coordinator.\<close>

lemma aside_read_loader [simp]:
  "aside_read (a\<lparr>as_loader := loader\<rparr>) = aside_read a" "aside_read (a\<lparr>as_flight := flight\<rparr>) = aside_read a"
  by (simp_all add: aside_read_def fun_eq_iff io_bind_def split: rresult.splits prod.splits)

subsection \<open>Deadlines\<close>

lemma aside_resolve_ttl_policy: "aside_resolve_ttl d q opts = lease_policy d q opts"
  by (simp add: aside_resolve_ttl_def lease_policy_def split: option.split)

lemma unix_millis_Ok:
  assumes "unix_millis t = Ok m"
  shows "0 \<le> t" "0 \<le> m" "m \<le> i64_max" "m * 1000000 \<le> t" "t < m * 1000000 + 1000000"
proof -
  from assms have t: "0 \<le> t" "m \<le> i64_max" and m: "m = t div 1000000"
    by (auto simp: unix_millis_def Let_def as_millis_def zdiv_int split: if_splits)
  show "0 \<le> t" "m \<le> i64_max" by (fact t)+
  have "t div 1000000 * 1000000 + t mod 1000000 = t" "0 \<le> t mod 1000000" "t mod 1000000 < 1000000"
    by simp_all
  then show "m * 1000000 \<le> t" "t < m * 1000000 + 1000000" by (simp_all add: m)
  show "0 \<le> m" using t(1) by (simp add: m)
qed

lemma unix_millis_mono:
  assumes "unix_millis s = Ok m" "unix_millis t = Ok n" "s \<le> t"
  shows "m \<le> n"
  using unix_millis_Ok(4) [OF assms(1)] unix_millis_Ok(5) [OF assms(2)] assms(3) by linarith

lemma fresh_until_Ok:
  assumes "fresh_until_millis now d = Ok f" "0 < d"
  shows "unix_millis (now + int d) = Ok f"
  using assms
  by (auto simp: fresh_until_millis_def system_time_checked_add_def split: option.splits if_splits)

lemma freshness_of_Ok:
  "freshness_of ttl stale = Ok fr \<Longrightarrow>
     hard_ttl fr = (if ttl = 0 then 0 else ttl + stale) \<and>
     fresh_for fr = (if ttl = 0 \<or> stale = 0 then 0 else ttl)"
  by (auto simp: freshness_of_def duration_checked_add_def split: if_splits option.splits)

text \<open>What the documented JSON codec gives: a frame it wrote decodes to what was written.\<close>

definition codec_laws :: "codec \<Rightarrow> bool" where
  "codec_laws c \<longleftrightarrow>
     (\<forall>e frame. cdc_encode c e = Inr frame \<longrightarrow> - i64_max - 1 \<le> env_fresh e \<longrightarrow> env_fresh e \<le> i64_max \<longrightarrow>
        (\<forall>v. env_value e = Some v \<longrightarrow> cdc_raw c v = Inr v) \<longrightarrow> cdc_decode c frame = Inr e) \<and>
     (\<forall>s v. cdc_raw c s = Inr v \<longrightarrow> cdc_raw c v = Inr v)"

lemma unpack_pack_value:
  assumes "codec_laws c" "pack_value c body f = Ok frame" "0 \<le> f" "f \<le> i64_max"
  shows "\<exists>json v. cdc_utf8 c body = Inr json \<and> cdc_raw c json = Inr v \<and>
    unpack c frame now_ms = Ok (StoredValue v (f \<noteq> 0 \<and> now_ms > f))"
proof -
  from assms(2) obtain json v where v: "cdc_utf8 c body = Inr json" "cdc_raw c json = Inr v"
    "cdc_encode c \<lparr>env_value = Some v, env_fresh = f, env_void = False\<rparr> = Inr frame"
    by (auto simp: pack_value_def encode_envelope_def split: sum.splits)
  moreover from v have "cdc_raw c v = Inr v" using assms(1) by (simp add: codec_laws_def)
  ultimately have "cdc_decode c frame = Inr \<lparr>env_value = Some v, env_fresh = f, env_void = False\<rparr>"
    using assms(1,3,4) by (auto simp: codec_laws_def i64_max_def)
  with v show ?thesis by (simp add: unpack_def)
qed

lemma unpack_pack_void:
  assumes "codec_laws c" "pack_void c = Ok frame"
  shows "unpack c frame now_ms = Ok StoredVoid"
proof -
  from assms(2) have "cdc_encode c \<lparr>env_value = None, env_fresh = 0, env_void = True\<rparr> = Inr frame"
    by (auto simp: pack_void_def encode_envelope_def split: sum.splits)
  then have "cdc_decode c frame = Inr \<lparr>env_value = None, env_fresh = 0, env_void = True\<rparr>"
    using assms(1) by (auto simp: codec_laws_def i64_max_def)
  then show ?thesis by (simp add: unpack_def)
qed

subsection \<open>What a load stores\<close>

text \<open>
  The load either stored a frame of the loader's value, with the deadline counted from the moment
  the loader returned, or reported the first failure on the way.
\<close>

lemma load_and_store_claimed_Ok:
  assumes "load_and_store_claimed a i fr w = (Ok v, w')"
  obtains wl f frame where "as_loader a i w = (Ok v, wl)"
    "fresh_until_millis (as_now a wl) (fresh_for fr) = Ok f" "pack_value (as_codec a) v f = Ok frame"
    "drv_set (as_driver a) (aside_entry (as_keyspace a) i) frame (hard_ttl fr) wl = (Ok (), w')"
proof (cases "as_loader a i w")
  case (Pair r wl)
  show thesis
  proof (cases r)
    case (Ok u)
    with assms Pair that show thesis by (auto simp: load_and_store_claimed_def io_bind_Ok)
  next
    case (Err e)
    with assms Pair show thesis
      by (auto simp: load_and_store_claimed_def io_bind_Ok split: if_splits)
  qed (use assms Pair in \<open>simp add: load_and_store_claimed_def\<close>)
qed

lemma load_absent:
  assumes "as_loader a i w = (Err NotFound, wl)" "load_and_store_claimed a i fr w = (r, w')"
  shows "r = Err NotFound \<or> r = Panic" "remember_absence a i wl = (Ok (), w') \<or> r = Panic"
proof -
  from assms have "io_bind (remember_absence a i) (\<lambda>_. io_fail NotFound) wl = (r, w')"
    by (simp add: load_and_store_claimed_def)
  moreover have "remember_absence a i wl \<noteq> (Err e, w')" for e
    by (auto simp: remember_absence_def io_ignore_def split: rresult.splits prod.splits)
  ultimately show "r = Err NotFound \<or> r = Panic" "remember_absence a i wl = (Ok (), w') \<or> r = Panic"
    by (auto elim!: io_bindE)
qed

locale fenced_store = kv_store drv live
  for drv :: "'w driver" and live +
  fixes fen :: "'w fenced"
  assumes delete_if_Ok: "fen_delete_if fen k t w = (Ok b, w') \<Longrightarrow>
      b = (live w k = Some t) \<and> live w' = (if b then (live w)(k := None) else live w)"
begin

text \<open>Releasing: our own generation is gone, a successor's is untouched.\<close>

lemma release_generation:
  assumes "fen_delete_if fen k t w = (Ok b, w')"
  shows "live w' k \<noteq> Some t" "live w k \<noteq> Some t \<Longrightarrow> live w' = live w"
    "k' \<noteq> k \<Longrightarrow> live w' k' = live w k'"
  using delete_if_Ok [OF assms] by (auto split: if_splits)

end

lemma mem_delete_if_total: "\<exists>b w'. mem_delete_if k t w = (Ok b, w')"
  by (auto simp: mem_delete_if_def Let_def)

interpretation mem_fenced: fenced_store memory_driver mem_live memory_fenced
proof
  fix k t b and w w' :: "'a mem_world_scheme"
  assume d: "fen_delete_if memory_fenced k t w = (Ok b, w')"
  then have "b = (mem_live w k = Some t)"
    by (auto simp: memory_fenced_def mem_delete_if_def mem_live_def Let_def split: option.splits if_splits)
  with d show "b = (mem_live w k = Some t) \<and>
      mem_live w' = (if b then (mem_live w)(k := None) else mem_live w)"
    by (auto simp: memory_fenced_def mem_delete_if_def mem_live_def Let_def fun_eq_iff split: option.splits if_splits)
qed

subsection \<open>An instance for the witnesses\<close>

text \<open>
  A codec that keeps the envelope's fields readable: a tag byte, then the bytes of the value. It
  validates nothing and stores no deadline other than zero.
\<close>

definition plain_encode :: "envelope \<Rightarrow> string + bytes" where
  "plain_encode e =
     (if env_fresh e \<noteq> 0 then Inl ''deadline''
      else case env_value e of
             None \<Rightarrow> Inr [if env_void e then 1 else 0]
           | Some v \<Rightarrow> Inr ((if env_void e then 3 else 2) # v))"

definition plain_decode :: "bytes \<Rightarrow> string + envelope" where
  "plain_decode frame =
     (case frame of
        [] \<Rightarrow> Inl ''empty''
      | t # v \<Rightarrow>
          if t = 0 \<or> t = 1 then Inr \<lparr>env_value = None, env_fresh = 0, env_void = (t = 1)\<rparr>
          else Inr \<lparr>env_value = Some v, env_fresh = 0, env_void = (t = 3)\<rparr>)"

definition plain_codec :: codec where
  "plain_codec = \<lparr>cdc_utf8 = Inr, cdc_raw = Inr, cdc_encode = plain_encode, cdc_decode = plain_decode\<rparr>"

lemma plain_codec_laws: "codec_laws plain_codec"
proof -
  have "plain_decode frame = Inr e" if "plain_encode e = Inr frame" for e frame
    using that by (cases e) (auto simp: plain_encode_def plain_decode_def split: if_splits option.splits)
  then show ?thesis by (simp add: codec_laws_def plain_codec_def)
qed

definition sample_aside :: "mem_world aside" where
  "sample_aside =
     \<lparr>as_driver = memory_driver, as_fenced = Some memory_fenced,
      as_keyspace = keyspace_new ''app'' ''main'' 0 False,
      as_loader = (\<lambda>i w. if i = ''gone'' then (Err NotFound, w) else (Ok [7], w)),
      as_default_ttl = 60, as_default_stale = 0, as_require_ttl = True,
      as_flight = (\<lambda>_ work. work), as_background = (\<lambda>_ _. io_ret False),
      as_negative_ttl = 5, as_lock_lease = 30, as_codec = plain_codec,
      as_now = (\<lambda>w. int (mw_clock w)), as_token = (\<lambda>w. ([9], w))\<rparr>"

lemma sample_aside_fields [simp]:
  "as_driver sample_aside = memory_driver" "as_fenced sample_aside = Some memory_fenced"
  "as_codec sample_aside = plain_codec" "as_flight sample_aside i work = work"
  "as_negative_ttl sample_aside = 5" "as_lock_lease sample_aside = 30"
  "as_now sample_aside w = int (mw_clock w)" "as_token sample_aside w = ([9], w)"
  "as_default_ttl sample_aside = 60" "as_default_stale sample_aside = 0" "as_require_ttl sample_aside = True"
  by (simp_all add: sample_aside_def)

lemma sample_loader:
  "as_loader sample_aside ''gone'' w = (Err NotFound, w)" "i \<noteq> ''gone'' \<Longrightarrow> as_loader sample_aside i w = (Ok [7], w)"
  by (simp_all add: sample_aside_def)

subsection \<open>Properties\<close>


lemma plain_pack: "pack_value plain_codec v 0 = Ok (2 # v)" "pack_void plain_codec = Ok [1]"
  by (simp_all add: pack_value_def pack_void_def encode_envelope_def plain_codec_def plain_encode_def)

lemma plain_unpack: "unpack plain_codec (2 # v) m = Ok (StoredValue v False)" "unpack plain_codec [1] m = Ok StoredVoid"
  by (simp_all add: unpack_def plain_codec_def plain_decode_def)

definition sample_loaded :: mem_world where
  "sample_loaded = mem_insert (aside_entry (as_keyspace sample_aside) ''x'') [2, 7] (Some 60) memory_new"

lemma sample_load:
  "load_and_store_claimed sample_aside ''x'' \<lparr>fresh_for = 0, hard_ttl = 60\<rparr> memory_new = (Ok [7], sample_loaded)"
  by (simp add: load_and_store_claimed_def sample_loader fresh_until_millis_def plain_pack io_bind_def
      io_ret_def memory_driver_def mem_set_def mem_expires_at_def instant_add_def clock_max_def
      memory_new_def sample_loaded_def)

lemma sample_read: "aside_read sample_aside ''x'' sample_loaded = (Ok (StoredValue [7] False), sample_loaded)"
  by (simp add: aside_read_def io_bind_def memory_driver_def mem_get_def sample_loaded_def mem_insert_def
      is_expired_def memory_new_def unix_millis_def as_millis_def i64_max_def plain_unpack)


text \<open>the source is consulted only on a miss. When the entry can be read (a fresh value, a
  stale one, a remembered absence) or the read fails otherwise, the outcome does not depend on
  the loader or on the load coordinator, and a remembered absence is reported as missing.\<close>

theorem aside_hit_needs_no_loader:
  assumes "aside_read a i w = (r, w1)" "r \<noteq> Err NotFound"
  shows "get_or_load (a\<lparr>as_loader := loader, as_flight := flight\<rparr>) i opts w = get_or_load a i opts w \<and>
    (r = Ok StoredVoid \<longrightarrow> get_or_load a i opts w = (Err NotFound, w1)) \<and>
    (\<forall>body. r = Ok (StoredValue body False) \<longrightarrow> get_or_load a i opts w = (Ok body, w1))"
  using assms by (auto simp: get_or_load_def split: rresult.splits stored_entry.splits)

theorem aside_hit_needs_no_loader_witness:
  "get_or_load (sample_aside\<lparr>as_loader := (\<lambda>_ w. (Panic, w)), as_flight := (\<lambda>_ _ w. (Panic, w))\<rparr>) ''x''
     options_default sample_loaded = (Ok [7], sample_loaded)"
  using aside_hit_needs_no_loader [OF sample_read, where loader = "\<lambda>_ w. (Panic, w)" and
      flight = "\<lambda>_ _ w. (Panic, w)" and opts = options_default]
  by simp

text \<open>a loader-reported absence is what the caller gets even when its marker cannot be stored,
  and once the marker is stored later reads report the absence without asking the source.\<close>

theorem aside_absence_remembered:
  assumes "steady_backend (as_driver a) live sts mem blk ssc" "codec_laws (as_codec a)"
    and "as_loader a i w = (Err NotFound, wl)" "load_and_store_claimed a i fr w = (r, w1)" "r \<noteq> Panic"
    and "live w1 (aside_entry (as_keyspace a) i) = Some marker" "pack_void (as_codec a) = Ok marker"
    and "unix_millis (as_now a w1) = Ok now_ms"
  shows "r = Err NotFound \<and>
    get_or_load (a\<lparr>as_loader := loader, as_flight := flight\<rparr>) i opts w1 = (Err NotFound, w1)"
proof -
  have "drv_get (as_driver a) (aside_entry (as_keyspace a) i) w1 = (Ok marker, w1)"
    using steady_backend.get_steady [OF assms(1)] assms(6) by simp
  then have "aside_read a i w1 = (Ok StoredVoid, w1)"
    using unpack_pack_void [OF assms(2,7)] assms(8) by (simp add: aside_read_def io_bind_def)
  with load_absent(1) [OF assms(3,4)] assms(5) show ?thesis by (simp add: get_or_load_def)
qed

theorem aside_absence_remembered_witness:
  "\<exists>w1. load_and_store_claimed sample_aside ''gone'' \<lparr>fresh_for = 0, hard_ttl = 60\<rparr> memory_new = (Err NotFound, w1) \<and>
     get_or_load (sample_aside\<lparr>as_loader := (\<lambda>_ w. (Ok [1], w)), as_flight := (\<lambda>_ work. work)\<rparr>) ''gone''
       options_default w1 = (Err NotFound, w1)"
proof -
  let ?k = "aside_entry (as_keyspace sample_aside) ''gone''"
  let ?w1 = "mem_insert ?k [1] (Some 5) memory_new"
  have l: "load_and_store_claimed sample_aside ''gone'' \<lparr>fresh_for = 0, hard_ttl = 60\<rparr> memory_new = (Err NotFound, ?w1)"
    by (simp add: load_and_store_claimed_def sample_loader remember_absence_def plain_pack io_bind_def
        io_ignore_def io_fail_def memory_driver_def mem_set_def mem_expires_at_def instant_add_def
        clock_max_def memory_new_def)
  have s: "steady_backend (as_driver sample_aside) mem_live memory_sets mem_members memory_bulk memory_set_scanner"
    by (simp add: mem.steady_backend_axioms)
  have c: "codec_laws (as_codec sample_aside)" by (simp add: plain_codec_laws)
  have v: "mem_live ?w1 ?k = Some [1]"
    by (simp add: mem_live_def mem_insert_def is_expired_def memory_new_def)
  have m: "unix_millis (as_now sample_aside ?w1) = Ok 0"
    by (simp add: unix_millis_def mem_insert_def memory_new_def as_millis_def i64_max_def)
  have n: "Err NotFound \<noteq> (Panic :: bytes rresult)" by simp
  have p: "pack_void (as_codec sample_aside) = Ok [1]" by (simp add: plain_pack)
  from aside_absence_remembered [OF s c sample_loader(1) l n v p m] l show ?thesis by blast
qed

text \<open>a load that the lease policy refuses, or whose lease and stale window do not fit a
  \<open>Duration\<close>, fails before any effect: neither the backend nor the loader is called.\<close>

theorem aside_policy_first:
  assumes "lease_policy (as_default_ttl a) (as_require_ttl a) opts = Err e \<or>
    (\<exists>ttl. lease_policy (as_default_ttl a) (as_require_ttl a) opts = Ok ttl \<and> 0 < ttl \<and>
       0 < resolve_stale (as_default_stale a) opts \<and> duration_max < ttl + resolve_stale (as_default_stale a) opts \<and>
       e = Internal ''Aside TTL and stale window overflow Duration'')"
  shows "load_and_store a i opts w = (Err e, w)"
  using assms
  by (auto simp: load_and_store_def aside_resolve_ttl_policy freshness_of_def duration_checked_add_def io_fail_def)

theorem aside_policy_first_witness:
  "load_and_store (sample_aside\<lparr>as_default_ttl := 0\<rparr>) ''x'' options_default memory_new = (Err NoTTL, memory_new)"
  by (rule aside_policy_first) (simp add: lease_policy_def options_default_def)



text \<open>a refresh that does not get the lock, or whose lock call fails, reports success with
  the published value and neither runs the loader nor writes the entry.\<close>

theorem aside_refresh_without_load:
  assumes "as_fenced a = Some fen" "as_token a w = (token, w1)"
    and "drv_add (as_driver a) (aside_lock (as_keyspace a) i) token (as_lock_lease a) w1 = (q, w2)"
    and "q = Ok False \<or> (\<exists>e. q = Err e)"
    and "aside_read a i w2 = (Ok (StoredValue body stale), w3)"
    and "as_flight a i = (\<lambda>work. work)"
    and "lease_policy (as_default_ttl a) (as_require_ttl a) opts = Ok ttl"
    and "freshness_of ttl (resolve_stale (as_default_stale a) opts) = Ok fr"
  shows "aside_refresh (a\<lparr>as_loader := loader\<rparr>) i opts w = (Ok (), w3)"
proof -
  have "aside_claim (a\<lparr>as_loader := loader\<rparr>) i w = (Ok (Published body), w3)"
    using assms(1-5) by (auto simp: aside_claim_def Let_def)
  then have "load_and_store (a\<lparr>as_loader := loader\<rparr>) i opts w = (Ok body, w3)"
    using assms(7,8) by (simp add: load_and_store_def aside_resolve_ttl_policy io_bind_def io_ret_def)
  then show ?thesis
    using assms(6) by (simp add: aside_refresh_def load_through_flight_def io_bind_def io_ret_def)
qed

theorem aside_refresh_without_load_witness:
  "\<exists>w3. aside_refresh (sample_aside\<lparr>as_loader := (\<lambda>_ w. (Panic, w))\<rparr>) ''x'' options_default
     (snd (mem_add (aside_lock (as_keyspace sample_aside) ''x'') [8] 30 sample_loaded)) = (Ok (), w3)"
proof -
  let ?k = "aside_lock (as_keyspace sample_aside) ''x''"
  let ?w = "mem_insert ?k [8] (Some 30) sample_loaded"
  have add: "mem_add ?k [8] 30 sample_loaded = (Ok True, ?w)"
    by (simp add: mem_add_def mem_expires_at_def instant_add_def clock_max_def sample_loaded_def
        mem_insert_def memory_new_def key_simps)
  have lost: "drv_add (as_driver sample_aside) ?k [9] (as_lock_lease sample_aside) ?w = (Ok False, ?w)"
    by (simp add: memory_driver_def mem_add_def mem_expires_at_def instant_add_def clock_max_def
        sample_loaded_def mem_insert_def memory_new_def is_expired_def)
  have read: "aside_read sample_aside ''x'' ?w = (Ok (StoredValue [7] False), ?w)"
    by (simp add: aside_read_def io_bind_def memory_driver_def mem_get_def sample_loaded_def mem_insert_def
        is_expired_def memory_new_def unix_millis_def as_millis_def i64_max_def plain_unpack key_simps)
  have t: "lease_policy (as_default_ttl sample_aside) (as_require_ttl sample_aside) options_default = Ok 60"
    by (simp add: lease_policy_def options_default_def)
  have fr: "freshness_of 60 (resolve_stale (as_default_stale sample_aside) options_default) = Ok \<lparr>fresh_for = 0, hard_ttl = 60\<rparr>"
    by (simp add: freshness_of_def resolve_stale_def options_default_def)
  have fl: "as_flight sample_aside ''x'' = (\<lambda>work. work)" by (simp add: fun_eq_iff)
  from aside_refresh_without_load [OF sample_aside_fields(2) sample_aside_fields(8) lost _ read fl t fr]
  show ?thesis by (simp add: add)
qed

end
