(* ===== verification/Lifecycle.thy ===== *)
theory Lifecycle
  imports Prelude
begin

text \<open>
  Background work and shutdown: \<open>Refresher\<close> (\<open>cache/src/strategies/refresher.rs\<close>), the per-ID
  refresh claims of \<open>AsideImpl\<close> (\<open>cache/src/strategies/aside.rs\<close>) and \<open>DB::close\<close>
  (\<open>cache/src/core/database.rs\<close>), as transition systems whose steps are the atomic pieces of the
  code. A contended \<open>try_lock\<close> is an argument of the step. A panicking future unwinds its task:
  what the code would have done after it does not happen, what it owns is dropped.
\<close>

subsection \<open>Refresher\<close>

datatype refresh_task = Working | Counted

record refresher =
  rf_closed :: bool
  rf_running :: nat
  rf_slots :: nat
  rf_tasks :: "nat \<rightharpoonup> refresh_task"
  rf_next :: nat

definition refresher_new :: "nat \<Rightarrow> refresher" where
  "refresher_new limit =
     \<lparr>rf_closed = False, rf_running = 0, rf_slots = max limit 1, rf_tasks = Map.empty, rf_next = 0\<rparr>"

definition refresher_go :: "bool \<Rightarrow> refresher \<Rightarrow> bool \<times> refresher" where
  "refresher_go contended st =
     (if contended then (False, st)
      else if rf_closed st then (False, st)
      else if rf_slots st = 0 then (False, st)
      else (True, st\<lparr>rf_running := rf_running st + 1, rf_slots := rf_slots st - 1,
                     rf_tasks := (rf_tasks st)(rf_next st \<mapsto> Working), rf_next := rf_next st + 1\<rparr>))"

text \<open>The end of an admitted task: the work ended or timed out and the count is taken back under
  the lock; then the permit is dropped. A panic drops the permit only.\<close>

definition refresher_account :: "nat \<Rightarrow> refresher \<Rightarrow> refresher" where
  "refresher_account c st =
     (case rf_tasks st c of
        Some Working \<Rightarrow> st\<lparr>rf_running := rf_running st - 1, rf_tasks := (rf_tasks st)(c \<mapsto> Counted)\<rparr>
      | _ \<Rightarrow> st)"

definition refresher_drop_permit :: "nat \<Rightarrow> refresher \<Rightarrow> refresher" where
  "refresher_drop_permit c st =
     (case rf_tasks st c of
        Some Counted \<Rightarrow> st\<lparr>rf_slots := rf_slots st + 1, rf_tasks := (rf_tasks st)(c := None)\<rparr>
      | _ \<Rightarrow> st)"

definition refresher_unwind :: "nat \<Rightarrow> refresher \<Rightarrow> refresher" where
  "refresher_unwind c st =
     (case rf_tasks st c of
        Some Working \<Rightarrow> st\<lparr>rf_slots := rf_slots st + 1, rf_tasks := (rf_tasks st)(c := None)\<rparr>
      | _ \<Rightarrow> st)"

text \<open>The two pieces of \<open>drain\<close>: closing admission, and the test its loop waits for.\<close>

definition refresher_close :: "refresher \<Rightarrow> refresher" where
  "refresher_close st = st\<lparr>rf_closed := True\<rparr>"

definition refresher_idle :: "refresher \<Rightarrow> bool" where
  "refresher_idle st \<longleftrightarrow> rf_running st = 0"

definition drain_timeout_error :: "unit rresult" where
  "drain_timeout_error = Err (Internal ''cache background refreshes did not finish in time'')"

inductive refresher_step :: "refresher \<Rightarrow> refresher \<Rightarrow> bool" where
  go: "refresher_step st (snd (refresher_go contended st))"
| account: "refresher_step st (refresher_account c st)"
| drop_permit: "refresher_step st (refresher_drop_permit c st)"
| unwind: "refresher_step st (refresher_unwind c st)"
| close: "refresher_step st (refresher_close st)"

inductive_cases refresher_stepE: "refresher_step st st'"

definition working :: "refresher \<Rightarrow> nat set" where
  "working st = {c. rf_tasks st c = Some Working}"

definition refresher_inv :: "nat \<Rightarrow> refresher \<Rightarrow> bool" where
  "refresher_inv limit st \<longleftrightarrow>
     finite (dom (rf_tasks st)) \<and> rf_slots st + card (dom (rf_tasks st)) = limit \<and>
     card (working st) \<le> rf_running st \<and> (\<forall>c. rf_tasks st c \<noteq> None \<longrightarrow> c < rf_next st)"

lemma working_dom: "working st \<subseteq> dom (rf_tasks st)"
  by (auto simp: working_def)

lemma working_finite: "refresher_inv limit st \<Longrightarrow> finite (working st)"
  using finite_subset [OF working_dom] by (auto simp: refresher_inv_def)

lemma refresher_inv_new: "refresher_inv (max n 1) (refresher_new n)"
  by (simp add: refresher_inv_def refresher_new_def working_def)

lemma refresher_inv_go:
  assumes "refresher_inv limit st"
  shows "refresher_inv limit (snd (refresher_go contended st))"
proof (cases "contended \<or> rf_closed st \<or> rf_slots st = 0")
  case False
  have fin: "finite (dom (rf_tasks st))" using assms by (simp add: refresher_inv_def)
  have fresh: "rf_tasks st (rf_next st) = None" "rf_next st \<notin> working st"
    using assms unfolding refresher_inv_def working_def by fastforce+
  have "card (insert (rf_next st) (dom (rf_tasks st))) = card (dom (rf_tasks st)) + 1"
    "card (insert (rf_next st) (working st)) = card (working st) + 1"
    using fin fresh working_finite [OF assms] by (simp_all add: domIff)
  moreover have "working (snd (refresher_go contended st)) = insert (rf_next st) (working st)"
    using False by (auto simp: refresher_go_def working_def)
  ultimately show ?thesis
    using False assms by (auto simp: refresher_go_def refresher_inv_def less_Suc_eq)
qed (use assms in \<open>auto simp: refresher_go_def\<close>)

lemma card_remove_task:
  assumes "finite (dom m)" "m c \<noteq> None"
  shows "card (dom (m(c := None))) + 1 = card (dom m)"
  using assms by (metis Suc_eq_plus1 card_Suc_Diff1 domIff dom_fun_upd)

lemma refresher_inv_account:
  assumes "refresher_inv limit st"
  shows "refresher_inv limit (refresher_account c st)"
proof (cases "rf_tasks st c = Some Working")
  case True
  have w: "working (refresher_account c st) = working st - {c}" "c \<in> working st"
    using True by (auto simp: refresher_account_def working_def)
  have "dom ((rf_tasks st)(c \<mapsto> Counted)) = dom (rf_tasks st)" using True by auto
  with w True assms working_finite [OF assms] show ?thesis
    by (auto simp: refresher_account_def refresher_inv_def)
next
  case False
  then have "refresher_account c st = st"
    by (auto simp: refresher_account_def split: option.splits refresh_task.splits)
  with assms show ?thesis by simp
qed

lemma refresher_inv_drop_permit:
  assumes "refresher_inv limit st"
  shows "refresher_inv limit (refresher_drop_permit c st)"
proof (cases "rf_tasks st c = Some Counted")
  case True
  have "working (refresher_drop_permit c st) = working st"
    using True by (auto simp: refresher_drop_permit_def working_def)
  with True assms card_remove_task [of "rf_tasks st" c] show ?thesis
    by (auto simp: refresher_drop_permit_def refresher_inv_def)
next
  case False
  then have "refresher_drop_permit c st = st"
    by (auto simp: refresher_drop_permit_def split: option.splits refresh_task.splits)
  with assms show ?thesis by simp
qed

lemma refresher_inv_unwind:
  assumes "refresher_inv limit st"
  shows "refresher_inv limit (refresher_unwind c st)"
proof (cases "rf_tasks st c = Some Working")
  case True
  have "working (refresher_unwind c st) = working st - {c}"
    using True by (auto simp: refresher_unwind_def working_def)
  moreover have "card (working st - {c}) \<le> card (working st)" by (rule card_Diff1_le)
  ultimately show ?thesis
    using True assms card_remove_task [of "rf_tasks st" c]
    by (auto simp: refresher_unwind_def refresher_inv_def)
next
  case False
  then have "refresher_unwind c st = st"
    by (auto simp: refresher_unwind_def split: option.splits refresh_task.splits)
  with assms show ?thesis by simp
qed

lemma refresher_inv_step: "refresher_step st st' \<Longrightarrow> refresher_inv limit st \<Longrightarrow> refresher_inv limit st'"
  by (elim refresher_stepE)
    (simp_all add: refresher_inv_go refresher_inv_account refresher_inv_drop_permit refresher_inv_unwind,
      simp add: refresher_inv_def refresher_close_def working_def)

lemma refresher_inv_reachable: "refresher_step\<^sup>*\<^sup>* (refresher_new n) st \<Longrightarrow> refresher_inv (max n 1) st"
  by (induction rule: rtranclp_induct) (simp_all add: refresher_inv_new refresher_inv_step del: One_nat_def)

text \<open>After closing no task starts: the set of working tasks only shrinks.\<close>

lemma refresher_closed_step:
  assumes "refresher_step st st'" "rf_closed st"
  shows "rf_closed st' \<and> working st' \<subseteq> working st"
  using assms
  by (elim refresher_stepE)
    (auto simp: refresher_go_def refresher_account_def refresher_drop_permit_def refresher_unwind_def
      refresher_close_def working_def split: option.splits refresh_task.splits if_splits)

lemma refresher_closed_star:
  "refresher_step\<^sup>*\<^sup>* st st' \<Longrightarrow> rf_closed st \<Longrightarrow> rf_closed st' \<and> working st' \<subseteq> working st"
  by (induction rule: rtranclp_induct) (auto dest: refresher_closed_step)

lemma refresher_idle_working: "refresher_inv limit st \<Longrightarrow> refresher_idle st \<Longrightarrow> working st = {}"
  using working_finite [of limit st] by (auto simp: refresher_inv_def refresher_idle_def)

subsection \<open>Refresh claims\<close>

text \<open>
  \<open>refresh_in_background\<close> and \<open>RefreshClaim\<close>: the set of claimed identifiers, which admitted task
  owns which claim, and the cleanups that were spawned because a lock was busy or admission
  was refused.
\<close>

record background =
  bg_refresher :: refresher
  bg_claims :: "string set"
  bg_owner :: "nat \<rightharpoonup> string"
  bg_cleanups :: "string list"

definition background_new :: "nat \<Rightarrow> background" where
  "background_new limit =
     \<lparr>bg_refresher = refresher_new limit, bg_claims = {}, bg_owner = Map.empty, bg_cleanups = []\<rparr>"

definition refresh_in_background :: "bool \<Rightarrow> bool \<Rightarrow> string \<Rightarrow> background \<Rightarrow> bool \<times> background" where
  "refresh_in_background claims_busy state_busy i b =
     (if claims_busy then (False, b)
      else if i \<in> bg_claims b then (False, b)
      else let claimed = b\<lparr>bg_claims := insert i (bg_claims b)\<rparr>;
               (admitted, rf) = refresher_go state_busy (bg_refresher b)
           in if admitted
              then (True, claimed\<lparr>bg_refresher := rf,
                      bg_owner := (bg_owner b)(rf_next (bg_refresher b) \<mapsto> i)\<rparr>)
              else (False, claimed\<lparr>bg_cleanups := bg_cleanups b @ [i]\<rparr>))"

text \<open>\<open>RefreshClaim::drop\<close>, when the refresh ends, times out or unwinds.\<close>

definition claim_drop :: "bool \<Rightarrow> nat \<Rightarrow> background \<Rightarrow> background" where
  "claim_drop busy c b =
     (case bg_owner b c of
        None \<Rightarrow> b
      | Some i \<Rightarrow>
          if \<not> busy then b\<lparr>bg_claims := bg_claims b - {i}, bg_owner := (bg_owner b)(c := None)\<rparr>
          else b\<lparr>bg_cleanups := bg_cleanups b @ [i], bg_owner := (bg_owner b)(c := None)\<rparr>)"

text \<open>A spawned cleanup gets the lock; they may run in any order.\<close>

definition claim_cleanup :: "string \<Rightarrow> background \<Rightarrow> background" where
  "claim_cleanup i b =
     (if i \<in> set (bg_cleanups b)
      then b\<lparr>bg_claims := bg_claims b - {i}, bg_cleanups := remove1 i (bg_cleanups b)\<rparr>
      else b)"

inductive background_step :: "background \<Rightarrow> background \<Rightarrow> bool" where
  request: "background_step b (snd (refresh_in_background claims_busy state_busy i b))"
| dropped: "background_step b (claim_drop busy c b)"
| cleanup: "background_step b (claim_cleanup i b)"
| budget: "refresher_step (bg_refresher b) rf \<Longrightarrow> rf_next rf = rf_next (bg_refresher b) \<Longrightarrow>
    background_step b (b\<lparr>bg_refresher := rf\<rparr>)"

inductive_cases background_stepE: "background_step b b'"

definition claims_inv :: "background \<Rightarrow> bool" where
  "claims_inv b \<longleftrightarrow>
     bg_claims b = ran (bg_owner b) \<union> set (bg_cleanups b) \<and> ran (bg_owner b) \<inter> set (bg_cleanups b) = {} \<and>
     distinct (bg_cleanups b) \<and> inj_on (bg_owner b) (dom (bg_owner b)) \<and>
     (\<forall>c. bg_owner b c \<noteq> None \<longrightarrow> c < rf_next (bg_refresher b))"

lemma refresher_go_next: "refresher_go busy st = (adm, st') \<Longrightarrow> rf_next st \<le> rf_next st' \<and> (adm \<longrightarrow> rf_next st' = rf_next st + 1)"
  by (auto simp: refresher_go_def split: if_splits)

lemma claims_inv_request:
  assumes "claims_inv b"
  shows "claims_inv (snd (refresh_in_background claims_busy state_busy i b))"
proof (cases "claims_busy \<or> i \<in> bg_claims b")
  case False
  obtain adm rf where g: "refresher_go state_busy (bg_refresher b) = (adm, rf)" by fastforce
  have fresh: "bg_owner b (rf_next (bg_refresher b)) = None"
    using assms unfolding claims_inv_def by (metis less_irrefl)
  have new: "i \<notin> ran (bg_owner b)" "i \<notin> set (bg_cleanups b)"
    using assms False by (auto simp: claims_inv_def)
  show ?thesis
  proof (cases adm)
    case True
    with refresher_go_next [OF g] have n: "rf_next rf = rf_next (bg_refresher b) + 1" by simp
    let ?o = "(bg_owner b)(rf_next (bg_refresher b) \<mapsto> i)"
    have "inj_on ?o (dom ?o)"
      using assms new(1) by (auto simp: claims_inv_def inj_on_def ran_def)
    moreover have "ran ?o = insert i (ran (bg_owner b))" using fresh by simp
    ultimately show ?thesis
      using False True g n assms new
      by (auto simp: refresh_in_background_def claims_inv_def Let_def less_Suc_eq)
  next
    case False
    with \<open>\<not> (claims_busy \<or> i \<in> bg_claims b)\<close> g assms new show ?thesis
      by (auto simp: refresh_in_background_def claims_inv_def Let_def)
  qed
qed (use assms in \<open>auto simp: refresh_in_background_def\<close>)

lemma claims_inv_drop:
  assumes "claims_inv b"
  shows "claims_inv (claim_drop busy c b)"
proof (cases "bg_owner b c")
  case None
  with assms show ?thesis by (simp add: claim_drop_def)
next
  case (Some i)
  have "ran ((bg_owner b)(c := None)) = ran (bg_owner b) - {i}"
  proof -
    have "bg_owner b c' \<noteq> Some i" if "c' \<noteq> c" for c'
      using assms Some that unfolding claims_inv_def inj_on_def by (metis domI)
    then have "(\<exists>c'. ((bg_owner b)(c := None)) c' = Some x) \<longleftrightarrow> (\<exists>c'. bg_owner b c' = Some x) \<and> x \<noteq> i" for x
      using Some by (metis fun_upd_apply option.distinct(1) option.inject)
    then show ?thesis by (auto simp: ran_def)
  qed
  moreover have "i \<in> ran (bg_owner b)" using Some by (auto simp: ran_def)
  moreover have "inj_on ((bg_owner b)(c := None)) (dom ((bg_owner b)(c := None)))"
    using assms by (auto simp: claims_inv_def inj_on_def)
  ultimately show ?thesis
    using assms Some by (auto simp: claim_drop_def claims_inv_def)
qed

lemma claims_inv_cleanup:
  assumes "claims_inv b"
  shows "claims_inv (claim_cleanup i b)"
  using assms by (auto simp: claim_cleanup_def claims_inv_def)

lemma claims_inv_reachable: "background_step\<^sup>*\<^sup>* (background_new n) b \<Longrightarrow> claims_inv b"
proof (induction rule: rtranclp_induct)
  case base
  show ?case by (simp add: claims_inv_def background_new_def)
next
  case (step b b')
  from step.hyps(2) step.IH show ?case
    by (elim background_stepE)
      (auto simp: claims_inv_request claims_inv_drop claims_inv_cleanup, auto simp: claims_inv_def)
qed

subsection \<open>Closing a database\<close>

datatype close_channel = ClosePending | CloseDone "unit rresult" | CloseLost

datatype closer =
    Starting bool
  | Draining bool
  | Drained "unit rresult" bool
  | Combined "unit rresult"

record lifecycle =
  lf_refresher :: refresher
  lf_release :: bool
  lf_receiver :: "close_channel option"
  lf_closer :: "closer option"
  lf_released :: nat

definition lifecycle_new :: "nat \<Rightarrow> bool \<Rightarrow> lifecycle" where
  "lifecycle_new limit release =
     \<lparr>lf_refresher = refresher_new limit, lf_release = release, lf_receiver = None,
      lf_closer = None, lf_released = 0\<rparr>"

text \<open>\<open>Display\<close> of the error enum.\<close>

fun show_error :: "cache_error \<Rightarrow> string" where
  "show_error NotFound = ''cache: not found''"
| "show_error Unsupported = ''cache: unsupported by this backend''"
| "show_error NoTTL = ''cache: no expiry, and this cache requires one''"
| "show_error Overloaded = ''cache: too many concurrent loads''"
| "show_error (PartialDelete n source) =
     ''cache: database drop failed after deleting '' @ show_nat n @ '' keys: '' @ show_error source"
| "show_error (Internal msg) = ''cache: '' @ msg"

fun combine_close_results :: "unit rresult \<Rightarrow> unit rresult \<Rightarrow> unit rresult" where
  "combine_close_results (Ok _) (Ok _) = Ok ()"
| "combine_close_results (Err e) (Ok _) = Err e"
| "combine_close_results (Ok _) (Err e) = Err e"
| "combine_close_results (Err d) (Err r) =
     Err (Internal (''database close failed while draining ('' @ show_error d
       @ '') and releasing ('' @ show_error r @ '')''))"
| "combine_close_results _ _ = Panic"

definition close_enter :: "lifecycle \<Rightarrow> lifecycle" where
  "close_enter st =
     (case lf_receiver st of
        Some _ \<Rightarrow> st
      | None \<Rightarrow> st\<lparr>lf_release := False, lf_receiver := Some ClosePending,
                    lf_closer := Some (Starting (lf_release st))\<rparr>)"

text \<open>The spawned task: close admission and test, wait for idleness, give up after the limit.\<close>

definition drain_start :: "lifecycle \<Rightarrow> lifecycle" where
  "drain_start st =
     (case lf_closer st of
        Some (Starting release) \<Rightarrow>
          st\<lparr>lf_refresher := refresher_close (lf_refresher st),
             lf_closer := Some (if refresher_idle (lf_refresher st) then Drained (Ok ()) release
                                else Draining release)\<rparr>
      | _ \<Rightarrow> st)"

definition drain_check :: "lifecycle \<Rightarrow> lifecycle" where
  "drain_check st =
     (case lf_closer st of
        Some (Draining release) \<Rightarrow>
          if refresher_idle (lf_refresher st) then st\<lparr>lf_closer := Some (Drained (Ok ()) release)\<rparr>
          else st
      | _ \<Rightarrow> st)"

definition drain_expire :: "lifecycle \<Rightarrow> lifecycle" where
  "drain_expire st =
     (case lf_closer st of
        Some (Draining release) \<Rightarrow> st\<lparr>lf_closer := Some (Drained drain_timeout_error release)\<rparr>
      | _ \<Rightarrow> st)"

text \<open>The release callback, if there is one, returns \<open>outcome\<close> (or panics).\<close>

definition release_run :: "unit rresult \<Rightarrow> lifecycle \<Rightarrow> lifecycle" where
  "release_run outcome st =
     (case lf_closer st of
        Some (Drained d True) \<Rightarrow>
          (if outcome = Panic
           then st\<lparr>lf_closer := None, lf_receiver := Some CloseLost, lf_released := lf_released st + 1\<rparr>
           else st\<lparr>lf_closer := Some (Combined (combine_close_results d outcome)),
                   lf_released := lf_released st + 1\<rparr>)
      | Some (Drained d False) \<Rightarrow>
          st\<lparr>lf_closer := Some (Combined (combine_close_results d (Ok ())))\<rparr>
      | _ \<Rightarrow> st)"

definition close_publish :: "lifecycle \<Rightarrow> lifecycle" where
  "close_publish st =
     (case lf_closer st of
        Some (Combined r) \<Rightarrow> st\<lparr>lf_receiver := Some (CloseDone r), lf_closer := None\<rparr>
      | _ \<Rightarrow> st)"

definition close_wait :: "lifecycle \<Rightarrow> unit rresult option" where
  "close_wait st =
     (case lf_receiver st of
        Some (CloseDone r) \<Rightarrow> Some r
      | Some CloseLost \<Rightarrow> Some (Err (Internal ''database close ended without publishing a result''))
      | _ \<Rightarrow> None)"

inductive lifecycle_step :: "lifecycle \<Rightarrow> lifecycle \<Rightarrow> bool" where
  enter: "lifecycle_step st (close_enter st)"
| start: "lifecycle_step st (drain_start st)"
| check: "lifecycle_step st (drain_check st)"
| expire: "lifecycle_step st (drain_expire st)"
| run: "lifecycle_step st (release_run outcome st)"
| publish: "lifecycle_step st (close_publish st)"
| background: "refresher_step (lf_refresher st) rf \<Longrightarrow> lifecycle_step st (st\<lparr>lf_refresher := rf\<rparr>)"

inductive_cases lifecycle_stepE: "lifecycle_step st st'"

lemma combine_close_Ok: "combine_close_results d r = Ok u \<longleftrightarrow> d = Ok () \<and> r = Ok ()"
  by (cases d; cases r) simp_all

lemma combine_not_Panic: "d \<noteq> Panic \<Longrightarrow> r \<noteq> Panic \<Longrightarrow> combine_close_results d r \<noteq> Panic"
  by (cases d; cases r) simp_all

text \<open>Whether the closing task still holds the callback.\<close>

fun holds_release :: "closer option \<Rightarrow> bool" where
  "holds_release (Some (Starting b)) = b"
| "holds_release (Some (Draining b)) = b"
| "holds_release (Some (Drained d b)) = b"
| "holds_release _ = False"

definition drained_ok :: "lifecycle \<Rightarrow> bool" where
  "drained_ok st \<longleftrightarrow> (\<exists>b. lf_closer st = Some (Drained (Ok ()) b)) \<or> lf_closer st = Some (Combined (Ok ())) \<or>
     lf_receiver st = Some (CloseDone (Ok ()))"

definition lifecycle_inv :: "nat \<Rightarrow> bool \<Rightarrow> lifecycle \<Rightarrow> bool" where
  "lifecycle_inv limit present st \<longleftrightarrow>
     refresher_inv limit (lf_refresher st) \<and>
     lf_released st + of_bool (lf_release st) + of_bool (holds_release (lf_closer st)) = of_bool present \<and>
     (lf_closer st \<noteq> None \<longleftrightarrow> lf_receiver st = Some ClosePending) \<and>
     (lf_receiver st \<noteq> None \<longrightarrow> \<not> lf_release st) \<and>
     (\<forall>b. lf_closer st = Some (Draining b) \<longrightarrow> rf_closed (lf_refresher st)) \<and>
     (drained_ok st \<longrightarrow> rf_closed (lf_refresher st) \<and> working (lf_refresher st) = {})"

lemma lifecycle_inv_new: "lifecycle_inv (max n 1) present (lifecycle_new n present)"
  using refresher_inv_new [of n] by (simp add: lifecycle_inv_def lifecycle_new_def drained_ok_def)

lemma refresher_inv_close: "refresher_inv limit st \<Longrightarrow> refresher_inv limit (refresher_close st)"
  by (simp add: refresher_inv_def refresher_close_def working_def)

lemma lifecycle_inv_background:
  assumes "lifecycle_inv limit present st" "refresher_step (lf_refresher st) rf"
  shows "lifecycle_inv limit present (st\<lparr>lf_refresher := rf\<rparr>)"
  using assms refresher_inv_step [OF assms(2), of limit] refresher_closed_step [OF assms(2)]
  by (auto simp: lifecycle_inv_def drained_ok_def)

lemma lifecycle_inv_enter: "lifecycle_inv limit present st \<Longrightarrow> lifecycle_inv limit present (close_enter st)"
  by (cases present; cases "lf_release st")
    (auto simp: lifecycle_inv_def close_enter_def drained_ok_def split: option.splits)

lemma lifecycle_inv_start:
  assumes "lifecycle_inv limit present st"
  shows "lifecycle_inv limit present (drain_start st)"
proof (cases "\<exists>b. lf_closer st = Some (Starting b)")
  case True
  then obtain b where b: "lf_closer st = Some (Starting b)" by blast
  have w: "working (refresher_close (lf_refresher st)) = working (lf_refresher st)"
    "rf_closed (refresher_close (lf_refresher st))"
    by (simp_all add: refresher_close_def working_def)
  show ?thesis
    using assms b refresher_inv_close [of limit "lf_refresher st"] refresher_idle_working [of limit "lf_refresher st"] w
    by (cases b; cases present) (simp_all add: lifecycle_inv_def drain_start_def drained_ok_def)
next
  case False
  then have "drain_start st = st" by (auto simp: drain_start_def split: option.splits closer.splits)
  with assms show ?thesis by simp
qed

lemma lifecycle_inv_drain:
  assumes "lifecycle_inv limit present st"
  shows "lifecycle_inv limit present (drain_check st)" "lifecycle_inv limit present (drain_expire st)"
proof -
  have "lifecycle_inv limit present (drain_check st) \<and> lifecycle_inv limit present (drain_expire st)"
  proof (cases "\<exists>b. lf_closer st = Some (Draining b)")
    case True
    then obtain b where "lf_closer st = Some (Draining b)" by blast
    with assms refresher_idle_working [of limit "lf_refresher st"] show ?thesis
      by (cases b; cases present) (simp_all add: lifecycle_inv_def drain_check_def drain_expire_def drain_timeout_error_def drained_ok_def)
  next
    case False
    then have "drain_check st = st" "drain_expire st = st"
      by (auto simp: drain_check_def drain_expire_def split: option.splits closer.splits)
    with assms show ?thesis by simp
  qed
  then show "lifecycle_inv limit present (drain_check st)" "lifecycle_inv limit present (drain_expire st)"
    by simp_all
qed

lemma lifecycle_inv_run:
  assumes "lifecycle_inv limit present st"
  shows "lifecycle_inv limit present (release_run outcome st)"
proof (cases "\<exists>d b. lf_closer st = Some (Drained d b)")
  case True
  then obtain d b where "lf_closer st = Some (Drained d b)" by blast
  with assms show ?thesis
    by (cases b; cases present) (auto simp: lifecycle_inv_def release_run_def drained_ok_def combine_close_Ok)
next
  case False
  then have "release_run outcome st = st" by (auto simp: release_run_def split: option.splits closer.splits)
  with assms show ?thesis by simp
qed

lemma lifecycle_inv_publish:
  assumes "lifecycle_inv limit present st"
  shows "lifecycle_inv limit present (close_publish st)"
proof (cases "\<exists>r. lf_closer st = Some (Combined r)")
  case True
  then obtain r where "lf_closer st = Some (Combined r)" by blast
  with assms show ?thesis
    by (cases present; cases "r = Ok ()") (simp_all add: lifecycle_inv_def close_publish_def drained_ok_def)
next
  case False
  then have "close_publish st = st" by (auto simp: close_publish_def split: option.splits closer.splits)
  with assms show ?thesis by simp
qed

lemmas lifecycle_inv_rules = lifecycle_inv_enter lifecycle_inv_start lifecycle_inv_drain lifecycle_inv_run
  lifecycle_inv_publish lifecycle_inv_background

lemma lifecycle_inv_step: "lifecycle_step st st' \<Longrightarrow> lifecycle_inv limit present st \<Longrightarrow> lifecycle_inv limit present st'"
  by (elim lifecycle_stepE) (simp_all add: lifecycle_inv_rules)

lemma lifecycle_inv_reachable:
  "lifecycle_step\<^sup>*\<^sup>* (lifecycle_new n present) st \<Longrightarrow> lifecycle_inv (max n 1) present st"
  by (induction rule: rtranclp_induct) (simp_all add: lifecycle_inv_new lifecycle_inv_step del: One_nat_def)

lemma close_result_final:
  assumes "lifecycle_step st st'" "lifecycle_inv limit present st" "close_wait st = Some r"
  shows "close_wait st' = Some r"
proof -
  have "lf_closer st = None" using assms(2,3) by (auto simp: lifecycle_inv_def close_wait_def split: option.splits close_channel.splits)
  moreover have "lf_receiver st \<noteq> None" using assms(3) by (auto simp: close_wait_def split: option.splits)
  ultimately show ?thesis
    using assms(1,3)
    by (elim lifecycle_stepE)
      (auto simp: close_wait_def close_enter_def drain_start_def drain_check_def drain_expire_def
        release_run_def close_publish_def)
qed

lemma close_result_final_star:
  assumes "lifecycle_step\<^sup>*\<^sup>* st st'" "lifecycle_inv limit present st" "close_wait st = Some r"
  shows "lifecycle_inv limit present st' \<and> close_wait st' = Some r"
  using assms by (induction rule: rtranclp_induct) (auto intro: lifecycle_inv_step close_result_final)

subsection \<open>Properties\<close>

text \<open>the refresh budget. In every reachable state the admitted tasks and the free slots add up
  to the limit (at least one), the running count is never below the number of working tasks, and
  after closing nothing is admitted.\<close>

theorem refresher_budget:
  assumes "refresher_step\<^sup>*\<^sup>* (refresher_new n) st"
  shows "rf_slots st + card (dom (rf_tasks st)) = max n 1 \<and> card (working st) \<le> rf_running st \<and>
    (rf_closed st \<longrightarrow> refresher_go contended st = (False, st))"
  using refresher_inv_reachable [OF assms] by (simp add: refresher_inv_def refresher_go_def)

theorem refresher_budget_witness:
  "refresher_go False (refresher_close (snd (refresher_go False (refresher_new 0)))) =
     (False, refresher_close (snd (refresher_go False (refresher_new 0))))"
proof -
  have "refresher_step\<^sup>*\<^sup>* (refresher_new 0) (refresher_close (snd (refresher_go False (refresher_new 0))))"
    using rtranclp.rtrancl_into_rtrancl [OF r_into_rtranclp [where r = refresher_step, OF refresher_step.go] refresher_step.close]
    by blast
  from refresher_budget [OF this, of False] show ?thesis by (simp add: refresher_close_def)
qed

text \<open>a stale identifier is refreshed by at most one task at a time and is never blocked for
  ever: in every reachable state each claimed identifier has exactly one owner, either an admitted
  refresh that will drop the claim or a cleanup already spawned for it.\<close>

theorem refresh_claims_owned:
  assumes "background_step\<^sup>*\<^sup>* (background_new n) b"
  shows "bg_claims b = ran (bg_owner b) \<union> set (bg_cleanups b) \<and>
    ran (bg_owner b) \<inter> set (bg_cleanups b) = {} \<and> distinct (bg_cleanups b) \<and>
    (\<forall>c1 c2 i. bg_owner b c1 = Some i \<and> bg_owner b c2 = Some i \<longrightarrow> c1 = c2)"
proof -
  have "claims_inv b" by (rule claims_inv_reachable [OF assms])
  moreover from this have "c1 = c2" if "bg_owner b c1 = Some i" "bg_owner b c2 = Some i" for c1 c2 i
    using that unfolding claims_inv_def inj_on_def by (metis domI)
  ultimately show ?thesis unfolding claims_inv_def by blast
qed

theorem refresh_claims_owned_witness:
  "bg_claims (snd (refresh_in_background False False ''a'' (background_new 1))) = {''a''}"
proof -
  let ?b = "snd (refresh_in_background False False ''a'' (background_new 1))"
  have "background_step\<^sup>*\<^sup>* (background_new 1) ?b"
    by (rule r_into_rtranclp) (rule background_step.request)
  moreover have "bg_owner ?b = [0 \<mapsto> ''a'']" "bg_cleanups ?b = []"
    by (simp_all add: refresh_in_background_def background_new_def refresher_go_def refresher_new_def)
  ultimately show ?thesis using refresh_claims_owned [of 1 ?b] by simp
qed


definition sample_closed :: lifecycle where
  "sample_closed = close_publish (release_run (Ok ()) (drain_start (close_enter (lifecycle_new 4 True))))"

lemma sample_closed_reachable: "lifecycle_step\<^sup>*\<^sup>* (lifecycle_new 4 True) sample_closed"
  unfolding sample_closed_def
  by (rule rtranclp.rtrancl_into_rtrancl [rotated], rule lifecycle_step.publish,
      rule rtranclp.rtrancl_into_rtrancl [rotated], rule lifecycle_step.run,
      rule rtranclp.rtrancl_into_rtrancl [rotated], rule lifecycle_step.start,
      rule r_into_rtranclp, rule lifecycle_step.enter)

lemma sample_closed_wait: "close_wait sample_closed = Some (Ok ())"
  by (simp add: sample_closed_def close_publish_def release_run_def drain_start_def close_enter_def
      lifecycle_new_def refresher_new_def refresher_idle_def close_wait_def)


text \<open>closing is idempotent: every caller, concurrent or later, sees the result that was
  published first.\<close>

theorem close_same_result:
  assumes "lifecycle_step\<^sup>*\<^sup>* (lifecycle_new n present) st" "close_wait st = Some r"
    and "lifecycle_step\<^sup>*\<^sup>* st st'"
  shows "close_wait (close_enter st') = Some r"
proof -
  have "lifecycle_step\<^sup>*\<^sup>* st (close_enter st')"
    by (rule rtranclp.rtrancl_into_rtrancl [OF assms(3) lifecycle_step.enter])
  from close_result_final_star [OF this lifecycle_inv_reachable [OF assms(1)] assms(2)] show ?thesis by simp
qed

theorem close_same_result_witness: "close_wait (close_enter sample_closed) = Some (Ok ())"
  by (rule close_same_result [OF sample_closed_reachable sample_closed_wait rtranclp.rtrancl_refl])

end
