(* ===== verification/Flight.thy ===== *)
theory Flight
  imports Prelude
begin

text \<open>
  In-process single-flight coordination: \<open>Flight\<close> of \<open>cache/src/strategies/flight.rs\<close>.

  The state is the map from keys to result channels, the free permits, the channels and the
  detached tasks. Each function is one atomic piece of the code: the critical section of
  \<open>run\<close>, the end of the work future (or its timeout, or its panic, which unwinds the task and
  drops sender and permit), removal of the map entry, publication, return of the permit, and one
  round of a waiter's loop. \<open>flight_step\<close> interleaves them in any order; the properties hold in every
  reachable state.
\<close>

datatype channel = Pending | Done "bytes rresult" | Closed

datatype flight_task =
    Running string
  | Finished string "bytes rresult"
  | Unregistered "bytes rresult"
  | Notified

record flight =
  fl_calls :: "string \<rightharpoonup> nat"
  fl_permits :: nat
  fl_channels :: "nat \<rightharpoonup> channel"
  fl_tasks :: "nat \<rightharpoonup> flight_task"
  fl_next :: nat

definition flight_new :: "nat \<Rightarrow> flight" where
  "flight_new concurrency =
     \<lparr>fl_calls = Map.empty, fl_permits = max concurrency 1, fl_channels = Map.empty,
      fl_tasks = Map.empty, fl_next = 0\<rparr>"

text \<open>The critical section of \<open>run\<close>: join, refuse, or publish a new call and spawn its task.\<close>

definition flight_enter :: "string \<Rightarrow> flight \<Rightarrow> nat rresult \<times> flight" where
  "flight_enter key st =
     (case fl_calls st key of
        Some c \<Rightarrow> (Ok c, st)
      | None \<Rightarrow>
          if fl_permits st = 0 then (Err Overloaded, st)
          else (Ok (fl_next st),
                st\<lparr>fl_permits := fl_permits st - 1,
                   fl_channels := (fl_channels st)(fl_next st \<mapsto> Pending),
                   fl_calls := (fl_calls st)(key \<mapsto> fl_next st),
                   fl_tasks := (fl_tasks st)(fl_next st \<mapsto> Running key),
                   fl_next := fl_next st + 1\<rparr>))"

text \<open>The work future ends: \<open>None\<close> is the timeout, \<open>Some Panic\<close> an unwinding task.\<close>

definition flight_finish :: "nat \<Rightarrow> bytes rresult option \<Rightarrow> flight \<Rightarrow> flight" where
  "flight_finish c outcome st =
     (case fl_tasks st c of
        Some (Running key) \<Rightarrow>
          (case outcome of
             None \<Rightarrow>
               st\<lparr>fl_tasks := (fl_tasks st)(c \<mapsto> Finished key (Err (Internal ''cache load timed out'')))\<rparr>
           | Some Panic \<Rightarrow>
               st\<lparr>fl_tasks := (fl_tasks st)(c := None),
                  fl_channels := (fl_channels st)(c \<mapsto> Closed),
                  fl_permits := fl_permits st + 1\<rparr>
           | Some r \<Rightarrow> st\<lparr>fl_tasks := (fl_tasks st)(c \<mapsto> Finished key r)\<rparr>)
      | _ \<Rightarrow> st)"

definition flight_unregister :: "nat \<Rightarrow> flight \<Rightarrow> flight" where
  "flight_unregister c st =
     (case fl_tasks st c of
        Some (Finished key r) \<Rightarrow>
          st\<lparr>fl_calls := (fl_calls st)(key := None),
             fl_tasks := (fl_tasks st)(c \<mapsto> Unregistered r)\<rparr>
      | _ \<Rightarrow> st)"

definition flight_publish :: "nat \<Rightarrow> flight \<Rightarrow> flight" where
  "flight_publish c st =
     (case fl_tasks st c of
        Some (Unregistered r) \<Rightarrow>
          st\<lparr>fl_channels := (fl_channels st)(c \<mapsto> Done r),
             fl_tasks := (fl_tasks st)(c \<mapsto> Notified)\<rparr>
      | _ \<Rightarrow> st)"

definition flight_release :: "nat \<Rightarrow> flight \<Rightarrow> flight" where
  "flight_release c st =
     (case fl_tasks st c of
        Some Notified \<Rightarrow>
          st\<lparr>fl_permits := fl_permits st + 1, fl_tasks := (fl_tasks st)(c := None)\<rparr>
      | _ \<Rightarrow> st)"

text \<open>One round of the waiter's loop: \<open>None\<close> means it goes on waiting.\<close>

definition flight_wait :: "nat \<Rightarrow> flight \<Rightarrow> bytes rresult option" where
  "flight_wait c st =
     (case fl_channels st c of
        Some (Done r) \<Rightarrow> Some r
      | Some Pending \<Rightarrow> None
      | _ \<Rightarrow> Some (Err (Internal ''cache load ended without publishing a result'')))"

inductive flight_step :: "flight \<Rightarrow> flight \<Rightarrow> bool" where
  enter: "flight_step st (snd (flight_enter key st))"
| finish: "flight_step st (flight_finish c outcome st)"
| unregister: "flight_step st (flight_unregister c st)"
| publish: "flight_step st (flight_publish c st)"
| release: "flight_step st (flight_release c st)"

inductive_cases flight_stepE: "flight_step st st'"

lemma flight_reach:
  assumes "flight_step\<^sup>*\<^sup>* s t"
  shows "flight_step\<^sup>*\<^sup>* s (snd (flight_enter key t))" "flight_step\<^sup>*\<^sup>* s (flight_finish c outcome t)"
    "flight_step\<^sup>*\<^sup>* s (flight_unregister c t)" "flight_step\<^sup>*\<^sup>* s (flight_publish c t)"
    "flight_step\<^sup>*\<^sup>* s (flight_release c t)"
  using assms by (auto intro: rtranclp.rtrancl_into_rtrancl flight_step.intros)

subsection \<open>The invariant\<close>

text \<open>
  Permits are conserved; a task that is still registered is the one its key maps to; a channel is
  open exactly while its task has not published; channels and tasks are numbered below \<open>fl_next\<close>.
\<close>

definition flight_inv :: "nat \<Rightarrow> flight \<Rightarrow> bool" where
  "flight_inv limit st \<longleftrightarrow>
     finite (dom (fl_tasks st)) \<and> fl_permits st + card (dom (fl_tasks st)) = limit \<and>
     (\<forall>c key. fl_tasks st c = Some (Running key) \<longrightarrow> fl_calls st key = Some c) \<and>
     (\<forall>c key r. fl_tasks st c = Some (Finished key r) \<longrightarrow> fl_calls st key = Some c) \<and>
     (\<forall>c. fl_channels st c = Some Pending \<longleftrightarrow>
        (\<exists>t. fl_tasks st c = Some t \<and> t \<noteq> Notified)) \<and>
     (\<forall>c. fl_tasks st c \<noteq> None \<longrightarrow> c < fl_next st) \<and>
     (\<forall>c. fl_channels st c \<noteq> None \<longleftrightarrow> c < fl_next st) \<and>
     (\<forall>key c. fl_calls st key = Some c \<longrightarrow> c < fl_next st)"

lemma flight_inv_new: "flight_inv (max n 1) (flight_new n)"
  by (simp add: flight_inv_def flight_new_def)

lemma card_dom_update: "finite (dom m) \<Longrightarrow> m c \<noteq> None \<Longrightarrow> card (dom (m(c := None))) + 1 = card (dom m)"
  by (metis Suc_eq_plus1 card_Suc_Diff1 domIff dom_fun_upd)

lemma flight_inv_enter:
  assumes "flight_inv limit st"
  shows "flight_inv limit (snd (flight_enter key st))"
proof (cases "fl_calls st key = None \<and> fl_permits st \<noteq> 0")
  case True
  have fresh: "fl_tasks st (fl_next st) = None" "fl_channels st (fl_next st) = None"
    using assms unfolding flight_inv_def by (metis less_irrefl)+
  have idle: "fl_tasks st c \<noteq> Some (Running key)" "fl_tasks st c \<noteq> Some (Finished key r)" for c r
    using assms True unfolding flight_inv_def by (metis option.distinct(1))+
  have "finite (dom (fl_tasks st))" using assms by (simp add: flight_inv_def)
  then have "card (insert (fl_next st) (dom (fl_tasks st))) = card (dom (fl_tasks st)) + 1"
    using fresh(1) by (simp add: domIff)
  with True fresh idle assms show ?thesis
    unfolding flight_inv_def flight_enter_def by (auto simp: less_Suc_eq)
next
  case False
  with assms show ?thesis by (auto simp: flight_enter_def split: option.splits)
qed

lemma flight_inv_finish:
  assumes "flight_inv limit st"
  shows "flight_inv limit (flight_finish c outcome st)"
proof (cases "\<exists>key. fl_tasks st c = Some (Running key)")
  case True
  then obtain key where t: "fl_tasks st c = Some (Running key)" by blast
  have fin: "finite (dom (fl_tasks st))" using assms by (simp add: flight_inv_def)
  show ?thesis
  proof (cases "outcome = Some Panic")
    case True
    have "card (dom ((fl_tasks st)(c := None))) + 1 = card (dom (fl_tasks st))"
      by (rule card_dom_update) (use fin t in simp_all)
    with True t assms show ?thesis
      unfolding flight_inv_def flight_finish_def by (auto split: if_splits)
  next
    case False
    then obtain r where r: "flight_finish c outcome st = st\<lparr>fl_tasks := (fl_tasks st)(c \<mapsto> Finished key r)\<rparr>"
      using t by (cases outcome; cases "the outcome") (auto simp: flight_finish_def)
    have "dom ((fl_tasks st)(c \<mapsto> Finished key r)) = dom (fl_tasks st)" using t by auto
    with t assms show ?thesis unfolding flight_inv_def r by (auto split: if_splits)
  qed
next
  case False
  then have "flight_finish c outcome st = st"
    by (auto simp: flight_finish_def split: option.splits flight_task.splits)
  with assms show ?thesis by simp
qed

lemma flight_inv_unregister:
  assumes "flight_inv limit st"
  shows "flight_inv limit (flight_unregister c st)"
proof (cases "\<exists>key r. fl_tasks st c = Some (Finished key r)")
  case True
  then obtain key r where t: "fl_tasks st c = Some (Finished key r)" by blast
  then have k: "fl_calls st key = Some c" using assms by (simp add: flight_inv_def)
  have others: "fl_tasks st c' \<noteq> Some (Running key)" "fl_tasks st c' \<noteq> Some (Finished key q)" if "c' \<noteq> c" for c' q
    using assms k that unfolding flight_inv_def by (metis option.inject)+
  have "dom ((fl_tasks st)(c \<mapsto> Unregistered r)) = dom (fl_tasks st)" using t by auto
  with t k others assms show ?thesis
    unfolding flight_inv_def flight_unregister_def by (auto split: if_splits)
next
  case False
  then have "flight_unregister c st = st"
    by (auto simp: flight_unregister_def split: option.splits flight_task.splits)
  with assms show ?thesis by simp
qed

lemma flight_inv_publish:
  assumes "flight_inv limit st"
  shows "flight_inv limit (flight_publish c st)"
proof (cases "\<exists>r. fl_tasks st c = Some (Unregistered r)")
  case True
  then obtain r where t: "fl_tasks st c = Some (Unregistered r)" by blast
  have "dom ((fl_tasks st)(c \<mapsto> Notified)) = dom (fl_tasks st)" using t by auto
  with t assms show ?thesis
    unfolding flight_inv_def flight_publish_def by (auto split: if_splits)
next
  case False
  then have "flight_publish c st = st"
    by (auto simp: flight_publish_def split: option.splits flight_task.splits)
  with assms show ?thesis by simp
qed

lemma flight_inv_release:
  assumes "flight_inv limit st"
  shows "flight_inv limit (flight_release c st)"
proof (cases "fl_tasks st c = Some Notified")
  case True
  have "finite (dom (fl_tasks st))" using assms by (simp add: flight_inv_def)
  then have "card (dom ((fl_tasks st)(c := None))) + 1 = card (dom (fl_tasks st))"
    by (rule card_dom_update) (simp add: True)
  with True assms show ?thesis
    unfolding flight_inv_def flight_release_def by (auto split: if_splits)
next
  case False
  then have "flight_release c st = st"
    by (auto simp: flight_release_def split: option.splits flight_task.splits)
  with assms show ?thesis by simp
qed

lemma flight_inv_step: "flight_step st st' \<Longrightarrow> flight_inv limit st \<Longrightarrow> flight_inv limit st'"
  by (elim flight_stepE)
    (simp_all add: flight_inv_enter flight_inv_finish flight_inv_unregister flight_inv_publish flight_inv_release)

lemma flight_inv_reachable: "flight_step\<^sup>*\<^sup>* (flight_new n) st \<Longrightarrow> flight_inv (max n 1) st"
  by (induction rule: rtranclp_induct) (simp_all add: flight_inv_new flight_inv_step del: One_nat_def)

subsection \<open>Channels\<close>

lemma flight_channel_final:
  assumes "flight_step st st'" "flight_inv limit st" "fl_channels st c = Some ch" "ch \<noteq> Pending"
  shows "fl_channels st' c = Some ch"
proof -
  have fresh: "fl_channels st (fl_next st) = None"
    using assms(2) unfolding flight_inv_def by (metis less_irrefl)
  have "\<not> (\<exists>t. fl_tasks st c = Some t \<and> t \<noteq> Notified)"
    using assms(2-4) unfolding flight_inv_def by (metis option.inject)
  with assms(1,3) fresh show ?thesis
    by (elim flight_stepE)
      (auto simp: flight_enter_def flight_finish_def flight_unregister_def flight_publish_def
        flight_release_def split: option.splits flight_task.splits rresult.splits)
qed

lemma flight_channel_final_star:
  assumes "flight_step\<^sup>*\<^sup>* st st'" "flight_inv limit st" "fl_channels st c = Some ch" "ch \<noteq> Pending"
  shows "flight_inv limit st' \<and> fl_channels st' c = Some ch"
  using assms
  by (induction rule: rtranclp_induct) (auto intro: flight_inv_step flight_channel_final)

text \<open>The remaining life of a task that has not published yet.\<close>

lemma flight_resolves:
  assumes "fl_tasks st c = Some t" "t \<noteq> Notified"
  shows "\<exists>st'. flight_step\<^sup>*\<^sup>* st st' \<and> (\<exists>r. fl_channels st' c = Some (Done r))"
proof -
  obtain s where s: "flight_step\<^sup>*\<^sup>* st s" "\<exists>r. fl_tasks s c = Some (Unregistered r)"
  proof (cases t)
    case (Running k)
    then have "\<exists>r. fl_tasks (flight_unregister c (flight_finish c None st)) c = Some (Unregistered r)"
      using assms by (simp add: flight_finish_def flight_unregister_def)
    then show thesis using that flight_reach(3) [OF flight_reach(2) [OF rtranclp.rtrancl_refl]] by blast
  next
    case (Finished k r)
    then have "\<exists>r. fl_tasks (flight_unregister c st) c = Some (Unregistered r)"
      using assms by (simp add: flight_unregister_def)
    then show thesis using that flight_reach(3) [OF rtranclp.rtrancl_refl] by blast
  qed (use assms that [OF rtranclp.rtrancl_refl] in auto)
  then have "\<exists>r. fl_channels (flight_publish c s) c = Some (Done r)" by (auto simp: flight_publish_def)
  with flight_reach(4) [OF s(1)] show ?thesis by blast
qed

subsection \<open>Properties\<close>

text \<open>C5: single flight under a budget. In every reachable state the tasks and free permits add
  up to the configured limit (at least one), at most one registered task works for a key, and a
  caller is refused exactly when its key is not in flight and every permit is taken.\<close>

theorem flight_single_flight:
  assumes "flight_step\<^sup>*\<^sup>* (flight_new n) st"
  shows "fl_permits st + card (dom (fl_tasks st)) = max n 1 \<and>
    (\<forall>c1 c2 key. fl_tasks st c1 = Some (Running key) \<and> fl_tasks st c2 = Some (Running key) \<longrightarrow> c1 = c2) \<and>
    (fst (flight_enter key st) = Err Overloaded \<longleftrightarrow>
       fl_calls st key = None \<and> card (dom (fl_tasks st)) = max n 1)"
proof -
  have inv: "flight_inv (max n 1) st" by (rule flight_inv_reachable [OF assms])
  then have p: "fl_permits st + card (dom (fl_tasks st)) = max n 1" unfolding flight_inv_def by blast
  moreover have "c1 = c2" if "fl_tasks st c1 = Some (Running k)" "fl_tasks st c2 = Some (Running k)" for c1 c2 k
    using inv that unfolding flight_inv_def by (metis option.inject)
  moreover have "fst (flight_enter key st) = Err Overloaded \<longleftrightarrow> fl_calls st key = None \<and> fl_permits st = 0"
    by (simp add: flight_enter_def split: option.split)
  ultimately show ?thesis by auto
qed

theorem flight_single_flight_witness:
  "let st = snd (flight_enter ''a'' (flight_new 0)) in
     fst (flight_enter ''b'' st) = Err Overloaded \<and> fst (flight_enter ''a'' st) = Ok 0"
proof -
  let ?st = "snd (flight_enter ''a'' (flight_new 0))"
  have r: "flight_step\<^sup>*\<^sup>* (flight_new 0) ?st" by (intro flight_reach rtranclp.rtrancl_refl)
  have "fl_calls ?st ''b'' = None" "card (dom (fl_tasks ?st)) = max 0 1" "fst (flight_enter ''a'' ?st) = Ok 0"
    by (simp_all add: flight_enter_def flight_new_def)
  with flight_single_flight [OF r, of "''b''"] show ?thesis by (simp add: Let_def)
qed

text \<open>C12: every caller that joined one execution gets the same result: what one waiter of a
  channel was told is what every later look at the channel returns, whatever happens meanwhile.\<close>

theorem flight_waiters_agree:
  assumes "flight_step\<^sup>*\<^sup>* (flight_new n) st" "fl_channels st c \<noteq> None"
    and "flight_wait c st = Some r" "flight_step\<^sup>*\<^sup>* st st'"
  shows "flight_wait c st' = Some r"
proof -
  obtain ch where ch: "fl_channels st c = Some ch" "ch \<noteq> Pending"
    using assms(2,3) by (auto simp: flight_wait_def split: channel.splits)
  have "fl_channels st' c = Some ch"
    using flight_channel_final_star [OF assms(4) flight_inv_reachable [OF assms(1)] ch] by simp
  with ch assms(3) show ?thesis by (simp add: flight_wait_def)
qed

definition sample_done :: flight where
  "sample_done = flight_publish 0 (flight_unregister 0 (flight_finish 0 (Some (Ok [7]))
     (snd (flight_enter ''a'' (flight_new 4)))))"

lemma sample_done_reachable: "flight_step\<^sup>*\<^sup>* (flight_new 4) sample_done"
  unfolding sample_done_def
  by (intro flight_reach rtranclp.rtrancl_refl)

theorem flight_waiters_agree_witness:
  "flight_wait 0 (snd (flight_enter ''a'' (flight_release 0 sample_done))) = Some (Ok [7])"
proof -
  have w: "fl_channels sample_done 0 \<noteq> None" "flight_wait 0 sample_done = Some (Ok [7])"
    by (simp_all add: sample_done_def flight_wait_def flight_publish_def flight_unregister_def
        flight_finish_def flight_enter_def flight_new_def)
  have "flight_step\<^sup>*\<^sup>* sample_done (snd (flight_enter ''a'' (flight_release 0 sample_done)))"
    by (intro flight_reach rtranclp.rtrancl_refl)
  from flight_waiters_agree [OF sample_done_reachable w this] show ?thesis .
qed

text \<open>C13: no waiter is forgotten: in every reachable state, whoever waits on a channel either has
  its answer or the task behind the channel is still there and can bring it to a result.\<close>

theorem flight_no_lost_waiter:
  assumes "flight_step\<^sup>*\<^sup>* (flight_new n) st"
  shows "flight_wait c st \<noteq> None \<or>
    (\<exists>st'. flight_step\<^sup>*\<^sup>* st st' \<and> flight_wait c st' \<noteq> None)"
proof (cases "fl_channels st c = Some Pending")
  case True
  then obtain t where "fl_tasks st c = Some t" "t \<noteq> Notified"
    using flight_inv_reachable [OF assms] unfolding flight_inv_def by blast
  from flight_resolves [OF this] show ?thesis by (auto simp: flight_wait_def)
next
  case False
  then show ?thesis by (auto simp: flight_wait_def split: option.splits channel.splits)
qed

theorem flight_no_lost_waiter_witness:
  "\<exists>st'. flight_step\<^sup>*\<^sup>* (snd (flight_enter ''a'' (flight_new 4))) st' \<and> flight_wait 0 st' \<noteq> None"
proof -
  let ?st = "snd (flight_enter ''a'' (flight_new 4))"
  have r: "flight_step\<^sup>*\<^sup>* (flight_new 4) ?st" by (intro flight_reach rtranclp.rtrancl_refl)
  have "flight_wait 0 ?st = None" by (simp add: flight_wait_def flight_enter_def flight_new_def)
  with flight_no_lost_waiter [OF r, of 0] show ?thesis by simp
qed

text \<open>C38: a work future that panics leaves its key in the map. From then on, in every later state,
  every caller of that key joins the dead call and gets an error; the key never loads again.\<close>

theorem flight_panic_poisons_key:
  assumes "flight_step\<^sup>*\<^sup>* (flight_new n) st" "fl_tasks st c = Some (Running key)"
    and "flight_step\<^sup>*\<^sup>* (flight_finish c (Some Panic) st) st'"
  shows "flight_enter key st' = (Ok c, st') \<and>
    flight_wait c st' = Some (Err (Internal ''cache load ended without publishing a result''))"
proof -
  let ?st1 = "flight_finish c (Some Panic) st"
  let ?dead = "\<lambda>s. fl_calls s key = Some c \<and> fl_channels s c = Some Closed"
  have inv1: "flight_inv (max n 1) ?st1"
    by (rule flight_inv_finish [OF flight_inv_reachable [OF assms(1)]])
  have "fl_calls st key = Some c"
    using flight_inv_reachable [OF assms(1)] assms(2) unfolding flight_inv_def by blast
  then have dead1: "?dead ?st1" using assms(2) by (simp add: flight_finish_def)
  from assms(3) have "flight_inv (max n 1) st' \<and> ?dead st'"
  proof (induction rule: rtranclp_induct)
    case base
    with inv1 dead1 show ?case by simp
  next
    case (step s t)
    then have inv: "flight_inv (max n 1) s" and d: "fl_calls s key = Some c" "fl_channels s c = Some Closed" by simp_all
    have "fl_tasks s c' \<noteq> Some (Finished key r)" for c' r
    proof
      assume f: "fl_tasks s c' = Some (Finished key r)"
      then have "c' = c" using inv d(1) unfolding flight_inv_def by (metis option.inject)
      with f inv have "fl_channels s c = Some Pending" unfolding flight_inv_def by blast
      with d(2) show False by simp
    qed
    then have "fl_calls t key = Some c"
      using step.hyps(2) d(1)
      by (elim flight_stepE)
        (auto simp: flight_enter_def flight_finish_def flight_unregister_def flight_publish_def
          flight_release_def split: option.splits flight_task.splits rresult.splits)
    with flight_channel_final [OF step.hyps(2) inv d(2)] flight_inv_step [OF step.hyps(2) inv]
    show ?case by simp
  qed
  then show ?thesis by (simp add: flight_enter_def flight_wait_def)
qed

theorem flight_panic_poisons_key_witness:
  "flight_wait 0 (flight_finish 0 (Some Panic) (snd (flight_enter ''a'' (flight_new 4)))) =
     Some (Err (Internal ''cache load ended without publishing a result''))"
proof -
  let ?st = "snd (flight_enter ''a'' (flight_new 4))"
  have r: "flight_step\<^sup>*\<^sup>* (flight_new 4) ?st" by (intro flight_reach rtranclp.rtrancl_refl)
  have t: "fl_tasks ?st 0 = Some (Running ''a'')" by (simp add: flight_enter_def flight_new_def)
  from flight_panic_poisons_key [OF r t rtranclp.rtrancl_refl] show ?thesis by simp
qed

end
