(* ===== verification/Database.thy ===== *)
theory Database
  imports Indexed Volatile Aside Lifecycle Flight
begin

text \<open>
  Building one selected database: \<open>Capabilities\<close> (\<open>cache/src/core/capabilities.rs\<close>),
  \<open>DatabaseSpec\<close>, \<open>build_database\<close> and \<open>DB::aside\<close> (\<open>cache/src/core/database.rs\<close>).

  The shared \<open>Flight\<close> and \<open>Refresher\<close> are created here; their states are the transition systems of
  their own theories, and the read-through view receives them as the two handles \<open>run\<close> and \<open>go\<close>.
  Clock, token source and codec are the arguments the read-through strategy needs.
\<close>

record 'w capabilities =
  cap_sets :: "'w sets option"
  cap_leases :: "'w leases option"
  cap_scanner :: "'w scanner option"
  cap_bulk :: "'w bulk option"
  cap_set_scanner :: "'w set_scanner option"
  cap_fenced :: "'w fenced option"

definition capabilities_new :: "'w capabilities" where
  "capabilities_new = \<lparr>cap_sets = None, cap_leases = None, cap_scanner = None, cap_bulk = None,
     cap_set_scanner = None, cap_fenced = None\<rparr>"

definition with_sets :: "'w sets \<Rightarrow> 'w capabilities \<Rightarrow> 'w capabilities" where
  "with_sets s c = c\<lparr>cap_sets := Some s\<rparr>"

definition with_leases :: "'w leases \<Rightarrow> 'w capabilities \<Rightarrow> 'w capabilities" where
  "with_leases l c = c\<lparr>cap_leases := Some l\<rparr>"

definition with_scanner :: "'w scanner \<Rightarrow> 'w capabilities \<Rightarrow> 'w capabilities" where
  "with_scanner s c = c\<lparr>cap_scanner := Some s\<rparr>"

definition with_bulk :: "'w bulk \<Rightarrow> 'w capabilities \<Rightarrow> 'w capabilities" where
  "with_bulk b c = c\<lparr>cap_bulk := Some b\<rparr>"

definition with_set_scanner :: "'w set_scanner \<Rightarrow> 'w capabilities \<Rightarrow> 'w capabilities" where
  "with_set_scanner s c = c\<lparr>cap_set_scanner := Some s\<rparr>"

definition with_fenced :: "'w fenced \<Rightarrow> 'w capabilities \<Rightarrow> 'w capabilities" where
  "with_fenced f c = c\<lparr>cap_fenced := Some f\<rparr>"

subsection \<open>Constants and specification\<close>

definition load_timeout :: nat where "load_timeout = secs 30"
definition negative_ttl :: nat where "negative_ttl = secs 30"
definition lock_lease :: nat where "lock_lease = secs 30"
definition drain_timeout :: nat where "drain_timeout = secs 5"
definition refresh_budget :: nat where "refresh_budget = 64"
definition flight_budget :: nat where "flight_budget = 2048"
definition flight_timeout :: nat where "flight_timeout = secs 30"

record 'w database_spec =
  ds_prefix :: string
  ds_namespace :: string
  ds_database :: nat
  ds_embed_db :: bool
  ds_default_ttl :: nat
  ds_default_stale :: nat
  ds_concurrency :: nat
  ds_require_ttl :: bool
  ds_new_id :: "('w \<Rightarrow> string \<times> 'w) option"
  ds_release :: "('w, unit) io option"

definition database_spec_default :: "'w database_spec" where
  "database_spec_default =
     \<lparr>ds_prefix = '''', ds_namespace = '''', ds_database = 0, ds_embed_db = False,
      ds_default_ttl = 0, ds_default_stale = 0, ds_concurrency = 0, ds_require_ttl = False,
      ds_new_id = None, ds_release = None\<rparr>"

record 'w aside_factory =
  af_driver :: "'w driver"
  af_fenced :: "'w fenced option"
  af_keyspace :: keyspace
  af_default_ttl :: nat
  af_default_stale :: nat
  af_require_ttl :: bool

record 'w db =
  db_document :: "'w document"
  db_volatile :: "'w volatile"
  db_indexed :: "'w indexed"
  db_backend :: string
  db_name :: string
  db_index :: nat
  db_aside :: "'w aside_factory"
  db_flight :: flight
  db_lifecycle :: lifecycle

definition build_database ::
  "('w \<Rightarrow> string \<times> 'w) \<Rightarrow> 'w driver \<Rightarrow> 'w capabilities \<Rightarrow> 'w database_spec \<Rightarrow> 'w db" where
  "build_database default_new_id drv caps spec =
     (let concurrency = (if ds_concurrency spec = 0 then default_concurrency else ds_concurrency spec);
          ks = keyspace_new (ds_prefix spec) (ds_namespace spec) (ds_database spec) (ds_embed_db spec);
          new_id = (case ds_new_id spec of Some g \<Rightarrow> g | None \<Rightarrow> default_new_id);
          wiring = \<lparr>dw_driver = drv, dw_sets = cap_sets caps, dw_leases = cap_leases caps,
                    dw_bulk = cap_bulk caps, dw_set_scanner = cap_set_scanner caps, dw_keyspace = ks,
                    dw_default_ttl = ds_default_ttl spec, dw_require_ttl = ds_require_ttl spec,
                    dw_concurrency = concurrency, dw_new_id = new_id\<rparr>
      in \<lparr>db_document = document_new_with_id wiring,
          db_volatile = volatile_new_with_capabilities drv (cap_leases caps) (cap_scanner caps) ks
                          (ds_default_ttl spec) (ds_require_ttl spec),
          db_indexed = indexed_new_with_id wiring,
          db_backend = drv_name drv,
          db_name = ds_namespace spec,
          db_index = ds_database spec,
          db_aside = \<lparr>af_driver = drv, af_fenced = cap_fenced caps, af_keyspace = ks,
                      af_default_ttl = ds_default_ttl spec, af_default_stale = ds_default_stale spec,
                      af_require_ttl = ds_require_ttl spec\<rparr>,
          db_flight = flight_new flight_budget,
          db_lifecycle = lifecycle_new refresh_budget (ds_release spec \<noteq> None)\<rparr>)"

text \<open>
  \<open>DB::aside\<close>. \<open>run\<close> is \<open>Flight::run\<close> of the shared flight; \<open>go\<close> is the admission of one background
  load for an identifier.
\<close>

definition db_aside_view ::
  "'w db \<Rightarrow> (string \<Rightarrow> ('w, bytes) io \<Rightarrow> ('w, bytes) io) \<Rightarrow> (string \<Rightarrow> ('w, bytes) io \<Rightarrow> ('w, bool) io)
     \<Rightarrow> codec \<Rightarrow> ('w \<Rightarrow> int) \<Rightarrow> ('w \<Rightarrow> bytes \<times> 'w) \<Rightarrow> (string \<Rightarrow> ('w, bytes) io) \<Rightarrow> 'w aside" where
  "db_aside_view db run go c now token loader =
     (let f = db_aside db;
          a = \<lparr>as_driver = af_driver f, as_fenced = af_fenced f, as_keyspace = af_keyspace f,
               as_loader = loader, as_default_ttl = af_default_ttl f,
               as_default_stale = af_default_stale f, as_require_ttl = af_require_ttl f,
               as_flight = run, as_background = (\<lambda>_ _. io_ret False),
               as_negative_ttl = negative_ttl, as_lock_lease = lock_lease, as_codec = c,
               as_now = now, as_token = token\<rparr>
      in a\<lparr>as_background := (\<lambda>i opts. go i (load_through_flight a i opts))\<rparr>)"

text \<open>\<open>Config\<close> of \<open>cache/src/lib.rs\<close>: the policy a provider hands to every database it builds.\<close>

datatype dial_timeout = DialDefault | DialDisabled | DialAfter nat

record cache_config =
  cc_prefix :: string
  cc_default_ttl :: nat
  cc_require_ttl :: bool
  cc_default_stale :: nat
  cc_databases :: "string list"
  cc_concurrency :: nat

definition cache_config_default :: cache_config where
  "cache_config_default = \<lparr>cc_prefix = '''', cc_default_ttl = 0, cc_require_ttl = False, cc_default_stale = 0,
     cc_databases = [], cc_concurrency = 0\<rparr>"

subsection \<open>Properties\<close>

text \<open>one lease policy. The four strategies of a built database resolve the lease of a write in
  the same way; when expiry is required and no default is configured, a write that names neither a
  lease nor permanence is refused by all of them, and an accepted write is permanent only when
  its caller asked for it.\<close>

theorem database_one_lease_policy:
  assumes "db = build_database g drv caps spec"
    and "policy = lease_policy (ds_default_ttl spec) (ds_require_ttl spec)"
  shows "document_resolve_ttl (db_document db) = policy \<and>
    document_resolve_ttl (ix_document (db_indexed db)) = policy \<and>
    volatile_resolve_ttl (db_volatile db) = policy \<and>
    aside_resolve_ttl (as_default_ttl (db_aside_view db run go c now token loader))
      (as_require_ttl (db_aside_view db run go c now token loader)) = policy \<and>
    (ds_require_ttl spec \<and> policy opts = Ok 0 \<longrightarrow> opt_ttl opts = Some 0 \<or> opt_ttl opts = None \<and> opt_permanent opts) \<and>
    (ds_require_ttl spec \<and> ds_default_ttl spec = 0 \<and> opt_ttl opts = None \<and> \<not> opt_permanent opts \<longrightarrow>
       policy opts = Err NoTTL)"
  by (auto simp: assms fun_eq_iff build_database_def Let_def document_resolve_ttl_policy
      volatile_resolve_ttl_policy aside_resolve_ttl_policy document_new_with_id_def indexed_new_with_id_def
      document_new_indexed_def with_layout_def volatile_new_with_capabilities_def db_aside_view_def
      lease_policy_def split: option.splits if_splits)

definition sample_spec :: "mem_world database_spec" where
  "sample_spec = database_spec_default\<lparr>ds_require_ttl := True\<rparr>"

theorem database_one_lease_policy_witness:
  "document_resolve_ttl (db_document (build_database (\<lambda>w. (''id'', w)) memory_driver capabilities_new sample_spec))
     options_default = Err NoTTL"
proof -
  have "ds_require_ttl sample_spec" "ds_default_ttl sample_spec = 0"
    by (simp_all add: sample_spec_def database_spec_default_def)
  moreover have "opt_ttl options_default = None" "\<not> opt_permanent options_default"
    by (simp_all add: options_default_def)
  ultimately show ?thesis
    using database_one_lease_policy [OF refl refl, where spec = sample_spec and g = "\<lambda>w. (''id'', w)" and
        drv = memory_driver and caps = capabilities_new and opts = options_default and run = "\<lambda>_ work. work" and
        go = "\<lambda>_ _. io_ret False" and c = plain_codec and now = "\<lambda>w. 0" and token = "\<lambda>w. ([], w)" and
        loader = "\<lambda>_. io_fail NotFound"]
    by metis
qed

text \<open>a backend that declares no capability still serves entries, and what it cannot do is
  refused without touching it: listing, lookup by index, lease reports and scans answer
  \<open>Unsupported\<close> and leave the backend as it was, as does filing under an index.\<close>

theorem database_unsupported_is_inert:
  assumes "db = build_database g drv capabilities_new spec"
  shows "document_keys (db_document db) w = (Err Unsupported, w) \<and>
    document_list (db_document db) w = (Err Unsupported, w) \<and>
    document_ttl (db_document db) i w = (Err Unsupported, w) \<and>
    volatile_ttl (db_volatile db) i w = (Err Unsupported, w) \<and>
    volatile_scan (db_volatile db) pat w = (Err Unsupported, w) \<and>
    by_index (db_indexed db) f v w = (Err Unsupported, w) \<and>
    delete_by_index (db_indexed db) f v w = (Err Unsupported, w) \<and>
    (opt_id opts = Some j \<and> opt_indexes opts = Some (x # xs) \<and> lease_policy (ds_default_ttl spec) (ds_require_ttl spec) opts = Ok ttl \<longrightarrow>
       indexed_create (db_indexed db) val opts w = (Err Unsupported, w)) \<and>
    document_get (db_document db) i w = drv_get drv (doc_entry (dw_keyspace (db_document db)) i) w"
  by (simp add: assms build_database_def Let_def capabilities_new_def document_keys_def document_list_def
      document_ttl_def volatile_ttl_def volatile_scan_def by_index_def delete_by_index_def ids_by_index_def
      document_new_with_id_def indexed_new_with_id_def document_new_indexed_def with_layout_def
      volatile_new_with_capabilities_def indexed_create_def document_resolve_ttl_policy document_resolve_id_def
      wanted_indexes_def io_bind_def document_get_def document_entry_key_def io_fail_def)

theorem database_unsupported_is_inert_witness:
  "document_keys (db_document (build_database (\<lambda>w. (''id'', w)) memory_driver capabilities_new database_spec_default))
     memory_new = (Err Unsupported, memory_new)"
  using database_unsupported_is_inert [OF refl, of "\<lambda>w. (''id'', w)" memory_driver database_spec_default memory_new]
  by blast

end
