(* ===== verification/Drop.thy ===== *)
theory Drop
  imports Keyspace Memory
begin

text \<open>
  Administrative deletion of one database: \<open>cache/src/core/drop.rs\<close>.

  \<open>drop_database\<close> scans for the keys under one keyspace head, refuses when the scanner answers
  with a key outside that head, removes repeated keys and deletes the rest in batches of 256. The
  theorems give the exact effect over a backend whose calls succeed, and the meaning of the
  reported count and of \<open>PartialDelete\<close> over any backend.
\<close>

definition drop_batch :: nat where
  "drop_batch = 256"

definition prefix_pattern :: "string \<Rightarrow> string" where
  "prefix_pattern h = escape_glob_literal h @ ''*''"

definition drop_error :: "nat \<Rightarrow> cache_error \<Rightarrow> cache_error" where
  "drop_error deleted source = (if deleted = 0 then source else PartialDelete deleted source)"

text \<open>The loop over the batches; \<open>deleted\<close> counts the keys of the batches already deleted.\<close>

fun drop_batches :: "'w driver \<Rightarrow> string list list \<Rightarrow> nat \<Rightarrow> ('w, nat) io" where
  "drop_batches drv [] deleted w = (Ok deleted, w)"
| "drop_batches drv (batch # rest) deleted w =
     (case drv_delete drv batch w of
        (Ok _, w') \<Rightarrow> drop_batches drv rest (deleted + length batch) w'
      | (Err source, w') \<Rightarrow> (Err (drop_error deleted source), w')
      | (Panic, w') \<Rightarrow> (Panic, w'))"

definition drop_database :: "'w driver \<Rightarrow> 'w scanner \<Rightarrow> string \<Rightarrow> ('w, nat) io" where
  "drop_database drv scn h =
     io_bind (scn_scan scn (prefix_pattern h)) (\<lambda>scanned.
       if \<exists>key \<in> set scanned. \<not> prefix h key
       then io_fail (Internal ''scanner returned a key outside the requested prefix'')
       else drop_batches drv (chunks drop_batch (dedup [] scanned)) 0)"

lemma prefix_pattern_scope:
  "glob_semantics matches \<Longrightarrow> matches (prefix_pattern h) k \<longleftrightarrow> prefix h k"
  using glob_escape [of matches h "''*''" k]
  by (auto simp: prefix_pattern_def glob_semantics_def prefix_def)

context kv_store
begin

lemma drop_batches_frame:
  "drop_batches drv bs n w = (r, w') \<Longrightarrow> outside {} (live w) (live w')"
proof (induction bs arbitrary: n w)
  case Nil
  then show ?case by simp
next
  case (Cons b bs)
  obtain q w1 where d: "drv_delete drv b w = (q, w1)" by (metis surj_pair)
  note f = delete_frame [OF d]
  show ?case
  proof (cases q)
    case (Ok u)
    with Cons.prems d have "drop_batches drv bs (n + length b) w1 = (r, w')" by simp
    from outside_trans [OF f Cons.IH [OF this]] show ?thesis .
  qed (use Cons.prems d f in auto)
qed

text \<open>Where the loop stopped: everything before that batch is gone.\<close>

lemma drop_batches_result:
  "drop_batches drv bs n w = (r, w') \<Longrightarrow> \<exists>done rest. bs = done @ rest \<and>
     (\<forall>k\<in>set (concat done). live w' k = None) \<and>
     (r = Ok (n + length (concat bs)) \<and> rest = [] \<or> r = Panic \<or>
      (\<exists>b rest' e w0 w1. rest = b # rest' \<and> drv_delete drv b w0 = (Err e, w1) \<and>
        r = Err (drop_error (n + length (concat done)) e)))"
proof (induction bs arbitrary: n w)
  case Nil
  then show ?case by simp
next
  case (Cons b bs)
  obtain q w1 where d: "drv_delete drv b w = (q, w1)" by (metis surj_pair)
  show ?case
  proof (cases q)
    case (Ok u)
    with Cons.prems d have run: "drop_batches drv bs (n + length b) w1 = (r, w')" by simp
    have "live w' k = None" if "k \<in> set b" for k
      using outside_dead [OF drop_batches_frame [OF run]] delete_Ok [OF d [unfolded Ok] that] by simp
    then have gone: "\<forall>k\<in>set b. live w' k = None" by blast
    from Cons.IH [OF run] obtain ds rest where ih: "bs = ds @ rest"
      "\<forall>k\<in>set (concat ds). live w' k = None"
      "r = Ok (n + length b + length (concat bs)) \<and> rest = [] \<or> r = Panic \<or>
       (\<exists>b' rest' e w0 w1. rest = b' # rest' \<and> drv_delete drv b' w0 = (Err e, w1) \<and>
        r = Err (drop_error (n + length b + length (concat ds)) e))"
      by blast
    have "\<forall>k\<in>set (concat (b # ds)). live w' k = None" using ih(2) gone by auto
    with ih(1,3) show ?thesis
      by (rule_tac x = "b # ds" in exI, rule_tac x = rest in exI) (simp add: add.assoc)
  next
    case (Err e)
    with Cons.prems d have "r = Err (drop_error n e)" by simp
    with d Err show ?thesis by (rule_tac x = "[]" in exI, rule_tac x = "b # bs" in exI) auto
  next
    case Panic
    with Cons.prems d show ?thesis by (rule_tac x = "[]" in exI) auto
  qed
qed

end

text \<open>
  A driver whose deletions succeed and remove exactly the named keys; \<open>keep\<close> is whatever else of the
  world deletion leaves alone.
\<close>

locale exact_delete =
  fixes drv :: "'w driver" and live :: "'w \<Rightarrow> string \<rightharpoonup> bytes" and keep :: "'w \<Rightarrow> 'x"
  assumes delete_exact: "\<exists>w'. drv_delete drv ks w = (Ok (), w') \<and> keep w' = keep w \<and>
      live w' = (\<lambda>k. if k \<in> set ks then None else live w k)"
begin

lemma drop_batches_steady:
  "\<exists>w'. drop_batches drv bs n w = (Ok (n + length (concat bs)), w') \<and> keep w' = keep w \<and>
     live w' = (\<lambda>k. if k \<in> set (concat bs) then None else live w k)"
proof (induction bs arbitrary: n w)
  case Nil
  then show ?case by simp
next
  case (Cons b bs)
  obtain w1 where 1: "drv_delete drv b w = (Ok (), w1)" "keep w1 = keep w"
    "live w1 = (\<lambda>k. if k \<in> set b then None else live w k)"
    using delete_exact by blast
  obtain w2 where 2: "drop_batches drv bs (n + length b) w1 = (Ok (n + length b + length (concat bs)), w2)"
    "keep w2 = keep w1" "live w2 = (\<lambda>k. if k \<in> set (concat bs) then None else live w1 k)"
    using Cons.IH by blast
  have "live w2 = (\<lambda>k. if k \<in> set (concat (b # bs)) then None else live w k)"
    using 1(3) 2(3) by (auto simp: fun_eq_iff)
  with 1(1,2) 2(1,2) show ?case by (intro exI [of _ w2]) (simp add: add.assoc)
qed

lemma drop_steady:
  assumes "scn_scan scn (prefix_pattern h) w = (Ok ks, w)"
    and "\<forall>k\<in>set ks. prefix h k"
  shows "\<exists>w'. drop_database drv scn h w = (Ok (card (set ks)), w') \<and> keep w' = keep w \<and>
     live w' = (\<lambda>k. if k \<in> set ks then None else live w k)"
proof -
  have "concat (chunks drop_batch (dedup [] ks)) = dedup [] ks"
    by (simp add: concat_chunks drop_batch_def)
  moreover have "drop_database drv scn h w = drop_batches drv (chunks drop_batch (dedup [] ks)) 0 w"
    using assms by (auto simp: drop_database_def io_bind_def)
  ultimately show ?thesis
    using drop_batches_steady [of "chunks drop_batch (dedup [] ks)" 0 w]
    by (simp add: set_dedup length_dedup)
qed

end

context steady_backend
begin

lemma deletes_exactly: "exact_delete drv live mem"
  by unfold_locales (rule delete_steady)

end

interpretation mem_exact: exact_delete memory_driver mem_live mem_members
  by (rule mem.deletes_exactly)

subsection \<open>Properties\<close>

text \<open>over a backend whose calls succeed and whose scanner answers the pattern exactly,
  \<open>drop_database\<close> deletes precisely the keys that start with the head, however the
  head is spelled (glob characters included), and reports their number even when the
  scanner repeats keys.\<close>

theorem drop_database_exact:
  assumes "steady_backend drv live sts mem blk ssc" "glob_semantics matches"
    and "scn_scan scn (prefix_pattern h) w = (Ok ks, w)"
    and "set ks = {k. live w k \<noteq> None \<and> matches (prefix_pattern h) k}"
  shows "\<exists>w'. drop_database drv scn h w = (Ok (card {k. live w k \<noteq> None \<and> prefix h k}), w') \<and>
     mem w' = mem w \<and> live w' = (\<lambda>k. if prefix h k then None else live w k)"
proof -
  have ks: "set ks = {k. live w k \<noteq> None \<and> prefix h k}"
    using assms(4) prefix_pattern_scope [OF assms(2)] by simp
  then have "(\<lambda>k. if k \<in> set ks then None else live w k) = (\<lambda>k. if prefix h k then None else live w k)"
    by (auto simp: fun_eq_iff)
  with exact_delete.drop_steady [OF steady_backend.deletes_exactly [OF assms(1)] assms(3)] ks show ?thesis by simp
qed

definition sample_store :: mem_world where
  "sample_store = snd (mem_set ''a*:x'' [1] 0 (snd (mem_set ''ab:x'' [2] 0 memory_new)))"

lemma sample_store_live: "mem_live sample_store = [''ab:x'' \<mapsto> [2], ''a*:x'' \<mapsto> [1]]"
  by (simp add: sample_store_def mem_set_def mem_expires_at_def mem_insert_def memory_new_def
      mem_live_def is_expired_def fun_eq_iff)

theorem drop_database_exact_witness:
  "\<exists>w'. drop_database memory_driver \<lparr>scn_scan = \<lambda>p w. (Ok [''a*:x'', ''a*:x''], w)\<rparr> ''a*:'' sample_store
       = (Ok 1, w') \<and> mem_live w' = [''ab:x'' \<mapsto> [2]]"
proof -
  let ?s = "\<lparr>scn_scan = \<lambda>p w. (Ok [''a*:x'', ''a*:x''], w)\<rparr>"
  have d: "{k. mem_live sample_store k \<noteq> None \<and> prefix ''a*:'' k} = {''a*:x''}"
    by (auto simp: sample_store_live split: if_splits)
  have "set [''a*:x'', ''a*:x''] =
      {k. mem_live sample_store k \<noteq> None \<and> glob_match (prefix_pattern ''a*:'') k}"
    unfolding prefix_pattern_scope [OF glob_match_semantics] d by simp
  from drop_database_exact [OF mem.steady_backend_axioms glob_match_semantics _ this, of ?s, unfolded d]
  obtain w' where "drop_database memory_driver ?s ''a*:'' sample_store = (Ok 1, w')"
    "mem_live w' = (\<lambda>k. if prefix ''a*:'' k then None else mem_live sample_store k)"
    by auto
  moreover have "(\<lambda>k. if prefix ''a*:'' k then None else mem_live sample_store k) = [''ab:x'' \<mapsto> [2]]"
    by (auto simp: sample_store_live fun_eq_iff)
  ultimately show ?thesis by auto
qed

text \<open>over any backend, when a batch fails the caller learns how far the deletion got: the
  count in \<open>PartialDelete\<close> is a positive multiple of the batch size below the number of keys
  found, and that many distinct scanned keys are gone.\<close>

theorem drop_database_partial:
  assumes "kv_store drv live" "scn_scan scn (prefix_pattern h) w = (Ok ks, w1)"
    and "drop_database drv scn h w = (Err (PartialDelete n e), w')"
    and "\<forall>b w0 w2 m e'. drv_delete drv b w0 \<noteq> (Err (PartialDelete m e'), w2)"
  shows "0 < n \<and> n < card (set ks) \<and> 256 dvd n \<and>
    (\<exists>gone. distinct gone \<and> length gone = n \<and> set gone \<subseteq> set ks \<and> (\<forall>k\<in>set gone. live w' k = None))"
proof -
  let ?ks = "dedup [] ks" and ?bs = "chunks 256 (dedup [] ks)"
  have run: "drop_batches drv ?bs 0 w1 = (Err (PartialDelete n e), w')"
    using assms(2,3) by (auto simp: drop_database_def io_bind_def io_fail_def drop_batch_def split: if_splits)
  from kv_store.drop_batches_result [OF assms(1) run] obtain ds b rest e' w0 w2 where
    split: "?bs = ds @ b # rest" "\<forall>k\<in>set (concat ds). live w' k = None"
      "PartialDelete n e = drop_error (length (concat ds)) e'" "drv_delete drv b w0 = (Err e', w2)"
    by auto
  then have "e' \<noteq> PartialDelete n e" using assms(4) by blast
  with split(3) have n: "n = length (concat ds)" "0 < n" by (auto simp: drop_error_def split: if_splits)
  have cat: "?ks = concat ds @ b @ concat rest"
    using concat_chunks [of 256 ?ks] split(1) by simp
  then have dis: "distinct (concat ds)" "set (concat ds) \<subseteq> set ks"
    using distinct_dedup [of "[]" ks] set_dedup [of "[]" ks] by (metis distinct_append, auto)
  have "0 < length b" using chunks_bound [of b 256 ?ks] split(1) by simp
  then have "n < card (set ks)"
    unfolding n(1) length_dedup [of ks, symmetric] cat by simp
  moreover have "256 dvd n" using chunks_full [of 256 ?ks ds b rest] split(1) n(1) by simp
  ultimately show ?thesis using n split(2) dis by (intro conjI exI [of _ "concat ds"]) auto
qed

definition flaky_driver :: "mem_world driver" where
  "flaky_driver = memory_driver\<lparr>drv_delete := \<lambda>ks w.
     if length ks < 256 then (Err (Internal ''down''), w) else mem_delete ks w\<rparr>"

lemma flaky_kv_store: "kv_store flaky_driver mem_live"
  by unfold_locales
    (auto simp: flaky_driver_def memory_driver_def mem_get_eq mem_exists_eq outside_def
      split: option.splits if_splits dest!: mem_opD)

definition sample_keys :: "string list" where
  "sample_keys = map (\<lambda>i. ''k'' @ show_nat i) [0..<257]"

lemma sample_keys_drop:
  "drop_database flaky_driver \<lparr>scn_scan = \<lambda>p w. (Ok sample_keys, w)\<rparr> ''k'' memory_new =
     (Err (PartialDelete 256 (Internal ''down'')), snd (mem_delete (take 256 sample_keys) memory_new))"
proof -
  have "distinct sample_keys" "length sample_keys = 257" "\<forall>k\<in>set sample_keys. prefix ''k'' k"
    by (auto simp: sample_keys_def distinct_map inj_on_def)
  moreover from this have "sample_keys \<noteq> []" by auto
  then have "chunks 256 sample_keys = [take 256 sample_keys, drop 256 sample_keys]"
    using \<open>length sample_keys = 257\<close> by (simp add: chunks.simps)
  ultimately show ?thesis
    by (simp add: drop_database_def io_bind_def dedup_distinct drop_batch_def flaky_driver_def
        drop_error_def mem_delete_def)
qed

theorem drop_database_partial_witness:
  "\<exists>w'. drop_database flaky_driver \<lparr>scn_scan = \<lambda>p w. (Ok sample_keys, w)\<rparr> ''k'' memory_new =
       (Err (PartialDelete 256 (Internal ''down'')), w') \<and>
     (\<exists>gone. distinct gone \<and> length gone = 256 \<and> set gone \<subseteq> set sample_keys \<and>
       (\<forall>k\<in>set gone. mem_live w' k = None))"
proof -
  have "\<forall>b w0 w2 m e'. drv_delete flaky_driver b w0 \<noteq> (Err (PartialDelete m e'), w2)"
    by (simp add: flaky_driver_def mem_delete_def)
  from drop_database_partial [OF flaky_kv_store _ sample_keys_drop this, of sample_keys memory_new]
  show ?thesis using sample_keys_drop by auto
qed

end
