(* ===== verification/Retry.thy ===== *)
theory Retry
  imports Document
begin

text \<open>
  Wrappers around any \<open>Document\<close>: the \<open>Middleware\<close> type and \<open>chain\<close>
  (\<open>cache/src/middleware.rs\<close>), and the retry middleware (\<open>cache/src/retry.rs\<close>).

  A \<open>Document\<close> trait object is the record of its methods, and a middleware a function between such
  records. \<open>tokio::time::sleep\<close> is the argument \<open>sleep\<close>, a transformation of the world, so the
  delays the code asks for can be read off the theorems. The retry loop is a function with a
  termination proof: \<open>after_failure\<close> consumes an attempt each time it lets the loop go on.
\<close>

subsection \<open>Documents as objects and middleware\<close>

record 'w document_object =
  obj_create :: "bytes \<Rightarrow> options \<Rightarrow> ('w, string) io"
  obj_get :: "string \<Rightarrow> ('w, bytes) io"
  obj_update :: "string \<Rightarrow> bytes \<Rightarrow> options \<Rightarrow> ('w, unit) io"
  obj_delete :: "string \<Rightarrow> ('w, unit) io"
  obj_keys :: "('w, string list) io"
  obj_list :: "('w, bytes list) io"
  obj_ttl :: "string \<Rightarrow> ('w, nat) io"

definition document_object_of :: "'w document \<Rightarrow> 'w document_object" where
  "document_object_of d =
     \<lparr>obj_create = document_create d, obj_get = document_get d, obj_update = document_update d,
      obj_delete = document_delete d, obj_keys = document_keys d, obj_list = document_list d,
      obj_ttl = document_ttl d\<rparr>"

type_synonym 'w middleware = "'w document_object \<Rightarrow> 'w document_object"

fun chain :: "'w document_object \<Rightarrow> 'w middleware list \<Rightarrow> 'w document_object" where
  "chain d [] = d"
| "chain d (m # ms) = chain (m d) ms"

lemma chain_append: "chain d (ms @ ms') = chain (chain d ms) ms'"
  by (induction d ms rule: chain.induct) simp_all

subsection \<open>The retry schedule and loop\<close>

record retry_schedule =
  rs_remaining :: nat
  rs_wait :: nat

definition retry_schedule_new :: "nat \<Rightarrow> nat \<Rightarrow> retry_schedule" where
  "retry_schedule_new attempts backoff = \<lparr>rs_remaining = attempts, rs_wait = backoff\<rparr>"

text \<open>\<open>remaining\<close> saturates at zero, as subtraction on \<^typ>\<open>nat\<close> does.\<close>

definition after_failure :: "cache_error \<Rightarrow> retry_schedule \<Rightarrow> nat rresult \<times> retry_schedule" where
  "after_failure e s =
     (let s1 = s\<lparr>rs_remaining := rs_remaining s - 1\<rparr>
      in if e = NotFound \<or> rs_remaining s1 = 0 then (Err e, s1)
         else (Ok (rs_wait s1), s1\<lparr>rs_wait := duration_saturating_mul (rs_wait s1) 2\<rparr>))"

lemma after_failure_Ok:
  "after_failure e s = (Ok delay, s') \<longleftrightarrow>
     e \<noteq> NotFound \<and> 1 < rs_remaining s \<and> delay = rs_wait s \<and>
     s' = s\<lparr>rs_remaining := rs_remaining s - 1, rs_wait := duration_saturating_mul (rs_wait s) 2\<rparr>"
  by (auto simp: after_failure_def Let_def)

lemma after_failure_Err:
  "after_failure e s = (Err e', s') \<longleftrightarrow>
     (e = NotFound \<or> rs_remaining s \<le> 1) \<and> e' = e \<and> s' = s\<lparr>rs_remaining := rs_remaining s - 1\<rparr>"
  by (auto simp: after_failure_def Let_def)

lemma after_failure_never_panics: "after_failure e s \<noteq> (Panic, s')"
  by (auto simp: after_failure_def Let_def)

function (sequential) retry_loop ::
  "(nat \<Rightarrow> 'w \<Rightarrow> 'w) \<Rightarrow> ('w, 'a) io \<Rightarrow> retry_schedule \<Rightarrow> ('w, 'a) io" where
  "retry_loop sleep operation schedule w =
     (case operation w of
        (Ok x, w') \<Rightarrow> (Ok x, w')
      | (Panic, w') \<Rightarrow> (Panic, w')
      | (Err e, w') \<Rightarrow>
          (case after_failure e schedule of
             (Ok delay, schedule') \<Rightarrow> retry_loop sleep operation schedule' (sleep delay w')
           | (Err e', _) \<Rightarrow> (Err e', w')
           | (Panic, _) \<Rightarrow> (Panic, w')))"
  by pat_completeness auto
termination
  by (relation "measure (\<lambda>(sleep, operation, schedule, w). rs_remaining schedule)")
    (auto dest: after_failure_Ok [THEN iffD1, OF sym])

declare retry_loop.simps [simp del]

record 'w retry_document =
  rd_next :: "'w document_object"
  rd_attempts :: nat
  rd_backoff :: nat

definition retry_op :: "(nat \<Rightarrow> 'w \<Rightarrow> 'w) \<Rightarrow> 'w retry_document \<Rightarrow> ('w, 'a) io \<Rightarrow> ('w, 'a) io" where
  "retry_op sleep r operation = retry_loop sleep operation (retry_schedule_new (rd_attempts r) (rd_backoff r))"

text \<open>
  The \<open>Document\<close> methods of the wrapper. \<open>get\<close> has a loop of its own in the source, with the same
  schedule and the same exits; its destination is the value the call returns.
\<close>

definition retry_get :: "(nat \<Rightarrow> 'w \<Rightarrow> 'w) \<Rightarrow> 'w retry_document \<Rightarrow> string \<Rightarrow> ('w, bytes) io" where
  "retry_get sleep r i =
     retry_loop sleep (obj_get (rd_next r) i) (retry_schedule_new (rd_attempts r) (rd_backoff r))"

definition retry_document_object :: "(nat \<Rightarrow> 'w \<Rightarrow> 'w) \<Rightarrow> 'w retry_document \<Rightarrow> 'w document_object" where
  "retry_document_object sleep r =
     \<lparr>obj_create = obj_create (rd_next r),
      obj_get = retry_get sleep r,
      obj_update = obj_update (rd_next r),
      obj_delete = (\<lambda>i. retry_op sleep r (obj_delete (rd_next r) i)),
      obj_keys = retry_op sleep r (obj_keys (rd_next r)),
      obj_list = retry_op sleep r (obj_list (rd_next r)),
      obj_ttl = (\<lambda>i. retry_op sleep r (obj_ttl (rd_next r) i))\<rparr>"

definition with_retry :: "(nat \<Rightarrow> 'w \<Rightarrow> 'w) \<Rightarrow> 'w document_object \<Rightarrow> nat \<Rightarrow> nat \<Rightarrow> 'w document_object" where
  "with_retry sleep d attempts backoff =
     (if attempts \<le> 1 then d
      else retry_document_object sleep \<lparr>rd_next = d, rd_attempts = attempts, rd_backoff = backoff\<rparr>)"

definition with_retry_middleware :: "(nat \<Rightarrow> 'w \<Rightarrow> 'w) \<Rightarrow> nat \<Rightarrow> nat \<Rightarrow> 'w middleware" where
  "with_retry_middleware sleep attempts backoff = (\<lambda>d. with_retry sleep d attempts backoff)"

subsection \<open>What a retried operation is\<close>

text \<open>
  The world at the start of attempt \<open>k\<close> (counted from 0) when every earlier attempt was made and
  followed by its delay: \<open>backoff\<close>, doubled before each later attempt and capped at the longest
  \<open>Duration\<close>.
\<close>

fun before_attempt :: "(nat \<Rightarrow> 'w \<Rightarrow> 'w) \<Rightarrow> ('w, 'a) io \<Rightarrow> nat \<Rightarrow> nat \<Rightarrow> 'w \<Rightarrow> 'w" where
  "before_attempt sleep operation backoff 0 w = w"
| "before_attempt sleep operation backoff (Suc k) w =
     sleep (min duration_max (backoff * 2 ^ k)) (snd (operation (before_attempt sleep operation backoff k w)))"

fun transient :: "'a rresult \<Rightarrow> bool" where
  "transient (Err e) \<longleftrightarrow> e \<noteq> NotFound"
| "transient _ \<longleftrightarrow> False"

text \<open>
  \<open>retried\<close>: the wrapped operation is one of the first \<open>attempts\<close> attempts, unchanged; every earlier
  one failed with an error other than \<open>NotFound\<close>, and it did not, or it is the last.
\<close>

definition retried ::
  "(nat \<Rightarrow> 'w \<Rightarrow> 'w) \<Rightarrow> nat \<Rightarrow> nat \<Rightarrow> ('w, 'a) io \<Rightarrow> ('w, 'a) io \<Rightarrow> bool" where
  "retried sleep attempts backoff operation wrapped \<longleftrightarrow>
     (\<forall>w. \<exists>k<attempts.
        wrapped w = operation (before_attempt sleep operation backoff k w) \<and>
        (\<forall>j<k. transient (fst (operation (before_attempt sleep operation backoff j w)))) \<and>
        (transient (fst (operation (before_attempt sleep operation backoff k w))) \<longrightarrow> Suc k = attempts))"

lemma saturated_double:
  "duration_saturating_mul (min duration_max (b * 2 ^ k)) 2 = min duration_max (b * 2 ^ Suc k)"
  by (auto simp: duration_saturating_mul_def min_def)

lemma retry_loop_attempts:
  assumes "rs_remaining s + k = attempts" "k < attempts" "rs_wait s = min duration_max (backoff * 2 ^ k)"
  shows "\<exists>m. k \<le> m \<and> m < attempts \<and>
    retry_loop sleep operation s (before_attempt sleep operation backoff k w)
      = operation (before_attempt sleep operation backoff m w) \<and>
    (\<forall>j. k \<le> j \<and> j < m \<longrightarrow> transient (fst (operation (before_attempt sleep operation backoff j w)))) \<and>
    (transient (fst (operation (before_attempt sleep operation backoff m w))) \<longrightarrow> Suc m = attempts)"
  using assms
proof (induction "rs_remaining s" arbitrary: s k rule: less_induct)
  case less
  let ?at = "\<lambda>k. before_attempt sleep operation backoff k w"
  obtain r w' where op: "operation (?at k) = (r, w')" by (metis surj_pair)
  show ?case
  proof (cases "transient r \<and> Suc k < attempts")
    case True
    then obtain e where e: "r = Err e" "e \<noteq> NotFound" by (cases r) auto
    let ?s = "s\<lparr>rs_remaining := rs_remaining s - 1, rs_wait := duration_saturating_mul (rs_wait s) 2\<rparr>"
    have "after_failure e s = (Ok (rs_wait s), ?s)"
      using e True less.prems by (simp add: after_failure_Ok)
    then have step: "retry_loop sleep operation s (?at k) = retry_loop sleep operation ?s (?at (Suc k))"
      using op e less.prems(3) by (subst retry_loop.simps) simp
    have "rs_remaining ?s < rs_remaining s" "rs_remaining ?s + Suc k = attempts"
      using True less.prems by auto
    moreover have "rs_wait ?s = min duration_max (backoff * 2 ^ Suc k)"
      by (simp only: less.prems(3) saturated_double) simp
    ultimately obtain m where m: "Suc k \<le> m" "m < attempts"
      "retry_loop sleep operation ?s (?at (Suc k)) = operation (?at m)"
      "\<forall>j. Suc k \<le> j \<and> j < m \<longrightarrow> transient (fst (operation (?at j)))"
      "transient (fst (operation (?at m))) \<longrightarrow> Suc m = attempts"
      using less.hyps [of ?s "Suc k"] True by blast
    have "transient (fst (operation (?at j)))" if "k \<le> j" "j < m" for j
      using that m(4) True op by (cases "j = k") auto
    with m step show ?thesis by (intro exI [of _ m]) (simp add: Suc_leD)
  next
    case False
    then have "retry_loop sleep operation s (?at k) = operation (?at k)"
      using op less.prems
      by (subst retry_loop.simps) (cases r; auto simp: after_failure_def Let_def)
    with False op less.prems(2) show ?thesis by (intro exI [of _ k]) auto
  qed
qed

lemma retry_loop_retried:
  assumes "0 < attempts" "backoff \<le> duration_max"
  shows "retried sleep attempts backoff operation
    (retry_loop sleep operation (retry_schedule_new attempts backoff))"
  unfolding retried_def
proof
  fix w
  from retry_loop_attempts [of "retry_schedule_new attempts backoff" 0 attempts backoff sleep operation w] assms
  show "\<exists>k<attempts. retry_loop sleep operation (retry_schedule_new attempts backoff) w =
      operation (before_attempt sleep operation backoff k w) \<and>
      (\<forall>j<k. transient (fst (operation (before_attempt sleep operation backoff j w)))) \<and>
      (transient (fst (operation (before_attempt sleep operation backoff k w))) \<longrightarrow> Suc k = attempts)"
    by (auto simp: retry_schedule_new_def min_def)
qed

lemma retried_once: "retried sleep (Suc 0) backoff operation operation"
  by (simp add: retried_def)

subsection \<open>Invariants through a stack of middleware\<close>

fun object_step :: "'w document_object \<Rightarrow> document_call \<Rightarrow> 'w \<Rightarrow> 'w" where
  "object_step d (Create v opts) w = snd (obj_create d v opts w)"
| "object_step d (Get i) w = snd (obj_get d i w)"
| "object_step d (Update i v opts) w = snd (obj_update d i v opts w)"
| "object_step d (Delete i) w = snd (obj_delete d i w)"
| "object_step d Keys w = snd (obj_keys d w)"
| "object_step d ListAll w = snd (obj_list d w)"
| "object_step d (Ttl i) w = snd (obj_ttl d i w)"

definition keeps :: "('w \<Rightarrow> bool) \<Rightarrow> 'w document_object \<Rightarrow> bool" where
  "keeps P d \<longleftrightarrow> (\<forall>c w. P w \<longrightarrow> P (object_step d c w))"

lemma object_step_document: "object_step (document_object_of d) c w = document_step d c w"
  by (cases c) (simp_all add: document_object_of_def)

lemma retry_loop_keeps:
  assumes "\<And>w. P w \<Longrightarrow> P (snd (operation w))" and "\<And>t w. P w \<Longrightarrow> P (sleep t w)"
  shows "P w \<Longrightarrow> P (snd (retry_loop sleep operation s w))"
proof (induction "rs_remaining s" arbitrary: s w rule: less_induct)
  case less
  obtain r w' where op: "operation w = (r, w')" by (metis surj_pair)
  have w': "P w'" using assms(1) [OF less.prems] op by simp
  show ?case
  proof (cases r)
    case (Err e)
    obtain q s' where f: "after_failure e s = (q, s')" by (metis surj_pair)
    show ?thesis
    proof (cases q)
      case (Ok delay)
      then have "rs_remaining s' < rs_remaining s" using f by (auto simp: after_failure_Ok)
      from less.hyps [OF this assms(2) [OF w']] show ?thesis
        using op Err f Ok by (subst retry_loop.simps) simp
    qed (use op Err f w' in \<open>subst retry_loop.simps, simp\<close>)+
  qed (use op w' in \<open>subst retry_loop.simps, simp\<close>)+
qed

lemma retry_keeps:
  assumes "keeps P d" and "\<And>t w. P w \<Longrightarrow> P (sleep t w)"
  shows "keeps P (with_retry sleep d attempts backoff)"
  unfolding keeps_def
proof (intro allI impI)
  fix c w
  assume "P w"
  have d: "P (object_step d c w)" if "P w" for c w
    using assms(1) that by (simp add: keeps_def)
  note one = d [of _ "Get _"] d [of _ "Delete _"] d [of _ Keys] d [of _ ListAll] d [of _ "Ttl _"]
  show "P (object_step (with_retry sleep d attempts backoff) c w)"
    using \<open>P w\<close> d [OF \<open>P w\<close>, of c] one [simplified]
    by (cases c)
      (auto simp: with_retry_def retry_document_object_def retry_get_def retry_op_def
        intro!: retry_loop_keeps [where P = P, OF _ assms(2)])
qed

lemma chain_keeps:
  assumes "\<And>m d. m \<in> set ms \<Longrightarrow> keeps P d \<Longrightarrow> keeps P (m d)"
  shows "keeps P d \<Longrightarrow> keeps P (chain d ms)"
  using assms by (induction d ms rule: chain.induct) simp_all

lemma keeps_calls: "keeps P d \<Longrightarrow> P w \<Longrightarrow> P (fold (object_step d) calls w)"
  by (induction calls arbitrary: w) (simp_all add: keeps_def)

subsection \<open>Properties\<close>

text \<open>C28: retry policy. Through the wrapper, get, delete, keys, list and ttl each behave as one of
  the first \<open>attempts\<close> attempts of the wrapped document: the first that succeeds or answers
  \<open>NotFound\<close>, or else the last, whose error is returned as it is; the delay before the second
  attempt is \<open>backoff\<close> and doubles up to the longest duration. Create and update run exactly once,
  and a policy of at most one attempt is the document itself.\<close>

theorem retry_first_settled_attempt:
  assumes "backoff \<le> duration_max" "r = with_retry sleep d attempts backoff" "n = max 1 attempts"
  shows "retried sleep n backoff (obj_get d i) (obj_get r i) \<and>
    retried sleep n backoff (obj_delete d i) (obj_delete r i) \<and>
    retried sleep n backoff (obj_keys d) (obj_keys r) \<and>
    retried sleep n backoff (obj_list d) (obj_list r) \<and>
    retried sleep n backoff (obj_ttl d i) (obj_ttl r i) \<and>
    obj_create r = obj_create d \<and> obj_update r = obj_update d \<and> (attempts \<le> 1 \<longrightarrow> r = d)"
proof (cases "attempts \<le> 1")
  case True
  then show ?thesis by (simp add: assms(2,3) with_retry_def retried_once)
next
  case False
  then have "0 < attempts" "n = attempts" using assms(3) by simp_all
  with False assms(1) show ?thesis
    by (simp add: assms(2) with_retry_def retry_document_object_def retry_get_def retry_op_def retry_loop_retried)
qed

text \<open>A document on a world that counts its calls: the first two fail, the others succeed.\<close>

definition flaky_object :: "(nat \<times> nat) document_object" where
  "flaky_object =
     (let attempt = (\<lambda>(calls, slept). (if calls < 2 then Err (Internal ''down'') else Ok (), (Suc calls, slept)))
      in \<lparr>obj_create = (\<lambda>v opts. io_bind attempt (\<lambda>_. io_ret ''created'')),
          obj_get = (\<lambda>i. io_bind attempt (\<lambda>_. io_ret [7])), obj_update = (\<lambda>i v opts. attempt),
          obj_delete = (\<lambda>i. attempt), obj_keys = io_bind attempt (\<lambda>_. io_ret [''key'']),
          obj_list = io_bind attempt (\<lambda>_. io_ret [[7]]), obj_ttl = (\<lambda>i. io_bind attempt (\<lambda>_. io_ret 5))\<rparr>)"

theorem retry_first_settled_attempt_witness:
  "obj_get (with_retry (\<lambda>t (calls, slept). (calls, slept + t)) flaky_object 3 10) ''id'' (0, 0) = (Ok [7], (3, 30))"
proof -
  let ?sleep = "\<lambda>t (calls, slept). (calls, slept + t :: nat)"
  let ?at = "\<lambda>k. before_attempt ?sleep (obj_get flaky_object ''id'') 10 k (0, 0)"
  have at: "?at 0 = (0, 0)" "?at (Suc 0) = (1, 10)" "?at (Suc (Suc 0)) = (2, 30)"
    by (simp_all add: flaky_object_def io_bind_def Let_def duration_max_def)
  have "10 \<le> duration_max" by (simp add: duration_max_def)
  from retry_first_settled_attempt [OF this refl refl, where sleep = ?sleep and d = flaky_object and attempts = 3
      and i = "''id''"]
  have "retried ?sleep 3 10 (obj_get flaky_object ''id'') (obj_get (with_retry ?sleep flaky_object 3 10) ''id'')"
    by simp
  then obtain k where k: "k < 3"
    "obj_get (with_retry ?sleep flaky_object 3 10) ''id'' (0, 0) = obj_get flaky_object ''id'' (?at k)"
    "transient (fst (obj_get flaky_object ''id'' (?at k))) \<longrightarrow> Suc k = 3"
    unfolding retried_def by blast
  have "k = 0 \<or> k = Suc 0 \<or> k = Suc (Suc 0)" using k(1) by auto
  with k(2,3) at show ?thesis
    by (auto simp: flaky_object_def io_bind_def Let_def io_ret_def)
qed

text \<open>composition of middleware with the document strategy. Whatever stack of retry policies is
  chained around a document, and whatever sequence of calls is made through it, with every
  attempt failing or not, every live entry stays enumerable.\<close>

theorem retried_document_enumerated:
  assumes "document_backend d live sts mem" "enumerated live mem d w"
    and "\<And>t w. calm live mem w (sleep t w)"
    and "stack = chain (document_object_of d) (map (\<lambda>(n, b). with_retry_middleware sleep n b) policies)"
  shows "enumerated live mem d (fold (object_step stack) calls w)"
proof -
  have "keeps (enumerated live mem d) (document_object_of d)"
    by (simp add: keeps_def object_step_document document_backend.step_enumerated [OF assms(1)])
  then have "keeps (enumerated live mem d) stack"
    unfolding assms(4)
    by (rule chain_keeps [rotated])
      (auto simp: with_retry_middleware_def intro!: retry_keeps enumerated_calm [OF _ assms(3)])
  from keeps_calls [OF this assms(2)] show ?thesis .
qed

theorem retried_document_enumerated_witness:
  "enumerated mem_live mem_members sample_document
     (fold (object_step (chain (document_object_of sample_document)
        (map (\<lambda>(n, b). with_retry_middleware (\<lambda>t w. w) n b) [(3, 10), (2, 5)])))
        [Create [1] options_default, Keys, Delete ''a''] id_world_new)"
  using retried_document_enumerated [OF sample_document_backend sample_enumerated calm_refl refl] .


end
