(* ===== verification/Typed.thy ===== *)
theory Typed
  imports Retry
begin

text \<open>
  Typed JSON views over a document: \<open>Typed<T>\<close> of \<open>cache/src/typed.rs\<close>.

  \<open>serde_json\<close> and the model's \<open>Serialize\<close> implementation are outside the sources: they are the
  record \<open>json\<close>, an encoder that may refuse a value, a decoder that reports a line and a column,
  and the name of the model type. What a round trip needs of them is \<open>json_laws\<close>.
\<close>

record 'a json =
  js_type_name :: string
  js_to_vec :: "'a \<Rightarrow> bytes option"
  js_from_slice :: "bytes \<Rightarrow> (nat \<times> nat) + 'a"

definition json_laws :: "'a json \<Rightarrow> bool" where
  "json_laws j \<longleftrightarrow> (\<forall>v b. js_to_vec j v = Some b \<longrightarrow> js_from_slice j b = Inr v)"

record ('w, 'a) typed =
  ty_document :: "'w document_object"
  ty_model :: "'a json"

definition typed_new :: "'a json \<Rightarrow> 'w document_object \<Rightarrow> ('w, 'a) typed" where
  "typed_new j d = \<lparr>ty_document = d, ty_model = j\<rparr>"

definition typed_encode :: "'a json \<Rightarrow> string \<Rightarrow> 'a \<Rightarrow> bytes rresult" where
  "typed_encode j operation v =
     (case js_to_vec j v of
        Some b \<Rightarrow> Ok b
      | None \<Rightarrow> Err (Internal (''typed Document '' @ operation @ '': cannot encode '' @ js_type_name j @ '' as JSON'')))"

definition typed_decode :: "'a json \<Rightarrow> string \<Rightarrow> bytes \<Rightarrow> 'a rresult" where
  "typed_decode j operation body =
     (case js_from_slice j body of
        Inr v \<Rightarrow> Ok v
      | Inl (line, column) \<Rightarrow>
          Err (Internal (''typed Document '' @ operation @ '': cannot decode '' @ js_type_name j @
            '' as JSON at line '' @ show_nat line @ '' column '' @ show_nat column)))"

definition typed_delete :: "('w, 'a) typed \<Rightarrow> string \<Rightarrow> ('w, unit) io" where
  "typed_delete t i = obj_delete (ty_document t) i"

definition typed_keys :: "('w, 'a) typed \<Rightarrow> ('w, string list) io" where
  "typed_keys t = obj_keys (ty_document t)"

definition typed_ttl :: "('w, 'a) typed \<Rightarrow> string \<Rightarrow> ('w, nat) io" where
  "typed_ttl t i = obj_ttl (ty_document t) i"

definition typed_create :: "('w, 'a) typed \<Rightarrow> 'a \<Rightarrow> options \<Rightarrow> ('w, string) io" where
  "typed_create t v opts =
     io_bind (io_lift (typed_encode (ty_model t) ''create'' v)) (\<lambda>body.
       obj_create (ty_document t) body opts)"

definition typed_put :: "('w, 'a) typed \<Rightarrow> string \<Rightarrow> 'a \<Rightarrow> options \<Rightarrow> ('w, string) io" where
  "typed_put t i v opts =
     io_bind (io_lift (typed_encode (ty_model t) ''put'' v)) (\<lambda>body.
       obj_create (ty_document t) body (opts\<lparr>opt_id := Some i\<rparr>))"

definition typed_update :: "('w, 'a) typed \<Rightarrow> string \<Rightarrow> 'a \<Rightarrow> options \<Rightarrow> ('w, unit) io" where
  "typed_update t i v opts =
     io_bind (io_lift (typed_encode (ty_model t) ''update'' v)) (\<lambda>body.
       obj_update (ty_document t) i body opts)"

definition typed_get :: "('w, 'a) typed \<Rightarrow> string \<Rightarrow> ('w, 'a) io" where
  "typed_get t i =
     io_bind (obj_get (ty_document t) i) (\<lambda>body. io_lift (typed_decode (ty_model t) ''get'' body))"

text \<open>\<open>enumerate().map(decode).collect()\<close>: decoding in order, stopping at the first failure.\<close>

fun decode_entries :: "'a json \<Rightarrow> nat \<Rightarrow> bytes list \<Rightarrow> 'a list rresult" where
  "decode_entries j k [] = Ok []"
| "decode_entries j k (b # bs) =
     (case typed_decode j (''list entry '' @ show_nat k) b of
        Ok v \<Rightarrow> (case decode_entries j (Suc k) bs of
                   Ok vs \<Rightarrow> Ok (v # vs) | Err e \<Rightarrow> Err e | Panic \<Rightarrow> Panic)
      | Err e \<Rightarrow> Err e
      | Panic \<Rightarrow> Panic)"

definition typed_list :: "('w, 'a) typed \<Rightarrow> ('w, 'a list) io" where
  "typed_list t = io_bind (obj_list (ty_document t)) (\<lambda>bodies. io_lift (decode_entries (ty_model t) 0 bodies))"

subsection \<open>Decoding a listing\<close>

lemma typed_decode_good [simp]: "js_from_slice j b = Inr v \<Longrightarrow> typed_decode j op b = Ok v"
  by (simp add: typed_decode_def)

lemma typed_decode_bad: "js_from_slice j b = Inl lc \<Longrightarrow> \<exists>e. typed_decode j op b = Err e"
  by (simp add: typed_decode_def split: prod.split)

lemma decode_entries_Ok: "decode_entries j k bs = Ok vs \<longleftrightarrow> map (js_from_slice j) bs = map Inr vs"
proof (induction bs arbitrary: k vs)
  case (Cons b bs)
  show ?case
  proof (cases "js_from_slice j b")
    case (Inr v)
    then show ?thesis
      using Cons.IH [of "Suc k"]
      by (cases vs; cases "decode_entries j (Suc k) bs") auto
  next
    case (Inl lc)
    then obtain e where "typed_decode j (''list entry '' @ show_nat k) b = Err e"
      using typed_decode_bad by blast
    then have "decode_entries j k (b # bs) = Err e" by simp
    with Inl show ?thesis by auto
  qed
qed auto

lemma decode_entries_first_bad:
  assumes "n < length bs" "\<forall>m<n. \<exists>v. js_from_slice j (bs ! m) = Inr v" "js_from_slice j (bs ! n) = Inl e"
  shows "decode_entries j k bs = Err e' \<longleftrightarrow> typed_decode j (''list entry '' @ show_nat (k + n)) (bs ! n) = Err e'"
  using assms
proof (induction n arbitrary: k bs)
  case 0
  then obtain b bs' where bs: "bs = b # bs'" by (cases bs) auto
  with 0 obtain x where "typed_decode j (''list entry '' @ show_nat k) b = Err x"
    using typed_decode_bad [of j b e] by auto
  then show ?case by (simp add: bs)
next
  case (Suc n)
  then obtain b bs' where bs: "bs = b # bs'" by (cases bs) auto
  from Suc.prems(2) bs obtain v where "js_from_slice j b = Inr v" by auto
  moreover have "decode_entries j (Suc k) bs' = Err e' \<longleftrightarrow>
      typed_decode j (''list entry '' @ show_nat (Suc k + n)) (bs' ! n) = Err e'"
    using Suc.prems bs by (intro Suc.IH) auto
  ultimately show ?case
    by (cases "decode_entries j (Suc k) bs'") (simp_all add: bs)
qed

subsection \<open>Properties\<close>

text \<open>typed round trip. A value put under an identifier is stored under that identifier whatever
  the options name, and a typed read of it returns exactly that value, or the failure of the
  underlying read when that fails; it never fails to decode what was put. This holds over
  any lawful backend.\<close>

theorem typed_put_get:
  assumes "document_backend d live sts mem" "json_laws j" "t = typed_new j (document_object_of d)"
    and "typed_put t i v opts w = (Ok k, w1)"
  shows "k = i \<and>
    typed_get t i w1 =
      (case document_get d i w1 of
         (Ok body, w2) \<Rightarrow> (Ok v, w2) | (Err e, w2) \<Rightarrow> (Err e, w2) | (Panic, w2) \<Rightarrow> (Panic, w2))"
proof -
  let ?opts = "opts\<lparr>opt_id := Some i\<rparr>"
  from assms(3,4) obtain b where b: "js_to_vec j v = Some b"
    and c: "document_create d b ?opts w = (Ok k, w1)"
    by (auto simp: typed_put_def typed_new_def typed_encode_def document_object_of_def io_bind_Ok split: option.splits)
  from c have k: "k = i"
    by (auto simp: document_create_def io_bind_Ok document_resolve_id_def io_ret_def)
  have "live w1 (document_entry_key d i) = Some b"
    using document_backend.create_stores(1) [OF assms(1) c] k by simp
  moreover have kv: "kv_store (dw_driver d) live"
    using assms(1) by (simp add: document_backend_def listing_backend_def backend_def)
  ultimately have "body = b" if "document_get d i w1 = (Ok body, w2)" for body w2
    using kv_store.get_Ok [OF kv] outside_live [OF kv_store.get_frame [OF kv], of "document_entry_key d i" w1]
      that by (fastforce simp: document_get_def)
  moreover have "js_from_slice j b = Inr v" using assms(2) b by (simp add: json_laws_def)
  ultimately show ?thesis
    using k by (auto simp: typed_get_def assms(3) typed_new_def document_object_of_def io_bind_def io_lift_def
        split: prod.splits rresult.splits)
qed

text \<open>A model of one byte whose encoder refuses zero.\<close>

definition byte_json :: "8 word json" where
  "byte_json = \<lparr>js_type_name = ''Byte'', js_to_vec = (\<lambda>v. if v = 0 then None else Some [v]),
     js_from_slice = (\<lambda>b. case b of [v] \<Rightarrow> Inr v | _ \<Rightarrow> Inl (1, length b))\<rparr>"

lemma byte_json_laws: "json_laws byte_json"
  by (simp add: json_laws_def byte_json_def)

theorem typed_put_get_witness:
  "\<exists>w1. typed_put (typed_new byte_json (document_object_of sample_document)) ''b'' 2 options_default sample_created
       = (Ok ''b'', w1) \<and>
     typed_get (typed_new byte_json (document_object_of sample_document)) ''b'' w1 = (Ok 2, w1)"
proof -
  let ?t = "typed_new byte_json (document_object_of sample_document)"
  obtain w1 where c: "document_create sample_document [2] (with_id ''b'' options_default) sample_created
      = (Ok ''b'', w1)" and l: "mem_live w1 = (mem_live sample_created)(document_entry_key sample_document ''b'' \<mapsto> [2])"
    using sample_create_eq by blast
  from c have p: "typed_put ?t ''b'' 2 options_default sample_created = (Ok ''b'', w1)"
    by (simp add: typed_put_def typed_new_def typed_encode_def byte_json_def document_object_of_def with_id_def)
  have "document_get sample_document ''b'' w1 = (Ok [2], w1)"
    using l by (simp add: document_get_def memory_driver_def mem_get_eq)
  with typed_put_get [OF sample_document_backend byte_json_laws refl p] p show ?thesis by auto
qed

text \<open>typed failures. A value that cannot be encoded reaches no backend: the call fails and
  the world is unchanged. A listing is decoded completely or not at all: it succeeds exactly when
  every body decodes, and otherwise reports the position of the first that does not. No message
  depends on a stored value.\<close>

theorem typed_all_or_nothing:
  assumes "t = typed_new j d"
    and "obj_list d w = (Ok bodies, w')"
  shows "(js_to_vec j v = None \<longrightarrow>
      (\<exists>e. typed_create t v opts w = (Err (Internal e), w)) \<and> (\<exists>e. typed_put t i v opts w = (Err (Internal e), w)) \<and>
      (\<exists>e. typed_update t i v opts w = (Err (Internal e), w))) \<and>
    (typed_list t w = (Ok vs, w') \<longleftrightarrow> map (js_from_slice j) bodies = map Inr vs) \<and>
    (n < length bodies \<and> (\<forall>m<n. \<exists>v. js_from_slice j (bodies ! m) = Inr v) \<and>
       js_from_slice j (bodies ! n) = Inl (line, column) \<longrightarrow>
       typed_list t w = (Err (Internal (''typed Document list entry '' @ show_nat n @ '': cannot decode '' @
         js_type_name j @ '' as JSON at line '' @ show_nat line @ '' column '' @ show_nat column)), w'))"
proof (intro conjI impI)
  show "typed_list t w = (Ok vs, w') \<longleftrightarrow> map (js_from_slice j) bodies = map Inr vs"
    using assms by (auto simp: typed_list_def typed_new_def io_bind_def decode_entries_Ok)
next
  assume bad: "n < length bodies \<and> (\<forall>m<n. \<exists>v. js_from_slice j (bodies ! m) = Inr v) \<and>
    js_from_slice j (bodies ! n) = Inl (line, column)"
  then show "typed_list t w = (Err (Internal (''typed Document list entry '' @ show_nat n @ '': cannot decode '' @
         js_type_name j @ '' as JSON at line '' @ show_nat line @ '' column '' @ show_nat column)), w')"
    using assms decode_entries_first_bad [of n bodies j "(line, column)" 0]
    by (simp add: typed_list_def typed_new_def io_bind_def typed_decode_def)
qed (use assms(1) in \<open>simp_all add: typed_create_def typed_put_def typed_update_def typed_new_def typed_encode_def io_fail_def\<close>)

theorem typed_all_or_nothing_witness:
  "typed_list (typed_new byte_json (flaky_object\<lparr>obj_list := io_ret [[4], [], [5, 6]]\<rparr>)) (0, 0) =
     (Err (Internal ''typed Document list entry 1: cannot decode Byte as JSON at line 1 column 0''), (0, 0))"
proof -
  let ?d = "flaky_object\<lparr>obj_list := io_ret [[4], [], [5, 6]]\<rparr>"
  have l: "obj_list ?d (0, 0) = (Ok [[4], [], [5, 6]], (0, 0))" by (simp add: io_ret_def)
  have digits: "show_nat 0 = ''0''" "show_nat 1 = ''1''" by code_simp+
  show ?thesis
    using conjunct2 [OF conjunct2 [OF typed_all_or_nothing [OF refl l, of byte_json _ _ _ _ 1 1 0]]]
    unfolding digits by (simp add: byte_json_def)
qed

end
