(* ===== verification/Memcached.thy ===== *)
theory Memcached
  imports Database
begin

text \<open>
  The Memcached backend: \<open>cache/src/drivers/memcached.rs\<close>.

  \<^item> Expiry encoding, timeouts, server planning.
  \<^item> The transport: a \<open>Router\<close> over one client per distinct server, and the executor that
    rejects work after close. The protocol client (the \<open>memcache\<close> crate) and the CRC32 hash are
    arguments: a client is the record \<open>meta_client\<close> of the calls the source makes on it.
  \<^item> \<open>MemcachedPrimitives\<close>: the \<open>Driver\<close> and \<open>Bulk\<close> traits over any executor.
  \<^item> The provider.

  \<open>try_join_all\<close> runs the groups of a batch concurrently on different servers; the model runs
  them in server order, one of the possible interleavings. What a server answers is the locale
  \<open>memcached_transport\<close>; under it the adapter keeps the contract of \<open>Driver\<close>.
\<close>

definition go_default_timeout :: nat where "go_default_timeout = 500 * 10 ^ 6"
definition go_default_max_idle :: nat where "go_default_max_idle = 2"
definition thirty_days_seconds :: nat where "thirty_days_seconds = 60 * 60 * 24 * 30"
definition probe_key :: string where "probe_key = ''__runtime_go_probe''"

subsection \<open>Timeouts and expiry\<close>

datatype operation_timeout = OperationDefault | OperationDisabled | OperationAfter nat
datatype timeout_intent = IntentDefault | IntentDisabled | IntentAfter nat

fun intent_of_dial :: "dial_timeout \<Rightarrow> timeout_intent" where
  "intent_of_dial DialDefault = IntentDefault"
| "intent_of_dial DialDisabled = IntentDisabled"
| "intent_of_dial (DialAfter d) = IntentAfter d"

fun resolve_timeout :: "string \<Rightarrow> timeout_intent \<Rightarrow> nat option rresult" where
  "resolve_timeout kind IntentDefault = Ok (Some go_default_timeout)"
| "resolve_timeout kind IntentDisabled = Ok None"
| "resolve_timeout kind (IntentAfter d) =
     (if d = 0 then Err (Internal (''memcached: '' @ kind @ '' timeout must be positive'')) else Ok (Some d))"

definition resolve_dial_timeout :: "dial_timeout \<Rightarrow> nat option rresult" where
  "resolve_dial_timeout t = resolve_timeout ''dial'' (intent_of_dial t)"

definition resolve_operation_timeout :: "operation_timeout \<Rightarrow> nat option rresult" where
  "resolve_operation_timeout t =
     resolve_timeout ''operation''
       (case t of OperationDefault \<Rightarrow> IntentDefault | OperationDisabled \<Rightarrow> IntentDisabled
        | OperationAfter d \<Rightarrow> IntentAfter d)"

text \<open>\<open>now\<close> is the wall clock, in nanoseconds from the Unix epoch; \<open>u32::try_from\<close> is written out.\<close>

definition to_expiry_at :: "nat \<Rightarrow> int \<Rightarrow> 32 word rresult" where
  "to_expiry_at ttl now =
     (if ttl = 0 then Ok 0
      else let seconds = max (as_secs ttl) 1 in
        if seconds \<le> thirty_days_seconds then
          (if seconds < 2 ^ 32 then Ok (word_of_nat seconds)
           else Err (Internal ''memcached: relative expiry overflow: out of range integral type conversion attempted''))
        else case system_time_checked_add now ttl of
            None \<Rightarrow> Err (Internal ''memcached: absolute expiry overflow'')
          | Some deadline \<Rightarrow>
              if deadline < 0 then
                Err (Internal ''memcached: absolute expiry predates Unix epoch: second time provided was later than self'')
              else if as_secs (nat deadline) < 2 ^ 32 then Ok (word_of_nat (as_secs (nat deadline)))
              else Err (Internal ''memcached: absolute expiry exceeds protocol range: out of range integral type conversion attempted''))"

subsection \<open>Server planning\<close>

text \<open>\<open>str::trim().is_empty()\<close>: only white space, in UTF-8.\<close>

fun blank :: "string \<Rightarrow> bool" where
  "blank [] = True"
| "blank (c # cs) =
     (if c \<in> {CHR '' '', CHR 0x09, CHR 0x0A, CHR 0x0B, CHR 0x0C, CHR 0x0D} then blank cs
      else if c = CHR 0xC2 then
        (case cs of d # ds \<Rightarrow> d \<in> {CHR 0x85, CHR 0xA0} \<and> blank ds | [] \<Rightarrow> False)
      else if c = CHR 0xE1 then
        (case cs of d # e # es \<Rightarrow> d = CHR 0x9A \<and> e = CHR 0x80 \<and> blank es | _ \<Rightarrow> False)
      else if c = CHR 0xE2 then
        (case cs of d # e # es \<Rightarrow>
           (d = CHR 0x80 \<and> e \<in> {CHR 0x80, CHR 0x81, CHR 0x82, CHR 0x83, CHR 0x84, CHR 0x85, CHR 0x86,
              CHR 0x87, CHR 0x88, CHR 0x89, CHR 0x8A, CHR 0xA8, CHR 0xA9, CHR 0xAF} \<or>
            d = CHR 0x81 \<and> e = CHR 0x9F) \<and> blank es | _ \<Rightarrow> False)
      else if c = CHR 0xE3 then
        (case cs of d # e # es \<Rightarrow> d = CHR 0x80 \<and> e = CHR 0x80 \<and> blank es | _ \<Rightarrow> False)
      else False)"

declare blank.simps(2) [simp del]

text \<open>The loop of \<open>plan_servers\<close>; the \<open>HashMap\<close> of known addresses is \<open>indexes\<close>.\<close>

fun plan_loop ::
  "string list \<Rightarrow> (string \<rightharpoonup> nat) \<Rightarrow> string list \<Rightarrow> nat list \<Rightarrow> (string list \<times> nat list) rresult" where
  "plan_loop [] indexes uniq slots = Ok (uniq, slots)"
| "plan_loop (server # servers) indexes uniq slots =
     (if blank server then Err (Internal ''memcached: server address cannot be empty'')
      else case indexes server of
          Some index \<Rightarrow> plan_loop servers indexes uniq (slots @ [index])
        | None \<Rightarrow> plan_loop servers (indexes(server \<mapsto> length uniq)) (uniq @ [server]) (slots @ [length uniq]))"

definition plan_servers :: "string list \<Rightarrow> (string list \<times> nat list) rresult" where
  "plan_servers servers =
     (if servers = [] then Err (Internal ''memcached: at least one server is required'')
      else plan_loop servers Map.empty [] [])"

definition route_slot :: "(string \<Rightarrow> 32 word) \<Rightarrow> string \<Rightarrow> nat \<Rightarrow> nat rresult" where
  "route_slot crc32 key slots = (if slots = 0 then Panic else Ok (unat (crc32 key) mod slots))"

subsection \<open>Wire operations\<close>

datatype store_condition = StoreSet | StoreAdd | StoreReplace

datatype wire_operation =
    WireGet string bool "32 word option"
  | WireStore string bytes "32 word" store_condition
  | WireDelete string

fun wire_key :: "wire_operation \<Rightarrow> string" where
  "wire_key (WireGet key _ _) = key"
| "wire_key (WireStore key _ _ _) = key"
| "wire_key (WireDelete key) = key"

datatype wire_reply = Hit "bytes option" | Miss | Stored | AlreadyExists

fun debug_bytes :: "bytes \<Rightarrow> string" where
  "debug_bytes [] = ''''"
| "debug_bytes [b] = show_nat (unat b)"
| "debug_bytes (b # bs) = show_nat (unat b) @ '', '' @ debug_bytes bs"

fun debug_reply :: "wire_reply \<Rightarrow> string" where
  "debug_reply (Hit None) = ''Hit(None)''"
| "debug_reply (Hit (Some v)) = ''Hit(Some(['' @ debug_bytes v @ '']))''"
| "debug_reply Miss = ''Miss''"
| "debug_reply Stored = ''Stored''"
| "debug_reply AlreadyExists = ''AlreadyExists''"

definition mc_unexpected :: "string \<Rightarrow> wire_reply \<Rightarrow> cache_error" where
  "mc_unexpected operation reply =
     Internal (''memcached: unexpected '' @ operation @ '' reply '' @ debug_reply reply)"

definition mc_internal :: "string \<Rightarrow> string \<Rightarrow> string \<Rightarrow> cache_error" where
  "mc_internal operation server err =
     Internal (''memcached: '' @ operation @ '' on '' @ server @ '' failed: '' @ err)"

definition validate_reply_count :: "string \<Rightarrow> nat \<Rightarrow> nat \<Rightarrow> unit rresult" where
  "validate_reply_count operation expected actual =
     (if expected = actual then Ok ()
      else Err (Internal (''memcached: '' @ operation @ '' returned '' @ show_nat actual @ '' replies for ''
             @ show_nat expected @ '' keys'')))"

subsection \<open>One server\<close>

text \<open>
  Statuses and replies of the protocol client: the variants the source names, and any other by
  its \<open>Debug\<close> text. The calls of the client are given the arguments the source builds requests from.
\<close>

datatype get_status = GetHit | GetMiss | GetStatusOther string
datatype mutation_status = Applied | MutationNotFound | MutationAlreadyExists | MutationStatusOther string
datatype op_result = OpResultGet get_status "bytes option" | OpResultMutation mutation_status | OpResultOther string

datatype meta_op =
    OpGet string bool "32 word option"
  | OpSet string bytes "32 word" store_condition
  | OpDelete string

record 'w meta_client =
  mc_address :: string
  mc_send_get :: "string \<Rightarrow> bool \<Rightarrow> 32 word option \<Rightarrow> 'w \<Rightarrow> (string + get_status \<times> bytes option) \<times> 'w"
  mc_send_set :: "string \<Rightarrow> bytes \<Rightarrow> 32 word \<Rightarrow> store_condition \<Rightarrow> 'w \<Rightarrow> (string + mutation_status) \<times> 'w"
  mc_send_delete :: "string \<Rightarrow> 'w \<Rightarrow> (string + mutation_status) \<times> 'w"
  mc_run_batch :: "meta_op list \<Rightarrow> 'w \<Rightarrow> (string + (string + op_result) list) \<times> 'w"
  mc_debug :: "op_result \<Rightarrow> string"

fun decode_get :: "get_status \<Rightarrow> bytes option \<Rightarrow> wire_reply rresult" where
  "decode_get GetHit v = Ok (Hit v)"
| "decode_get GetMiss v = Ok Miss"
| "decode_get (GetStatusOther s) v = Err (Internal (''memcached: unexpected get status '' @ s))"

fun decode_mutation :: "mutation_status \<Rightarrow> wire_reply rresult" where
  "decode_mutation Applied = Ok Stored"
| "decode_mutation MutationNotFound = Ok Miss"
| "decode_mutation MutationAlreadyExists = Ok AlreadyExists"
| "decode_mutation (MutationStatusOther s) = Err (Internal (''memcached: unexpected mutation status '' @ s))"

fun execute_on :: "'w meta_client \<Rightarrow> wire_operation \<Rightarrow> ('w, wire_reply) io" where
  "execute_on server (WireGet key val touch) w =
     (case mc_send_get server key val touch w of
        (Inl e, w') \<Rightarrow> (Err (mc_internal ''get'' (mc_address server) e), w')
      | (Inr (status, v), w') \<Rightarrow> (decode_get status v, w'))"
| "execute_on server (WireStore key v expiry condition) w =
     (case mc_send_set server key v expiry condition w of
        (Inl e, w') \<Rightarrow> (Err (mc_internal ''store'' (mc_address server) e), w')
      | (Inr status, w') \<Rightarrow> (decode_mutation status, w'))"
| "execute_on server (WireDelete key) w =
     (case mc_send_delete server key w of
        (Inl e, w') \<Rightarrow> (Err (mc_internal ''delete'' (mc_address server) e), w')
      | (Inr status, w') \<Rightarrow> (decode_mutation status, w'))"

fun encode_operation :: "wire_operation \<Rightarrow> meta_op" where
  "encode_operation (WireGet key val touch) = OpGet key val touch"
| "encode_operation (WireStore key v expiry condition) = OpSet key v expiry condition"
| "encode_operation (WireDelete key) = OpDelete key"

fun decode_batch_reply :: "(op_result \<Rightarrow> string) \<Rightarrow> wire_operation \<Rightarrow> op_result \<Rightarrow> wire_reply rresult" where
  "decode_batch_reply dbg (WireGet _ _ _) (OpResultGet status v) = decode_get status v"
| "decode_batch_reply dbg (WireStore _ _ _ _) (OpResultMutation status) = decode_mutation status"
| "decode_batch_reply dbg (WireDelete _) (OpResultMutation status) = decode_mutation status"
| "decode_batch_reply dbg _ reply = Err (Internal (''memcached: batch returned mismatched reply '' @ dbg reply))"

definition decode_position ::
  "'w meta_client \<Rightarrow> (nat \<times> wire_operation) \<times> (string + op_result) \<Rightarrow> (nat \<times> wire_reply) rresult" where
  "decode_position server x =
     (case x of ((position, operation), reply) \<Rightarrow>
        (case reply of
           Inl e \<Rightarrow> Err (mc_internal ''batch operation'' (mc_address server) e)
         | Inr r \<Rightarrow> (case decode_batch_reply (mc_debug server) operation r of
                      Ok y \<Rightarrow> Ok (position, y) | Err e \<Rightarrow> Err e | Panic \<Rightarrow> Panic)))"

definition execute_group :: "'w meta_client \<Rightarrow> (nat \<times> wire_operation) list \<Rightarrow> ('w, (nat \<times> wire_reply) list) io" where
  "execute_group server grp w =
     (case mc_run_batch server (map (\<lambda>(_, operation). encode_operation operation) grp) w of
        (Inl e, w') \<Rightarrow> (Err (mc_internal ''batch'' (mc_address server) e), w')
      | (Inr replies, w') \<Rightarrow>
          if length replies \<noteq> length grp then
            (Err (Internal (''memcached: batch from '' @ mc_address server @ '' returned '' @ show_nat (length replies)
               @ '' replies for '' @ show_nat (length grp) @ '' operations'')), w')
          else (collect_results (decode_position server) (zip grp replies), w'))"

subsection \<open>Router and executor\<close>

record 'w router =
  rt_servers :: "'w meta_client list"
  rt_slots :: "nat list"
  rt_crc32 :: "string \<Rightarrow> 32 word"

definition server_index :: "'w router \<Rightarrow> string \<Rightarrow> nat rresult" where
  "server_index r key =
     (case route_slot (rt_crc32 r) key (length (rt_slots r)) of
        Ok slot \<Rightarrow> if slot < length (rt_slots r) then Ok (rt_slots r ! slot) else Panic
      | Err e \<Rightarrow> Err e
      | Panic \<Rightarrow> Panic)"

definition router_execute :: "'w router \<Rightarrow> wire_operation \<Rightarrow> ('w, wire_reply) io" where
  "router_execute r operation =
     io_bind (io_lift (server_index r (wire_key operation))) (\<lambda>s.
       if s < length (rt_servers r) then execute_on (rt_servers r ! s) operation else io_lift Panic)"

text \<open>\<open>groups[server].push((position, operation))\<close> for every operation in order.\<close>

fun group_operations ::
  "'w router \<Rightarrow> nat \<Rightarrow> wire_operation list \<Rightarrow> (nat \<times> wire_operation) list list
     \<Rightarrow> (nat \<times> wire_operation) list list rresult" where
  "group_operations r position [] groups = Ok groups"
| "group_operations r position (operation # operations) groups =
     (case server_index r (wire_key operation) of
        Ok s \<Rightarrow>
          if s < length groups
          then group_operations r (Suc position) operations (groups[s := groups ! s @ [(position, operation)]])
          else Panic
      | Err e \<Rightarrow> Err e
      | Panic \<Rightarrow> Panic)"

fun place_replies :: "(nat \<times> wire_reply) list \<Rightarrow> wire_reply option list \<Rightarrow> wire_reply option list rresult" where
  "place_replies [] ordered = Ok ordered"
| "place_replies ((position, reply) # rest) ordered =
     (if position < length ordered then place_replies rest (ordered[position := Some reply]) else Panic)"

definition reply_at :: "nat \<times> wire_reply option \<Rightarrow> wire_reply rresult" where
  "reply_at x =
     (case snd x of
        Some reply \<Rightarrow> Ok reply
      | None \<Rightarrow> Err (Internal (''memcached: batch omitted reply at position '' @ show_nat (fst x))))"

definition router_execute_batch :: "'w router \<Rightarrow> wire_operation list \<Rightarrow> ('w, wire_reply list) io" where
  "router_execute_batch r operations =
     (if operations = [] then io_ret []
      else
        io_bind (io_lift (group_operations r 0 operations (replicate (length (rt_servers r)) []))) (\<lambda>groups.
        io_bind (io_collect (\<lambda>(server, group). execute_group (rt_servers r ! server) group)
                   (filter (\<lambda>(_, group). group \<noteq> []) (enumerate 0 groups))) (\<lambda>completed.
        io_bind (io_lift (place_replies (concat completed) (replicate (length operations) None))) (\<lambda>ordered.
        io_lift (collect_results reply_at (enumerate 0 ordered))))))"

record 'w mc_executor =
  mx_execute :: "wire_operation \<Rightarrow> ('w, wire_reply) io"
  mx_execute_batch :: "wire_operation list \<Rightarrow> ('w, wire_reply list) io"

definition mc_closed :: cache_error where
  "mc_closed = Internal ''memcached: client is closed''"

text \<open>
  \<open>ManagedExecutor\<close>: its \<open>RwLock<Option<Arc<Router>>>\<close> is a cell of the world, read by every command
  and emptied by \<open>close\<close>.
\<close>

record 'w router_cell =
  cell_read :: "'w \<Rightarrow> 'w router option"
  cell_write :: "'w router option \<Rightarrow> 'w \<Rightarrow> 'w"

definition mc_snapshot :: "'w router_cell \<Rightarrow> ('w, 'w router) io" where
  "mc_snapshot cell w = (case cell_read cell w of Some r \<Rightarrow> (Ok r, w) | None \<Rightarrow> (Err mc_closed, w))"

definition managed_executor :: "'w router_cell \<Rightarrow> 'w mc_executor" where
  "managed_executor cell =
     \<lparr>mx_execute = (\<lambda>operation. io_bind (mc_snapshot cell) (\<lambda>r. router_execute r operation)),
      mx_execute_batch = (\<lambda>operations. io_bind (mc_snapshot cell) (\<lambda>r. router_execute_batch r operations))\<rparr>"

definition managed_close :: "'w router_cell \<Rightarrow> 'w \<Rightarrow> 'w" where
  "managed_close cell w = cell_write cell None w"

definition mc_probe :: "'w mc_executor \<Rightarrow> ('w, unit) io" where
  "mc_probe ex =
     io_bind (mx_execute ex (WireGet probe_key True None)) (\<lambda>reply.
       case reply of Hit _ \<Rightarrow> io_ret () | Miss \<Rightarrow> io_ret () | _ \<Rightarrow> io_fail (mc_unexpected ''probe'' reply))"

subsection \<open>Connecting\<close>

record memcached_config =
  mcfg_servers :: "string list"
  mcfg_dial_timeout :: dial_timeout
  mcfg_operation_timeout :: operation_timeout
  mcfg_max_idle :: nat

definition memcached_config_default :: memcached_config where
  "memcached_config_default = \<lparr>mcfg_servers = [], mcfg_dial_timeout = DialDefault,
     mcfg_operation_timeout = OperationDefault, mcfg_max_idle = 0\<rparr>"

text \<open>
  Dialling is the protocol client's: address, dial timeout, exchange timeout and idle limit. \<open>None\<close>
  is a dial that was still pending at its timeout; \<open>dbg\<close> is the \<open>Debug\<close> text of a \<open>Duration\<close>.
\<close>

type_synonym 'w dialer = "string \<Rightarrow> nat option \<Rightarrow> nat option \<Rightarrow> nat \<Rightarrow> 'w \<Rightarrow> (string + 'w meta_client) option \<times> 'w"

definition connect_server ::
  "(nat \<Rightarrow> string) \<Rightarrow> 'w dialer \<Rightarrow> nat option \<Rightarrow> nat option \<Rightarrow> nat \<Rightarrow> string \<Rightarrow> ('w, 'w meta_client) io" where
  "connect_server dbg dial dial_timeout operation_timeout max_idle address w =
     (case dial address dial_timeout operation_timeout max_idle w of
        (None, w') \<Rightarrow>
          (Err (Internal (''memcached: resolve server '' @ address @ '': timed out after '' @
             (case dial_timeout of Some t \<Rightarrow> dbg t | None \<Rightarrow> ''''))), w')
      | (Some (Inl e), w') \<Rightarrow> (Err (mc_internal ''resolve server'' address e), w')
      | (Some (Inr client), w') \<Rightarrow> (Ok client, w'))"

definition memcached_connect ::
  "(nat \<Rightarrow> string) \<Rightarrow> 'w dialer \<Rightarrow> (string \<Rightarrow> 32 word) \<Rightarrow> 'w router_cell \<Rightarrow> memcached_config \<Rightarrow> ('w, 'w mc_executor) io" where
  "memcached_connect dbg dial crc32 cell config =
     io_bind (io_lift (resolve_dial_timeout (mcfg_dial_timeout config))) (\<lambda>dial_timeout.
     io_bind (io_lift (resolve_operation_timeout (mcfg_operation_timeout config))) (\<lambda>operation.
     let max_idle = (if mcfg_max_idle config = 0 then go_default_max_idle else mcfg_max_idle config) in
     io_bind (io_lift (plan_servers (mcfg_servers config))) (\<lambda>(addresses, slots).
     io_bind (io_collect (connect_server dbg dial dial_timeout operation max_idle) addresses) (\<lambda>servers.
     io_bind (\<lambda>w. (Ok (), cell_write cell (Some \<lparr>rt_servers = servers, rt_slots = slots, rt_crc32 = crc32\<rparr>) w)) (\<lambda>_.
     io_bind (mc_probe (managed_executor cell)) (\<lambda>_.
     io_ret (managed_executor cell)))))))"

subsection \<open>Primitives\<close>

record 'w memcached_primitives =
  mp_executor :: "'w mc_executor"
  mp_now :: "'w \<Rightarrow> int"

definition mc_to_expiry :: "'w memcached_primitives \<Rightarrow> nat \<Rightarrow> ('w, 32 word) io" where
  "mc_to_expiry p ttl w = (to_expiry_at ttl (mp_now p w), w)"

definition mc_write ::
  "'w memcached_primitives \<Rightarrow> string \<Rightarrow> bytes \<Rightarrow> nat \<Rightarrow> store_condition \<Rightarrow> ('w, bool) io" where
  "mc_write p key v ttl condition =
     io_bind (mc_to_expiry p ttl) (\<lambda>expiry.
     io_bind (mx_execute (mp_executor p) (WireStore key v expiry condition)) (\<lambda>reply.
       if reply = Stored then io_ret True
       else if condition = StoreAdd \<and> reply = AlreadyExists then io_ret False
       else if condition = StoreReplace \<and> reply = Miss then io_ret False
       else io_fail (mc_unexpected ''store'' reply)))"

definition mc_get :: "'w memcached_primitives \<Rightarrow> string \<Rightarrow> ('w, bytes) io" where
  "mc_get p key =
     io_bind (mx_execute (mp_executor p) (WireGet key True None)) (\<lambda>reply.
       case reply of
         Hit (Some v) \<Rightarrow> io_ret v
       | Miss \<Rightarrow> io_fail NotFound
       | _ \<Rightarrow> io_fail (mc_unexpected ''get'' reply))"

definition mc_set :: "'w memcached_primitives \<Rightarrow> string \<Rightarrow> bytes \<Rightarrow> nat \<Rightarrow> ('w, unit) io" where
  "mc_set p key v ttl = io_bind (mc_write p key v ttl StoreSet) (\<lambda>_. io_ret ())"

definition mc_add :: "'w memcached_primitives \<Rightarrow> string \<Rightarrow> bytes \<Rightarrow> nat \<Rightarrow> ('w, bool) io" where
  "mc_add p key v ttl = mc_write p key v ttl StoreAdd"

definition mc_replace :: "'w memcached_primitives \<Rightarrow> string \<Rightarrow> bytes \<Rightarrow> nat \<Rightarrow> ('w, bool) io" where
  "mc_replace p key v ttl = mc_write p key v ttl StoreReplace"

definition mc_delete_one :: "'w memcached_primitives \<Rightarrow> string \<Rightarrow> ('w, unit) io" where
  "mc_delete_one p key =
     io_bind (mx_execute (mp_executor p) (WireDelete key)) (\<lambda>reply.
       if reply = Stored \<or> reply = Miss then io_ret () else io_fail (mc_unexpected ''delete'' reply))"

definition mc_delete :: "'w memcached_primitives \<Rightarrow> string list \<Rightarrow> ('w, unit) io" where
  "mc_delete p keys = io_each (mc_delete_one p) keys"

definition mc_exists :: "'w memcached_primitives \<Rightarrow> string \<Rightarrow> ('w, bool) io" where
  "mc_exists p key =
     io_bind (mx_execute (mp_executor p) (WireGet key False None)) (\<lambda>reply.
       if reply = Hit None then io_ret True
       else if reply = Miss then io_ret False
       else io_fail (mc_unexpected ''exists'' reply))"

definition mc_touch :: "'w memcached_primitives \<Rightarrow> string \<Rightarrow> nat \<Rightarrow> ('w, unit) io" where
  "mc_touch p key ttl =
     io_bind (mc_to_expiry p ttl) (\<lambda>expiry.
     io_bind (mx_execute (mp_executor p) (WireGet key False (Some expiry))) (\<lambda>reply.
       if reply = Hit None then io_ret ()
       else if reply = Miss then io_fail NotFound
       else io_fail (mc_unexpected ''touch'' reply)))"

definition value_of_reply :: "wire_reply \<Rightarrow> bytes option rresult" where
  "value_of_reply reply =
     (case reply of
        Hit (Some v) \<Rightarrow> Ok (Some v)
      | Miss \<Rightarrow> Ok None
      | _ \<Rightarrow> Err (mc_unexpected ''get many'' reply))"

definition liveness_of_reply :: "wire_reply \<Rightarrow> bool rresult" where
  "liveness_of_reply reply =
     (if reply = Hit None then Ok True
      else if reply = Miss then Ok False
      else Err (mc_unexpected ''exists many'' reply))"

definition mc_get_many :: "'w memcached_primitives \<Rightarrow> string list \<Rightarrow> ('w, bytes option list) io" where
  "mc_get_many p keys =
     (if keys = [] then io_ret []
      else
        io_bind (mx_execute_batch (mp_executor p) (map (\<lambda>key. WireGet key True None) keys)) (\<lambda>replies.
        io_bind (io_lift (validate_reply_count ''get many'' (length keys) (length replies))) (\<lambda>_.
        io_lift (collect_results value_of_reply replies))))"

definition mc_exists_many :: "'w memcached_primitives \<Rightarrow> string list \<Rightarrow> ('w, bool list) io" where
  "mc_exists_many p keys =
     (if keys = [] then io_ret []
      else
        io_bind (mx_execute_batch (mp_executor p) (map (\<lambda>key. WireGet key False None) keys)) (\<lambda>replies.
        io_bind (io_lift (validate_reply_count ''exists many'' (length keys) (length replies))) (\<lambda>_.
        io_lift (collect_results liveness_of_reply replies))))"

definition memcached_driver :: "'w memcached_primitives \<Rightarrow> 'w driver" where
  "memcached_driver p =
     \<lparr>drv_name = ''memcached'', drv_get = mc_get p, drv_set = mc_set p, drv_add = mc_add p,
      drv_replace = mc_replace p, drv_delete = mc_delete p, drv_exists = mc_exists p, drv_touch = mc_touch p\<rparr>"

definition memcached_bulk :: "'w memcached_primitives \<Rightarrow> 'w bulk" where
  "memcached_bulk p = \<lparr>blk_get_many = mc_get_many p, blk_exists_many = mc_exists_many p\<rparr>"

subsection \<open>Provider\<close>

definition memcached_database ::
  "('w \<Rightarrow> string \<times> 'w) \<Rightarrow> 'w memcached_primitives \<Rightarrow> cache_config \<Rightarrow> string \<Rightarrow> nat \<Rightarrow> bool \<Rightarrow> 'w db" where
  "memcached_database default_new_id p config namespace database embed_db =
     build_database default_new_id (memcached_driver p) (with_bulk (memcached_bulk p) capabilities_new)
       (database_spec_default\<lparr>ds_prefix := cc_prefix config, ds_namespace := namespace, ds_database := database,
          ds_embed_db := embed_db, ds_default_ttl := cc_default_ttl config, ds_default_stale := cc_default_stale config,
          ds_concurrency := cc_concurrency config, ds_require_ttl := cc_require_ttl config\<rparr>)"

definition memcached_set_database ::
  "('w \<Rightarrow> string \<times> 'w) \<Rightarrow> 'w memcached_primitives \<Rightarrow> cache_config \<Rightarrow> string \<Rightarrow> ('w, 'w db) io" where
  "memcached_set_database default_new_id p config name =
     io_bind (io_lift (check_namespace name)) (\<lambda>_.
     io_bind (io_lift (check_known name (cc_databases config))) (\<lambda>_.
     io_ret (memcached_database default_new_id p config name 0 False)))"

definition memcached_select_index ::
  "('w \<Rightarrow> string \<times> 'w) \<Rightarrow> 'w memcached_primitives \<Rightarrow> cache_config \<Rightarrow> nat \<Rightarrow> ('w, 'w db) io" where
  "memcached_select_index default_new_id p config index =
     io_ret (memcached_database default_new_id p config '''' index True)"

definition memcached_drop_database :: "string \<Rightarrow> ('w, nat) io" where
  "memcached_drop_database name = io_bind (io_lift (check_namespace name)) (\<lambda>_. io_fail Unsupported)"

subsection \<open>Server planning, routing and expiry\<close>

definition planned :: "(string \<rightharpoonup> nat) \<Rightarrow> string list \<Rightarrow> nat list \<Rightarrow> string list \<Rightarrow> bool" where
  "planned indexes uniq slots seen \<longleftrightarrow>
     distinct uniq \<and> (\<forall>x i. indexes x = Some i \<longleftrightarrow> i < length uniq \<and> uniq ! i = x) \<and>
     (\<forall>i\<in>set slots. i < length uniq) \<and> map ((!) uniq) slots = seen \<and> set uniq = set seen"

lemma planned_known:
  assumes "planned indexes uniq slots seen" "indexes x = Some i"
  shows "planned indexes uniq (slots @ [i]) (seen @ [x])"
proof -
  have "i < length uniq" "uniq ! i = x" using assms by (auto simp: planned_def)
  then have "x \<in> set uniq" by auto
  with assms \<open>i < length uniq\<close> \<open>uniq ! i = x\<close> show ?thesis by (auto simp: planned_def)
qed

lemma planned_new:
  assumes "planned indexes uniq slots seen" "indexes x = None"
  shows "planned (indexes(x \<mapsto> length uniq)) (uniq @ [x]) (slots @ [length uniq]) (seen @ [x])"
proof -
  have x: "x \<notin> set uniq"
  proof
    assume "x \<in> set uniq"
    then obtain i where "i < length uniq" "uniq ! i = x" by (auto simp: in_set_conv_nth)
    then have "indexes x = Some i" using assms(1) unfolding planned_def by blast
    with assms(2) show False by simp
  qed
  note p = assms(1) [unfolded planned_def]
  have seen: "map ((!) (uniq @ [x])) slots = seen"
    using p by (auto simp: nth_append intro!: map_cong)
  have ix: "(indexes(x \<mapsto> length uniq)) y = Some i \<longleftrightarrow> i < length (uniq @ [x]) \<and> (uniq @ [x]) ! i = y" for y i
  proof (cases "y = x")
    case True
    then show ?thesis using x by (auto simp: nth_append less_Suc_eq)
  next
    case False
    then have "(indexes(x \<mapsto> length uniq)) y = Some i \<longleftrightarrow> i < length uniq \<and> uniq ! i = y" using p by simp
    with False show ?thesis by (auto simp: nth_append less_Suc_eq)
  qed
  show ?thesis
    unfolding planned_def
    using p x seen ix by (intro conjI allI) (simp_all del: fun_upd_apply add: less_Suc_eq)
qed

lemma plan_loop_planned:
  assumes "planned indexes uniq slots seen" "plan_loop servers indexes uniq slots = Ok (u, s)"
  shows "\<exists>ix. planned ix u s (seen @ servers)"
  using assms
proof (induction servers indexes uniq slots arbitrary: seen rule: plan_loop.induct)
  case (2 server servers indexes uniq slots)
  show ?case
  proof (cases "indexes server")
    case None
    with 2 planned_new [OF "2.prems"(1) None] show ?thesis by (fastforce split: if_splits)
  next
    case (Some i)
    with 2 planned_known [OF "2.prems"(1) Some] show ?thesis by (fastforce split: if_splits)
  qed
qed auto

lemma plan_loop_Ok_iff: "(\<exists>x. plan_loop servers indexes uniq slots = Ok x) \<longleftrightarrow> (\<forall>s\<in>set servers. \<not> blank s)"
  by (induction servers indexes uniq slots rule: plan_loop.induct)
    (auto simp del: fun_upd_apply split: option.split)

lemma plan_servers_Ok:
  assumes "plan_servers servers = Ok (u, slots)"
  shows "distinct u" "set u = set servers" "map ((!) u) slots = servers" "\<forall>i\<in>set slots. i < length u" "slots \<noteq> []"
proof -
  have "planned Map.empty [] [] []" by (simp add: planned_def)
  with assms obtain ix where "planned ix u slots servers" "servers \<noteq> []"
    by (auto simp: plan_servers_def split: if_splits dest: plan_loop_planned)
  then show "distinct u" "set u = set servers" "map ((!) u) slots = servers" "\<forall>i\<in>set slots. i < length u" "slots \<noteq> []"
    by (auto simp: planned_def)
qed

text \<open>The server a key lives on, and the contents of the whole cluster as one map.\<close>

definition home :: "'w router \<Rightarrow> string \<Rightarrow> nat" where
  "home r key = rt_slots r ! (unat (rt_crc32 r key) mod length (rt_slots r))"

definition routed :: "'w router \<Rightarrow> (nat \<Rightarrow> 'w \<Rightarrow> string \<rightharpoonup> bytes) \<Rightarrow> 'w \<Rightarrow> string \<rightharpoonup> bytes" where
  "routed r store w key = store (home r key) w key"

definition routable :: "'w router \<Rightarrow> bool" where
  "routable r \<longleftrightarrow> rt_slots r \<noteq> [] \<and> (\<forall>s\<in>set (rt_slots r). s < length (rt_servers r))"

lemma server_index_home: "routable r \<Longrightarrow> server_index r key = Ok (home r key)"
  by (simp add: server_index_def route_slot_def home_def routable_def)

lemma home_in_range: "routable r \<Longrightarrow> home r key < length (rt_servers r)"
  by (simp add: home_def routable_def)

lemma router_execute_home:
  "routable r \<Longrightarrow> router_execute r operation = execute_on (rt_servers r ! home r (wire_key operation)) operation"
  by (simp add: router_execute_def server_index_home home_in_range)

lemma to_expiry_relative:
  assumes "0 < ttl" "as_secs ttl \<le> thirty_days_seconds"
  shows "to_expiry_at ttl now = Ok (word_of_nat (max (as_secs ttl) 1))"
  using assms by (auto simp: to_expiry_at_def Let_def thirty_days_seconds_def max_def)

text \<open>lease encoding. A lease of at most thirty days is sent as its whole seconds, at least one, so it
  ends at most one second before and, above one second, never after the moment asked for; a longer
  one is sent as the absolute second it ends in, which is never read as a relative one. A lease is
  never turned into permanence, permanence never into a lease, and every lease that ends before
  the protocol's last second is accepted.\<close>

theorem memcached_expiry_bounds:
  assumes "0 \<le> now"
  shows "(\<forall>e. to_expiry_at ttl now = Ok e \<longrightarrow>
      (e = 0 \<longleftrightarrow> ttl = 0) \<and>
      (0 < ttl \<and> unat e \<le> thirty_days_seconds \<longrightarrow> secs (unat e) \<le> max ttl (secs 1) \<and> ttl < secs (unat e) + secs 1) \<and>
      (thirty_days_seconds < unat e \<longrightarrow>
         int (secs (unat e)) \<le> now + int ttl \<and> now + int ttl < int (secs (unat e) + secs 1))) \<and>
    (now + int ttl < int (secs (2 ^ 32)) \<longrightarrow> (\<exists>e. to_expiry_at ttl now = Ok e))"
proof (cases "ttl = 0")
  case True
  then show ?thesis by (simp add: to_expiry_at_def thirty_days_seconds_def)
next
  case False
  show ?thesis
  proof (cases "as_secs ttl \<le> thirty_days_seconds")
    case True
    let ?s = "max (as_secs ttl) 1"
    have ok: "to_expiry_at ttl now = Ok (word_of_nat ?s)" using True False by (simp add: to_expiry_relative)
    have s: "?s \<le> thirty_days_seconds" using True by (simp add: thirty_days_seconds_def)
    then have u: "unat (word_of_nat ?s :: 32 word) = ?s"
      by (simp add: unsigned_of_nat take_bit_nat_eq_self thirty_days_seconds_def)
    have "secs ?s \<le> max ttl (secs 1)" "ttl < secs ?s + secs 1"
      by (auto simp: secs_def as_secs_def max_def)
    moreover have "(word_of_nat ?s :: 32 word) \<noteq> 0" using u by (auto simp: unat_eq_zero [symmetric])
    moreover have "\<not> thirty_days_seconds < ?s" using s by linarith
    ultimately show ?thesis using ok u s False by (metis rresult.inject(1))
  next
    case long: False
    let ?d = "nat (now + int ttl)"
    have d: "int ?d = now + int ttl" using assms by simp
    have b: "thirty_days_seconds < as_secs ?d"
      using long assms by (auto simp: as_secs_def thirty_days_seconds_def)
    have ok: "to_expiry_at ttl now = Ok (word_of_nat (as_secs ?d))"
      if "now + int ttl \<le> clock_max \<and> as_secs ?d < 2 ^ 32"
      using that long False assms by (auto simp: to_expiry_at_def Let_def system_time_checked_add_def)
    have bad: "to_expiry_at ttl now \<noteq> Ok e" if "\<not> (now + int ttl \<le> clock_max \<and> as_secs ?d < 2 ^ 32)" for e
      using that long False assms by (auto simp: to_expiry_at_def Let_def system_time_checked_add_def)
    have bounds: "secs (as_secs ?d) \<le> ?d" "?d < secs (as_secs ?d) + secs 1"
      by (simp_all add: secs_def as_secs_def)
    show ?thesis
    proof (cases "now + int ttl \<le> clock_max \<and> as_secs ?d < 2 ^ 32")
      case True
      then have u: "unat (word_of_nat (as_secs ?d) :: 32 word) = as_secs ?d"
        by (simp add: unsigned_of_nat take_bit_nat_eq_self)
      have "(word_of_nat (as_secs ?d) :: 32 word) \<noteq> 0" using u b by (auto simp: unat_eq_zero [symmetric])
      moreover have "to_expiry_at ttl now = Ok (word_of_nat (as_secs ?d))" by (rule ok) (rule True)
      moreover have "int (secs (as_secs ?d)) \<le> now + int ttl" "now + int ttl < int (secs (as_secs ?d) + secs 1)"
        using bounds d by linarith+
      ultimately show ?thesis using u b False by auto
    next
      case out: False
      then have "\<not> now + int ttl < int (secs (2 ^ 32))"
        using assms by (auto simp: as_secs_def secs_def clock_max_def)
      then show ?thesis using bad [OF out] by blast
    qed
  qed
qed

theorem memcached_expiry_bounds_witness:
  "\<exists>e. to_expiry_at (secs 90 + 700000000) (10 ^ 18) = Ok e \<and> secs (unat e) \<le> secs 90 + 700000000 \<and>
     (\<exists>e2. to_expiry_at (secs 3000000) (10 ^ 18) = Ok e2 \<and> unat e2 = 1003000000)"
proof -
  have 1: "to_expiry_at (secs 90 + 700000000) (10 ^ 18) = Ok 90"
    by (simp add: to_expiry_at_def secs_def as_secs_def thirty_days_seconds_def)
  have 2: "to_expiry_at (secs 3000000) (10 ^ 18) = Ok 1003000000"
    by (simp add: to_expiry_at_def secs_def as_secs_def thirty_days_seconds_def system_time_checked_add_def clock_max_def)
  have "secs (unat (90 :: 32 word)) \<le> max (secs 90 + 700000000) (secs 1)"
    using memcached_expiry_bounds [of "10 ^ 18" "secs 90 + 700000000"] 1 by (simp add: thirty_days_seconds_def secs_def)
  then show ?thesis using 1 2 by (simp add: secs_def)
qed

subsection \<open>The adapter keeps the driver contract\<close>

lemma mc_get_Ok: "mc_get p k w = (Ok v, w') \<longleftrightarrow> mx_execute (mp_executor p) (WireGet k True None) w = (Ok (Hit (Some v)), w')"
proof (cases "mx_execute (mp_executor p) (WireGet k True None) w")
  case (Pair r w1)
  then show ?thesis
    by (cases r)
      (auto simp: mc_get_def io_bind_def io_ret_def io_fail_def split: wire_reply.split option.split)
qed

text \<open>What an executor answers about the one entry an operation names.\<close>

locale memcached_transport =
  fixes p :: "'w memcached_primitives"
    and live :: "'w \<Rightarrow> string \<rightharpoonup> bytes"
  assumes never_NotFound: "mx_execute (mp_executor p) operation w \<noteq> (Err NotFound, w')"
    and read_frame: "mx_execute (mp_executor p) (WireGet k val t) w = (r, w') \<Longrightarrow> outside {} (live w) (live w')"
    and read_hit: "mx_execute (mp_executor p) (WireGet k True t) w = (Ok (Hit (Some v)), w') \<Longrightarrow> live w' k = Some v"
    and read_present: "mx_execute (mp_executor p) (WireGet k False t) w = (Ok (Hit x), w') \<Longrightarrow> live w' k \<noteq> None"
    and read_miss: "mx_execute (mp_executor p) (WireGet k val t) w = (Ok Miss, w') \<Longrightarrow> live w' k = None"
    and store_frame: "mx_execute (mp_executor p) (WireStore k v e c) w = (r, w') \<Longrightarrow> outside {k} (live w) (live w')"
    and store_key: "mx_execute (mp_executor p) (WireStore k v e c) w = (r, w') \<Longrightarrow>
      live w' k \<in> {None, live w k, Some v}"
    and store_Stored: "mx_execute (mp_executor p) (WireStore k v e c) w = (Ok Stored, w') \<Longrightarrow> live w' k = Some v"
    and store_add: "mx_execute (mp_executor p) (WireStore k v e StoreAdd) w = (Ok AlreadyExists, w') \<Longrightarrow>
      live w' k = live w k \<and> live w k \<noteq> None"
    and store_replace: "mx_execute (mp_executor p) (WireStore k v e StoreReplace) w = (r, w') \<Longrightarrow>
      live w k = None \<Longrightarrow> live w' k = None"
    and store_replace_miss: "mx_execute (mp_executor p) (WireStore k v e StoreReplace) w = (Ok Miss, w') \<Longrightarrow>
      live w' k = None"
    and delete_frame: "mx_execute (mp_executor p) (WireDelete k) w = (r, w') \<Longrightarrow> outside {} (live w) (live w')"
    and delete_gone: "mx_execute (mp_executor p) (WireDelete k) w = (Ok reply, w') \<Longrightarrow> reply \<in> {Stored, Miss} \<Longrightarrow>
      live w' k = None"
begin

lemma write_cases:
  assumes "mc_write p k v ttl c w = (rb, w')"
  obtains (early) "w' = w" "\<And>b. rb \<noteq> Ok b"
    | (sent) e r where "mx_execute (mp_executor p) (WireStore k v e c) w = (r, w')"
        "rb = Ok True \<longleftrightarrow> r = Ok Stored"
        "rb = Ok False \<longleftrightarrow> c = StoreAdd \<and> r = Ok AlreadyExists \<or> c = StoreReplace \<and> r = Ok Miss"
proof (cases "to_expiry_at ttl (mp_now p w)")
  case (Ok e)
  obtain r w1 where x: "mx_execute (mp_executor p) (WireStore k v e c) w = (r, w1)" by (metis surj_pair)
  with assms Ok have "w1 = w'"
    by (auto simp: mc_write_def mc_to_expiry_def io_bind_def io_ret_def io_fail_def split: rresult.splits if_splits)
  with x assms Ok show ?thesis
    by (intro sent [of e r])
      (auto simp: mc_write_def mc_to_expiry_def io_bind_def io_ret_def io_fail_def split: rresult.splits if_splits)
qed (use assms in \<open>auto intro!: early simp: mc_write_def mc_to_expiry_def io_bind_def\<close>)

lemma write_frame: "mc_write p k v ttl c w = (rb, w') \<Longrightarrow> outside {k} (live w) (live w')"
  by (erule write_cases) (auto dest: store_frame)

lemma write_key: "mc_write p k v ttl c w = (rb, w') \<Longrightarrow> live w' k \<in> {None, live w k, Some v}"
  by (erule write_cases) (auto dest: store_key)

lemma write_True: "mc_write p k v ttl c w = (Ok True, w') \<Longrightarrow> live w' k = Some v"
  by (erule write_cases) (auto dest: store_Stored)

lemma set_written:
  "mc_set p k v ttl w = (r, w') \<Longrightarrow> \<exists>rb. mc_write p k v ttl StoreSet w = (rb, w') \<and> (r = Ok u \<longrightarrow> rb = Ok True)"
  by (fastforce simp: mc_set_def io_bind_def io_ret_def split: prod.splits rresult.splits elim: write_cases)

lemma delete_one_frame: "mc_delete_one p k w = (r, w') \<Longrightarrow> outside {} (live w) (live w')"
  by (auto simp: mc_delete_one_def io_bind_def io_ret_def io_fail_def
      split: prod.splits rresult.splits if_splits dest: delete_frame)

lemma delete_one_gone: "mc_delete_one p k w = (Ok u, w') \<Longrightarrow> live w' k = None"
  by (auto simp: mc_delete_one_def io_bind_Ok io_ret_def io_fail_def split: if_splits dest: delete_gone)

lemma delete_all_frame: "mc_delete p ks w = (r, w') \<Longrightarrow> outside {} (live w) (live w')"
  unfolding mc_delete_def
  by (rule io_each_invariant [where P = "\<lambda>x. outside {} (live w) (live x)", rotated 2])
    (auto intro: outside_trans dest: delete_one_frame)

lemma delete_all_gone: "mc_delete p ks w = (Ok u, w') \<Longrightarrow> k \<in> set ks \<Longrightarrow> live w' k = None"
proof (induction ks arbitrary: w)
  case (Cons x ks)
  then obtain w1 where x: "mc_delete_one p x w = (Ok (), w1)" and rest: "mc_delete p ks w1 = (Ok u, w')"
    by (auto simp: mc_delete_def io_bind_Ok)
  show ?case
  proof (cases "k = x")
    case True
    with outside_dead [OF delete_all_frame [OF rest]] delete_one_gone [OF x] show ?thesis by simp
  qed (use Cons rest in auto)
qed simp

end

sublocale memcached_transport \<subseteq> driver: kv_store "memcached_driver p" live
proof
  fix k v ttl w rg rb r w' ks b u
  show "drv_get (memcached_driver p) k w = (rg, w') \<Longrightarrow> outside {} (live w) (live w')"
    by (auto simp: memcached_driver_def mc_get_def io_bind_def io_ret_def io_fail_def
        split: prod.splits rresult.splits wire_reply.splits option.splits dest: read_frame)
  show "drv_get (memcached_driver p) k w = (Ok v, w') \<Longrightarrow> live w' k = Some v"
    by (auto simp: memcached_driver_def mc_get_Ok dest: read_hit)
  show "drv_get (memcached_driver p) k w = (Err NotFound, w') \<Longrightarrow> live w' k = None"
    by (auto simp: memcached_driver_def mc_get_def io_bind_def io_ret_def io_fail_def mc_unexpected_def never_NotFound
        split: prod.splits rresult.splits wire_reply.splits option.splits dest: read_miss)
  show "drv_set (memcached_driver p) k v ttl w = (r, w') \<Longrightarrow> outside {k} (live w) (live w')"
    by (auto simp: memcached_driver_def dest!: set_written dest: write_frame)
  show "drv_set (memcached_driver p) k v ttl w = (r, w') \<Longrightarrow> live w' k \<in> {None, live w k, Some v}"
    using write_key by (fastforce simp: memcached_driver_def dest!: set_written)
  show "drv_set (memcached_driver p) k v ttl w = (Ok u, w') \<Longrightarrow> live w' k = Some v"
    by (auto simp: memcached_driver_def dest!: set_written dest: write_True)
  show "drv_add (memcached_driver p) k v ttl w = (rb, w') \<Longrightarrow> outside {k} (live w) (live w')"
    by (auto simp: memcached_driver_def mc_add_def dest: write_frame)
  show "drv_add (memcached_driver p) k v ttl w = (rb, w') \<Longrightarrow> live w' k \<in> {None, live w k, Some v}"
    using write_key by (simp add: memcached_driver_def mc_add_def)
  show "drv_add (memcached_driver p) k v ttl w = (Ok True, w') \<Longrightarrow> live w' k = Some v"
    by (auto simp: memcached_driver_def mc_add_def dest: write_True)
  show "drv_add (memcached_driver p) k v ttl w = (Ok False, w') \<Longrightarrow> live w' k = live w k \<and> live w k \<noteq> None"
    by (auto simp: memcached_driver_def mc_add_def elim!: write_cases dest: store_add)
  show "drv_replace (memcached_driver p) k v ttl w = (rb, w') \<Longrightarrow> outside {k} (live w) (live w')"
    by (auto simp: memcached_driver_def mc_replace_def dest: write_frame)
  show "drv_replace (memcached_driver p) k v ttl w = (rb, w') \<Longrightarrow> live w' k \<noteq> None \<Longrightarrow>
      live w k \<noteq> None \<and> live w' k \<in> {live w k, Some v}"
  proof -
    assume "drv_replace (memcached_driver p) k v ttl w = (rb, w')" and alive: "live w' k \<noteq> None"
    then have x: "mc_write p k v ttl StoreReplace w = (rb, w')" by (simp add: memcached_driver_def mc_replace_def)
    then show ?thesis
      using write_key [OF x] alive by (cases rule: write_cases) (auto dest: store_replace)
  qed
  show "drv_replace (memcached_driver p) k v ttl w = (Ok True, w') \<Longrightarrow> live w' k = Some v"
    by (auto simp: memcached_driver_def mc_replace_def dest: write_True)
  show "drv_replace (memcached_driver p) k v ttl w = (Ok False, w') \<Longrightarrow> live w' k = None"
    by (auto simp: memcached_driver_def mc_replace_def elim!: write_cases dest: store_replace_miss)
  show "drv_delete (memcached_driver p) ks w = (r, w') \<Longrightarrow> outside {} (live w) (live w')"
    by (simp add: memcached_driver_def delete_all_frame)
  show "drv_delete (memcached_driver p) ks w = (Ok u, w') \<Longrightarrow> k \<in> set ks \<Longrightarrow> live w' k = None"
    by (simp add: memcached_driver_def delete_all_gone)
  show "drv_exists (memcached_driver p) k w = (rb, w') \<Longrightarrow> outside {} (live w) (live w')"
    by (auto simp: memcached_driver_def mc_exists_def io_bind_def io_ret_def io_fail_def
        split: prod.splits rresult.splits if_splits dest: read_frame)
  show "drv_exists (memcached_driver p) k w = (Ok b, w') \<Longrightarrow> b \<longleftrightarrow> live w' k \<noteq> None"
    using read_present read_miss
    by (auto simp: memcached_driver_def mc_exists_def io_bind_Ok io_ret_def io_fail_def split: if_splits)
  show "drv_touch (memcached_driver p) k ttl w = (r, w') \<Longrightarrow> outside {} (live w) (live w')"
    by (auto simp: memcached_driver_def mc_touch_def mc_to_expiry_def io_bind_def io_ret_def io_fail_def
        split: prod.splits rresult.splits if_splits dest: read_frame)
qed

context memcached_transport
begin

lemma driver_lawful: "kv_store (memcached_driver p) live"
  by unfold_locales

end

subsection \<open>Routing over several servers\<close>

text \<open>
  What one server (an opened protocol client) answers about its own contents \<open>store i\<close>: entries may
  disappear at any time, a command touches the entry it names on its server only, and the status
  says what was applied.
\<close>

locale memcached_servers =
  fixes r :: "'w router" and store :: "nat \<Rightarrow> 'w \<Rightarrow> string \<rightharpoonup> bytes" and cell :: "'w router_cell" and now :: "'w \<Rightarrow> int"
  assumes routable: "routable r"
    and opened: "cell_read cell w = Some r"
    and get_frame: "i < length (rt_servers r) \<Longrightarrow> mc_send_get (rt_servers r ! i) k val t w = (g, w') \<Longrightarrow>
      outside {} (store j w) (store j w')"
    and get_hit: "i < length (rt_servers r) \<Longrightarrow>
      mc_send_get (rt_servers r ! i) k val t w = (Inr (GetHit, x), w') \<Longrightarrow>
      store i w' k \<noteq> None \<and> x = (if val then store i w' k else None)"
    and get_miss: "i < length (rt_servers r) \<Longrightarrow>
      mc_send_get (rt_servers r ! i) k val t w = (Inr (GetMiss, x), w') \<Longrightarrow> store i w' k = None"
    and set_frame: "i < length (rt_servers r) \<Longrightarrow> mc_send_set (rt_servers r ! i) k v e c w = (m, w') \<Longrightarrow>
      outside (if j = i then {k} else {}) (store j w) (store j w')"
    and set_key: "i < length (rt_servers r) \<Longrightarrow> mc_send_set (rt_servers r ! i) k v e c w = (m, w') \<Longrightarrow>
      store i w' k \<in> {None, store i w k, Some v}"
    and set_applied: "i < length (rt_servers r) \<Longrightarrow>
      mc_send_set (rt_servers r ! i) k v e c w = (Inr Applied, w') \<Longrightarrow> store i w' k = Some v"
    and set_conflict: "i < length (rt_servers r) \<Longrightarrow>
      mc_send_set (rt_servers r ! i) k v e StoreAdd w = (Inr MutationAlreadyExists, w') \<Longrightarrow>
      store i w' k = store i w k \<and> store i w k \<noteq> None"
    and set_replace: "i < length (rt_servers r) \<Longrightarrow>
      mc_send_set (rt_servers r ! i) k v e StoreReplace w = (m, w') \<Longrightarrow> store i w k = None \<Longrightarrow> store i w' k = None"
    and set_missing: "i < length (rt_servers r) \<Longrightarrow>
      mc_send_set (rt_servers r ! i) k v e StoreReplace w = (Inr MutationNotFound, w') \<Longrightarrow> store i w' k = None"
    and delete_frame: "i < length (rt_servers r) \<Longrightarrow> mc_send_delete (rt_servers r ! i) k w = (m, w') \<Longrightarrow>
      outside {} (store j w) (store j w')"
    and delete_gone: "i < length (rt_servers r) \<Longrightarrow>
      mc_send_delete (rt_servers r ! i) k w = (Inr st, w') \<Longrightarrow> st \<in> {Applied, MutationNotFound} \<Longrightarrow> store i w' k = None"
begin

lemma execute_routed:
  "mx_execute (managed_executor cell) operation w = execute_on (rt_servers r ! home r (wire_key operation)) operation w"
  by (simp add: managed_executor_def mc_snapshot_def opened io_bind_def router_execute_home [OF routable])

lemma in_range: "home r k < length (rt_servers r)"
  by (rule home_in_range [OF routable])

lemma execute_errors: "execute_on c operation w \<noteq> (Err NotFound, w')"
  by (cases operation)
    (auto simp: mc_internal_def split: prod.splits sum.splits elim!: decode_get.elims decode_mutation.elims)

lemma routed_quiet: "(\<And>j. outside {} (store j w) (store j w')) \<Longrightarrow> outside {} (routed r store w) (routed r store w')"
  by (auto simp: outside_def routed_def)

lemma routed_one:
  "(\<And>j. outside (if j = home r k then {k} else {}) (store j w) (store j w')) \<Longrightarrow>
     outside {k} (routed r store w) (routed r store w')"
  unfolding outside_def routed_def by (metis (full_types) empty_iff)

lemma store_sent:
  assumes "execute_on (rt_servers r ! home r k) (WireStore k v e c) w = (q, w')"
  obtains m where "mc_send_set (rt_servers r ! home r k) k v e c w = (m, w')"
    "q = Ok Stored \<longleftrightarrow> m = Inr Applied" "q = Ok AlreadyExists \<longleftrightarrow> m = Inr MutationAlreadyExists"
    "q = Ok Miss \<longleftrightarrow> m = Inr MutationNotFound"
proof (cases "mc_send_set (rt_servers r ! home r k) k v e c w")
  case (Pair m w1)
  show ?thesis
  proof (cases m)
    case (Inr st)
    with assms Pair show ?thesis by (intro that [of m]) (cases st; auto)+
  qed (use assms Pair in \<open>auto intro!: that [of m]\<close>)
qed

lemma delete_sent:
  assumes "execute_on (rt_servers r ! home r k) (WireDelete k) w = (q, w')"
  obtains m where "mc_send_delete (rt_servers r ! home r k) k w = (m, w')"
    "q = Ok Stored \<longleftrightarrow> m = Inr Applied" "q = Ok Miss \<longleftrightarrow> m = Inr MutationNotFound"
proof (cases "mc_send_delete (rt_servers r ! home r k) k w")
  case (Pair m w1)
  show ?thesis
  proof (cases m)
    case (Inr st)
    with assms Pair show ?thesis by (intro that [of m]) (cases st; auto)+
  qed (use assms Pair in \<open>auto intro!: that [of m]\<close>)
qed

lemma get_sent:
  assumes "execute_on (rt_servers r ! home r k) (WireGet k val t) w = (q, w')"
  obtains g where "mc_send_get (rt_servers r ! home r k) k val t w = (g, w')"
    "\<And>x. q = Ok (Hit x) \<longleftrightarrow> g = Inr (GetHit, x)" "q = Ok Miss \<longleftrightarrow> (\<exists>x. g = Inr (GetMiss, x))"
proof (cases "mc_send_get (rt_servers r ! home r k) k val t w")
  case (Pair g w1)
  show ?thesis
  proof (cases g)
    case (Inr sx)
    obtain st x where "sx = (st, x)" by (cases sx)
    with assms Pair Inr show ?thesis by (intro that [of g]) (cases st; auto)+
  qed (use assms Pair in \<open>auto intro!: that [of g]\<close>)
qed

lemma hit_routed:
  assumes "execute_on (rt_servers r ! home r k) (WireGet k val t) w = (Ok (Hit x), w')"
  shows "routed r store w' k \<noteq> None \<and> x = (if val then routed r store w' k else None)"
proof -
  have "mc_send_get (rt_servers r ! home r k) k val t w = (Inr (GetHit, x), w')"
    using assms by (cases rule: get_sent) auto
  from get_hit [OF in_range this] show ?thesis unfolding routed_def .
qed

end

sublocale memcached_servers \<subseteq> transport: memcached_transport "\<lparr>mp_executor = managed_executor cell, mp_now = now\<rparr>" "routed r store"
proof (unfold_locales, unfold memcached_primitives.simps execute_routed wire_key.simps)
  fix operation k val t w w' v e c and q :: "wire_reply rresult" and x :: "bytes option" and reply
  show "execute_on (rt_servers r ! home r (wire_key operation)) operation w \<noteq> (Err NotFound, w')"
    by (rule execute_errors)
  show "execute_on (rt_servers r ! home r k) (WireGet k val t) w = (q, w') \<Longrightarrow> outside {} (routed r store w) (routed r store w')"
    by (erule get_sent) (auto intro!: routed_quiet get_frame [OF in_range])
  show "execute_on (rt_servers r ! home r k) (WireGet k True t) w = (Ok (Hit (Some v)), w') \<Longrightarrow> routed r store w' k = Some v"
    by (drule hit_routed) simp
  show "execute_on (rt_servers r ! home r k) (WireGet k False t) w = (Ok (Hit x), w') \<Longrightarrow> routed r store w' k \<noteq> None"
    by (drule hit_routed) simp
  show "execute_on (rt_servers r ! home r k) (WireGet k val t) w = (Ok Miss, w') \<Longrightarrow> routed r store w' k = None"
    by (erule get_sent) (auto simp: routed_def dest: get_miss [OF in_range])
  show "execute_on (rt_servers r ! home r k) (WireStore k v e c) w = (q, w') \<Longrightarrow> outside {k} (routed r store w) (routed r store w')"
    by (erule store_sent) (rule routed_one, erule set_frame [OF in_range])
  show "execute_on (rt_servers r ! home r k) (WireStore k v e c) w = (q, w') \<Longrightarrow>
      routed r store w' k \<in> {None, routed r store w k, Some v}"
    by (erule store_sent) (simp only: routed_def, erule set_key [OF in_range])
  show "execute_on (rt_servers r ! home r k) (WireStore k v e c) w = (Ok Stored, w') \<Longrightarrow> routed r store w' k = Some v"
    by (erule store_sent) (auto simp: routed_def dest: set_applied [OF in_range])
  show "execute_on (rt_servers r ! home r k) (WireStore k v e StoreAdd) w = (Ok AlreadyExists, w') \<Longrightarrow>
      routed r store w' k = routed r store w k \<and> routed r store w k \<noteq> None"
    by (erule store_sent) (auto simp: routed_def dest: set_conflict [OF in_range])
  show "execute_on (rt_servers r ! home r k) (WireStore k v e StoreReplace) w = (q, w') \<Longrightarrow>
      routed r store w k = None \<Longrightarrow> routed r store w' k = None"
    by (erule store_sent) (auto simp: routed_def dest: set_replace [OF in_range])
  show "execute_on (rt_servers r ! home r k) (WireStore k v e StoreReplace) w = (Ok Miss, w') \<Longrightarrow> routed r store w' k = None"
    by (erule store_sent) (auto simp: routed_def dest: set_missing [OF in_range])
  show "execute_on (rt_servers r ! home r k) (WireDelete k) w = (q, w') \<Longrightarrow> outside {} (routed r store w) (routed r store w')"
    by (erule delete_sent) (auto intro!: routed_quiet delete_frame [OF in_range])
  show "execute_on (rt_servers r ! home r k) (WireDelete k) w = (Ok reply, w') \<Longrightarrow> reply \<in> {Stored, Miss} \<Longrightarrow>
      routed r store w' k = None"
    by (erule delete_sent) (auto simp: routed_def dest: delete_gone [OF in_range])
qed

context memcached_servers
begin

lemma cluster_driver: "kv_store (memcached_driver \<lparr>mp_executor = managed_executor cell, mp_now = clock\<rparr>) (routed r store)"
proof -
  have "memcached_transport \<lparr>mp_executor = managed_executor cell, mp_now = clock\<rparr> (routed r store)"
    using transport.memcached_transport_axioms by (simp add: memcached_transport_def)
  then show ?thesis by (rule memcached_transport.driver_lawful)
qed

end

subsection \<open>A cluster of in-memory servers\<close>

text \<open>
  A concrete protocol client: server \<open>i\<close> of a cluster whose members are in-memory stores. It shows
  that the laws above can hold, and witnesses evaluate on it.
\<close>

definition cluster_get ::
  "nat \<Rightarrow> string \<Rightarrow> bool \<Rightarrow> 32 word option \<Rightarrow> (nat \<Rightarrow> mem_world) \<Rightarrow> (string + get_status \<times> bytes option) \<times> (nat \<Rightarrow> mem_world)" where
  "cluster_get i k val t w =
     (let s = (case t of None \<Rightarrow> w i | Some e \<Rightarrow> snd (mem_touch k (secs (unat e)) (w i)))
      in (case mem_live s k of
            Some v \<Rightarrow> (Inr (GetHit, if val then Some v else None), w(i := s))
          | None \<Rightarrow> (Inr (GetMiss, None), w(i := s))))"

definition cluster_set ::
  "nat \<Rightarrow> string \<Rightarrow> bytes \<Rightarrow> 32 word \<Rightarrow> store_condition \<Rightarrow> (nat \<Rightarrow> mem_world) \<Rightarrow> (string + mutation_status) \<times> (nat \<Rightarrow> mem_world)" where
  "cluster_set i k v e c w =
     (let (r, s) = (case c of
          StoreSet \<Rightarrow> io_bind (mem_set k v (secs (unat e))) (\<lambda>_. io_ret True) (w i)
        | StoreAdd \<Rightarrow> mem_add k v (secs (unat e)) (w i)
        | StoreReplace \<Rightarrow> mem_replace k v (secs (unat e)) (w i))
      in ((case r of
             Ok True \<Rightarrow> Inr Applied
           | Ok False \<Rightarrow> Inr (if c = StoreAdd then MutationAlreadyExists else MutationNotFound)
           | _ \<Rightarrow> Inl ''clock out of range''), w(i := s)))"

definition cluster_delete :: "nat \<Rightarrow> string \<Rightarrow> (nat \<Rightarrow> mem_world) \<Rightarrow> (string + mutation_status) \<times> (nat \<Rightarrow> mem_world)" where
  "cluster_delete i k w =
     (Inr (if mem_live (w i) k = None then MutationNotFound else Applied), w(i := snd (mem_delete [k] (w i))))"

fun cluster_op :: "nat \<Rightarrow> meta_op \<Rightarrow> (nat \<Rightarrow> mem_world) \<Rightarrow> (string + op_result) \<times> (nat \<Rightarrow> mem_world)" where
  "cluster_op i (OpGet k val t) w =
     (case cluster_get i k val t w of (Inr (st, x), w') \<Rightarrow> (Inr (OpResultGet st x), w') | (Inl e, w') \<Rightarrow> (Inl e, w'))"
| "cluster_op i (OpSet k v e c) w =
     (case cluster_set i k v e c w of (Inr st, w') \<Rightarrow> (Inr (OpResultMutation st), w') | (Inl e, w') \<Rightarrow> (Inl e, w'))"
| "cluster_op i (OpDelete k) w =
     (case cluster_delete i k w of (Inr st, w') \<Rightarrow> (Inr (OpResultMutation st), w') | (Inl e, w') \<Rightarrow> (Inl e, w'))"

fun cluster_ops :: "nat \<Rightarrow> meta_op list \<Rightarrow> (nat \<Rightarrow> mem_world) \<Rightarrow> (string + op_result) list \<times> (nat \<Rightarrow> mem_world)" where
  "cluster_ops i [] w = ([], w)"
| "cluster_ops i (x # xs) w =
     (let (r, w1) = cluster_op i x w; (rs, w2) = cluster_ops i xs w1 in (r # rs, w2))"

definition cluster_client :: "nat \<Rightarrow> (nat \<Rightarrow> mem_world) meta_client" where
  "cluster_client i =
     \<lparr>mc_address = ''server-'' @ show_nat i, mc_send_get = cluster_get i, mc_send_set = cluster_set i,
      mc_send_delete = cluster_delete i,
      mc_run_batch = (\<lambda>xs w. let (rs, w') = cluster_ops i xs w in (Inr rs, w')), mc_debug = (\<lambda>_. ''..'')\<rparr>"

text \<open>Two servers, the first with twice the weight of the second, under any hash.\<close>

definition cluster_router :: "(string \<Rightarrow> 32 word) \<Rightarrow> (nat \<Rightarrow> mem_world) router" where
  "cluster_router crc = \<lparr>rt_servers = [cluster_client 0, cluster_client 1], rt_slots = [0, 1, 0], rt_crc32 = crc\<rparr>"

definition cluster_cell :: "(string \<Rightarrow> 32 word) \<Rightarrow> (nat \<Rightarrow> mem_world) router_cell" where
  "cluster_cell crc = \<lparr>cell_read = (\<lambda>w. Some (cluster_router crc)), cell_write = (\<lambda>_ w. w)\<rparr>"

definition cluster_store :: "nat \<Rightarrow> (nat \<Rightarrow> mem_world) \<Rightarrow> string \<rightharpoonup> bytes" where
  "cluster_store i w = mem_live (w i)"

definition cluster_now :: "(nat \<Rightarrow> mem_world) \<Rightarrow> int" where
  "cluster_now w = int (mw_clock (w 0))"

lemma cluster_servers: "i < length (rt_servers (cluster_router crc)) \<Longrightarrow> rt_servers (cluster_router crc) ! i = cluster_client i"
  by (auto simp: cluster_router_def less_Suc_eq)

lemma cluster_routable: "routable (cluster_router crc)"
  by (simp add: routable_def cluster_router_def)

lemma cluster_set_effect:
  assumes "cluster_set i k v e c w = (m, w')"
  shows "cluster_store j w' = (if j = i \<and> m = Inr Applied then (cluster_store i w)(k \<mapsto> v) else cluster_store j w)"
    and "c = StoreAdd \<Longrightarrow> m = Inr MutationAlreadyExists \<Longrightarrow> cluster_store i w k \<noteq> None"
    and "c = StoreReplace \<Longrightarrow> m = Inr Applied \<Longrightarrow> cluster_store i w k \<noteq> None"
    and "c = StoreReplace \<Longrightarrow> m = Inr MutationNotFound \<Longrightarrow> cluster_store i w k = None"
proof -
  let ?ttl = "secs (unat e)"
  have "(\<forall>j. cluster_store j w' = (if j = i \<and> m = Inr Applied then (cluster_store i w)(k \<mapsto> v) else cluster_store j w)) \<and>
    (c = StoreAdd \<and> m = Inr MutationAlreadyExists \<longrightarrow> cluster_store i w k \<noteq> None) \<and>
    (c = StoreReplace \<and> m = Inr Applied \<longrightarrow> cluster_store i w k \<noteq> None) \<and>
    (c = StoreReplace \<and> m = Inr MutationNotFound \<longrightarrow> cluster_store i w k = None)"
  proof (cases c)
    case StoreSet
    obtain r s where s: "mem_set k v ?ttl (w i) = (r, s)" by (metis surj_pair)
    with assms StoreSet mem_set_cases [OF s] show ?thesis
      by (auto simp: cluster_set_def io_bind_def io_ret_def cluster_store_def)
  next
    case StoreAdd
    obtain r s where s: "mem_add k v ?ttl (w i) = (r, s)" by (metis surj_pair)
    with assms StoreAdd mem_add_cases [OF s] show ?thesis
      by (auto simp: cluster_set_def cluster_store_def)
  next
    case StoreReplace
    obtain r s where s: "mem_replace k v ?ttl (w i) = (r, s)" by (metis surj_pair)
    with assms StoreReplace mem_replace_cases [OF s] show ?thesis
      by (auto simp: cluster_set_def cluster_store_def)
  qed
  then show "cluster_store j w' = (if j = i \<and> m = Inr Applied then (cluster_store i w)(k \<mapsto> v) else cluster_store j w)"
    "c = StoreAdd \<Longrightarrow> m = Inr MutationAlreadyExists \<Longrightarrow> cluster_store i w k \<noteq> None"
    "c = StoreReplace \<Longrightarrow> m = Inr Applied \<Longrightarrow> cluster_store i w k \<noteq> None"
    "c = StoreReplace \<Longrightarrow> m = Inr MutationNotFound \<Longrightarrow> cluster_store i w k = None"
    by blast+
qed

lemma cluster_get_effect:
  assumes "cluster_get i k val t w = (g, w')"
  shows "cluster_store j w' = cluster_store j w"
    and "g = (case cluster_store i w k of
      Some v \<Rightarrow> Inr (GetHit, if val then Some v else None) | None \<Rightarrow> Inr (GetMiss, None))"
proof -
  define s where "s = (case t of None \<Rightarrow> w i | Some e \<Rightarrow> snd (mem_touch k (secs (unat e)) (w i)))"
  have live: "mem_live s = mem_live (w i)"
  proof (cases t)
    case (Some e)
    obtain q s' where "mem_touch k (secs (unat e)) (w i) = (q, s')" by (metis surj_pair)
    with mem_touch_cases [OF this] Some show ?thesis by (auto simp: s_def)
  qed (simp add: s_def)
  from assms have "w' = w(i := s)" "g = (case mem_live s k of
      Some v \<Rightarrow> Inr (GetHit, if val then Some v else None) | None \<Rightarrow> Inr (GetMiss, None))"
    by (auto simp: cluster_get_def s_def [symmetric] Let_def split: option.splits)
  with live show "cluster_store j w' = cluster_store j w"
    "g = (case cluster_store i w k of
      Some v \<Rightarrow> Inr (GetHit, if val then Some v else None) | None \<Rightarrow> Inr (GetMiss, None))"
    by (auto simp: cluster_store_def)
qed

lemma cluster_delete_effect:
  assumes "cluster_delete i k w = (m, w')"
  shows "cluster_store j w' = (if j = i then (cluster_store i w)(k := None) else cluster_store j w)"
proof -
  obtain q s where s: "mem_delete [k] (w i) = (q, s)" by (metis surj_pair)
  with mem_delete_eq [of "[k]" "w i"] have "mem_live s = (mem_live (w i))(k := None)" by (auto simp: fun_eq_iff)
  with assms s show ?thesis by (auto simp: cluster_delete_def cluster_store_def)
qed

interpretation cluster: memcached_servers "cluster_router crc" cluster_store "cluster_cell crc" cluster_now
proof (unfold_locales, goal_cases)
  case 1 then show ?case by (rule cluster_routable)
next
  case 2 then show ?case by (simp add: cluster_cell_def)
next
  case (3 i k val t w g w' j)
  then have "cluster_get i k val t w = (g, w')" by (simp add: cluster_servers cluster_client_def)
  from cluster_get_effect(1) [OF this] show ?case by simp
next
  case (4 i k val t w x w')
  then have g: "cluster_get i k val t w = (Inr (GetHit, x), w')" by (simp add: cluster_servers cluster_client_def)
  from cluster_get_effect [OF g] show ?case by (auto split: option.splits)
next
  case (5 i k val t w x w')
  then have g: "cluster_get i k val t w = (Inr (GetMiss, x), w')" by (simp add: cluster_servers cluster_client_def)
  from cluster_get_effect [OF g] show ?case by (auto split: option.splits)
next
  case (6 i k v e c w m w' j)
  then have "cluster_set i k v e c w = (m, w')" by (simp add: cluster_servers cluster_client_def)
  from cluster_set_effect(1) [OF this] show ?case by (simp add: outside_def)
next
  case (7 i k v e c w m w')
  then have "cluster_set i k v e c w = (m, w')" by (simp add: cluster_servers cluster_client_def)
  from cluster_set_effect(1) [OF this] show ?case by simp
next
  case (8 i k v e c w w')
  then have "cluster_set i k v e c w = (Inr Applied, w')" by (simp add: cluster_servers cluster_client_def)
  from cluster_set_effect(1) [OF this] show ?case by simp
next
  case (9 i k v e w w')
  then have "cluster_set i k v e StoreAdd w = (Inr MutationAlreadyExists, w')" by (simp add: cluster_servers cluster_client_def)
  from cluster_set_effect [OF this] show ?case by simp
next
  case (10 i k v e w m w')
  then have "cluster_set i k v e StoreReplace w = (m, w')" by (simp add: cluster_servers cluster_client_def)
  from cluster_set_effect [OF this] 10(3) show ?case by auto
next
  case (11 i k v e w w')
  then have "cluster_set i k v e StoreReplace w = (Inr MutationNotFound, w')" by (simp add: cluster_servers cluster_client_def)
  from cluster_set_effect [OF this] show ?case by simp
next
  case (12 i k w m w' j)
  then have "cluster_delete i k w = (m, w')" by (simp add: cluster_servers cluster_client_def)
  from cluster_delete_effect [OF this] show ?case by (simp add: outside_def)
next
  case (13 i k w st w')
  then have "cluster_delete i k w = (Inr st, w')" by (simp add: cluster_servers cluster_client_def)
  from cluster_delete_effect [OF this] show ?case by simp
qed

subsection \<open>Batches\<close>

lemma group_operations_filter:
  assumes "routable r" "length groups = length (rt_servers r)"
  shows "group_operations r position operations groups =
    Ok (map (\<lambda>s. groups ! s @ filter (\<lambda>(_, operation). home r (wire_key operation) = s) (enumerate position operations))
      [0..<length (rt_servers r)])"
  using assms(2)
proof (induction operations arbitrary: position groups)
  case Nil
  then show ?case by (auto intro: nth_equalityI)
next
  case (Cons operation operations)
  let ?h = "home r (wire_key operation)"
  let ?groups = "groups[?h := groups ! ?h @ [(position, operation)]]"
  have h: "?h < length groups" using home_in_range [OF assms(1)] Cons.prems by simp
  then have "group_operations r position (operation # operations) groups
      = group_operations r (Suc position) operations ?groups"
    by (simp add: server_index_home [OF assms(1)])
  also have "\<dots> = Ok (map (\<lambda>s. ?groups ! s @ filter (\<lambda>(_, operation). home r (wire_key operation) = s)
      (enumerate (Suc position) operations)) [0..<length (rt_servers r)])"
    using Cons.prems by (intro Cons.IH) simp
  finally show ?case using h Cons.prems by (auto simp: nth_list_update intro!: map_cong)
qed

lemma place_replies_fun:
  assumes "\<And>position reply. (position, reply) \<in> set ps \<Longrightarrow> position < length ordered \<and> reply = f position"
  shows "place_replies ps ordered =
    Ok (map (\<lambda>i. if i \<in> fst ` set ps then Some (f i) else ordered ! i) [0..<length ordered])"
  using assms
proof (induction ps arbitrary: ordered)
  case Nil
  then show ?case by (simp add: map_nth)
next
  case (Cons x ps)
  obtain position reply where x: "x = (position, reply)" by (cases x)
  with Cons.prems have p: "position < length ordered" "reply = f position" by auto
  have "place_replies (x # ps) ordered = place_replies ps (ordered[position := Some reply])"
    using x p by simp
  also have "\<dots> = Ok (map (\<lambda>i. if i \<in> fst ` set ps then Some (f i) else ordered[position := Some reply] ! i)
      [0..<length ordered])"
    using Cons.prems by (subst Cons.IH) auto
  finally show ?case using x p by (auto simp: nth_list_update)
qed

lemma collect_replies:
  assumes "\<And>i. i < length ordered \<Longrightarrow> ordered ! i = Some (g i)"
  shows "collect_results reply_at (enumerate 0 ordered) = Ok (map g [0..<length ordered])"
proof -
  have "map reply_at (enumerate 0 ordered) = map Ok (map g [0..<length ordered])"
    using assms by (intro nth_equalityI) (simp_all add: nth_enumerate_eq reply_at_def)
  then show ?thesis by (simp add: collect_results_Ok)
qed

lemma io_collect_each_pure:
  "(\<And>x. x \<in> set xs \<Longrightarrow> f x w = (Ok (g x), w)) \<Longrightarrow> io_collect f xs w = (Ok (map g xs), w)"
  by (induction xs) (simp_all add: io_bind_def io_ret_def)

lemma enumerate_map_upt: "enumerate 0 (map h [0..<n]) = map (\<lambda>s. (s, h s)) [0..<n]"
  by (rule nth_equalityI) (simp_all add: nth_enumerate_eq)

lemma in_concat_map: "y \<in> set (f x) \<Longrightarrow> x \<in> set xs \<Longrightarrow> y \<in> set (concat (map f xs))"
  by auto

lemma concat_map_filter: "(\<And>x. \<not> P x \<Longrightarrow> f x = []) \<Longrightarrow> concat (map f (filter P xs)) = concat (map f xs)"
  by (induction xs) auto

text \<open>Whatever the grouping, replies come back in the order of the operations.\<close>

lemma router_execute_batch_ordered:
  assumes "routable r"
    and "\<And>i ps. i < length (rt_servers r) \<Longrightarrow> (\<forall>x\<in>set ps. snd x \<in> set operations) \<Longrightarrow>
      execute_group (rt_servers r ! i) ps w = (Ok (map (\<lambda>(position, operation). (position, answer i operation)) ps), w)"
  shows "router_execute_batch r operations w =
    (Ok (map (\<lambda>operation. answer (home r (wire_key operation)) operation) operations), w)"
proof (cases "operations = []")
  case True
  then show ?thesis by (simp add: router_execute_batch_def io_ret_def)
next
  case False
  let ?n = "length (rt_servers r)"
  let ?group = "\<lambda>s. filter (\<lambda>(_, operation). home r (wire_key operation) = s) (enumerate 0 operations)"
  let ?answers = "\<lambda>s. map (\<lambda>(position, operation). (position, answer s operation)) (?group s)"
  let ?nonempty = "filter (\<lambda>(_, group). group \<noteq> []) (enumerate 0 (map ?group [0..<?n]))"
  let ?final = "\<lambda>i. answer (home r (wire_key (operations ! i))) (operations ! i)"
  have groups: "group_operations r 0 operations (replicate ?n []) = Ok (map ?group [0..<?n])"
    by (subst group_operations_filter [OF assms(1)]) (auto intro!: map_cong)
  have group_members: "\<forall>y\<in>set (?group s). snd y \<in> set operations" for s
    by (auto simp: in_set_enumerate_eq)
  have collected: "io_collect (\<lambda>(server, group). execute_group (rt_servers r ! server) group) ?nonempty w
      = (Ok (map (\<lambda>(s, grp). ?answers s) ?nonempty), w)"
  proof (rule io_collect_each_pure)
    fix x assume "x \<in> set ?nonempty"
    then obtain s where s: "x = (s, ?group s)" "s < ?n" by (auto simp: enumerate_map_upt)
    from assms(2) [OF s(2) group_members] s(1)
    show "(case x of (server, g) \<Rightarrow> execute_group (rt_servers r ! server) g) w = (Ok (case x of (s, grp) \<Rightarrow> ?answers s), w)"
      by simp
  qed
  have "concat (map (\<lambda>(s, grp). ?answers s) ?nonempty) = concat (map ?answers [0..<?n])"
    unfolding enumerate_map_upt filter_map
    by (subst map_map, subst concat_map_filter) (auto simp: comp_def)
  moreover define placed_list where "placed_list = concat (map ?answers [0..<?n])"
  ultimately have placed_eq: "concat (map (\<lambda>(s, grp). ?answers s) ?nonempty) = placed_list" by simp
  have placed: "position < length operations \<and> reply = ?final position" if "(position, reply) \<in> set placed_list" for position reply
    using that by (auto simp: placed_list_def in_set_enumerate_eq)
  have all: "i \<in> fst ` set placed_list" if "i < length operations" for i
  proof -
    let ?s = "home r (wire_key (operations ! i))"
    have "(i, operations ! i) \<in> set (?group ?s)" using that by (simp add: in_set_enumerate_eq)
    then have "(i, answer ?s (operations ! i)) \<in> set (?answers ?s)"
      unfolding set_map by (rule image_eqI [rotated]) simp
    moreover have "?s \<in> set [0..<?n]" using home_in_range [OF assms(1)] by simp
    ultimately have "(i, answer ?s (operations ! i)) \<in> set placed_list"
      unfolding placed_list_def by (rule in_concat_map [where f = ?answers])
    then show ?thesis by (rule image_eqI [rotated]) simp
  qed
  have "place_replies placed_list (replicate (length operations) None)
      = Ok (map (\<lambda>i. Some (?final i)) [0..<length operations])"
    by (subst place_replies_fun [where f = ?final]) (use placed all in \<open>auto intro!: map_cong\<close>)
  moreover have "collect_results reply_at (enumerate 0 (map (\<lambda>i. Some (?final i)) [0..<length operations]))
      = Ok (map ?final [0..<length operations])"
    by (subst collect_replies [where g = ?final]) simp_all
  moreover have "map ?final [0..<length operations] = map (\<lambda>operation. answer (home r (wire_key operation)) operation) operations"
    by (rule nth_equalityI) simp_all
  ultimately show ?thesis
    using False by (simp add: router_execute_batch_def io_bind_def groups collected placed_eq io_lift_def)
qed

subsection \<open>Properties\<close>

text \<open>placement. Planning keeps one client per distinct address and one slot per configured entry,
  in order, so that a repeated address has its weight; the router built from a plan always finds a
  server, and a key goes to the configured entry its hash selects, whatever the deduplication.
  Planning fails exactly when there is no entry or a blank one.\<close>

theorem memcached_placement:
  assumes "plan_servers servers = Ok (addresses, slots)"
    and "r = \<lparr>rt_servers = map connect addresses, rt_slots = slots, rt_crc32 = crc32\<rparr>"
  shows "distinct addresses \<and> length slots = length servers \<and>
    (\<exists>s<length (rt_servers r). server_index r key = Ok s \<and>
       addresses ! s = servers ! (unat (crc32 key) mod length servers)) \<and>
    ((\<exists>x. plan_servers other = Ok x) \<longleftrightarrow> other \<noteq> [] \<and> (\<forall>s\<in>set other. \<not> blank s))"
proof -
  note plan = plan_servers_Ok [OF assms(1)]
  have len: "length slots = length servers" using plan(3) by (metis length_map)
  have "routable r" using plan(4,5) by (simp add: routable_def assms(2))
  moreover have "addresses ! home r key = servers ! (unat (crc32 key) mod length servers)"
    using plan(3,5) len unfolding home_def assms(2)
    by simp (metis length_greater_0_conv mod_less_divisor nth_map)
  ultimately have "\<exists>s<length (rt_servers r). server_index r key = Ok s \<and>
       addresses ! s = servers ! (unat (crc32 key) mod length servers)"
    using server_index_home home_in_range by metis
  moreover have "(\<exists>x. plan_servers other = Ok x) \<longleftrightarrow> other \<noteq> [] \<and> (\<forall>s\<in>set other. \<not> blank s)"
    by (simp add: plan_servers_def plan_loop_Ok_iff [simplified])
  ultimately show ?thesis using plan(1) len by blast
qed

theorem memcached_placement_witness:
  "\<exists>s. server_index \<lparr>rt_servers = map (\<lambda>a. cluster_client 0) [''a'', ''b''], rt_slots = [0, 1, 0], rt_crc32 = (\<lambda>_. 7)\<rparr> ''k'' = Ok s \<and>
     [''a'', ''b''] ! s = ''b''"
proof -
  have "plan_servers [''a'', ''b'', ''a''] = Ok ([''a'', ''b''], [0, 1, 0])"
    by (simp add: plan_servers_def blank.simps(2))
  from memcached_placement [OF this refl, of "\<lambda>a. cluster_client 0" "\<lambda>_. 7" "''k''" "[]"] show ?thesis by auto
qed

text \<open>one store out of many servers. Over servers that answer for their own entries, whichever way
  keys are hashed, the Memcached driver keeps the contract of \<open>Driver\<close> for the union of the
  servers' contents: reads, conditional writes and deletions act on the entry of their key on its
  home server, misses are reported as misses and failures never as misses.\<close>

theorem memcached_cluster_lawful:
  assumes "memcached_servers r store cell"
  shows "kv_store (memcached_driver \<lparr>mp_executor = managed_executor cell, mp_now = now\<rparr>) (routed r store)"
  by (rule memcached_servers.cluster_driver [OF assms])

theorem memcached_cluster_lawful_witness:
  "kv_store (memcached_driver \<lparr>mp_executor = managed_executor (cluster_cell (\<lambda>k. word_of_nat (length k))), mp_now = cluster_now\<rparr>)
     (routed (cluster_router (\<lambda>k. word_of_nat (length k))) cluster_store)"
  by (rule memcached_cluster_lawful) (rule cluster.memcached_servers_axioms)

lemma read_group:
  assumes "\<And>ks. mc_run_batch c (map (\<lambda>k. OpGet k val None) ks) w
      = (Inr (map (\<lambda>k. Inr (case answer k of (st, x) \<Rightarrow> OpResultGet st x)) ks), w)"
    and "\<And>k. decode_get (fst (answer k)) (snd (answer k)) = Ok (reply k)"
    and "\<forall>x\<in>set ps. snd x \<in> (\<lambda>k. WireGet k val None) ` K"
  shows "execute_group c ps w = (Ok (map (\<lambda>(position, operation). (position, reply (wire_key operation))) ps), w)"
proof -
  have ops: "map (\<lambda>(_, operation). encode_operation operation) ps = map (\<lambda>k. OpGet k val None) (map (wire_key \<circ> snd) ps)"
    using assms(3) by auto
  have "map (decode_position c) (zip ps (map (\<lambda>k. Inr (case answer k of (st, x) \<Rightarrow> OpResultGet st x)) (map (wire_key \<circ> snd) ps)))
      = map Ok (map (\<lambda>(position, operation). (position, reply (wire_key operation))) ps)"
  proof (intro nth_equalityI)
    fix i assume "i < length (map (decode_position c)
        (zip ps (map (\<lambda>k. Inr (case answer k of (st, x) \<Rightarrow> OpResultGet st x)) (map (wire_key \<circ> snd) ps))))"
    then have i: "i < length ps" by simp
    then obtain position k where p: "ps ! i = (position, WireGet k val None)"
      using assms(3) nth_mem [OF i] by (cases "ps ! i") fastforce
    with i assms(2) [of k] show "map (decode_position c)
        (zip ps (map (\<lambda>k. Inr (case answer k of (st, x) \<Rightarrow> OpResultGet st x)) (map (wire_key \<circ> snd) ps))) ! i =
        map Ok (map (\<lambda>(position, operation). (position, reply (wire_key operation))) ps) ! i"
      by (cases "answer k") (simp add: decode_position_def)
  qed simp
  then show ?thesis
    by (simp add: execute_group_def ops assms(1) collect_results_Ok del: map_map)
qed

text \<open>C7: batched reads. When nothing changes in between, the bulk reads, which group keys by server,
  pipeline each group and put the replies back in place, return for every key, in the caller's order,
  exactly what a single read of that key returns.\<close>

theorem memcached_bulk_agrees:
  assumes "routable r" "cell_read cell w = Some r"
    and "p = \<lparr>mp_executor = managed_executor cell, mp_now = now\<rparr>"
    and "\<And>i k val. i < length (rt_servers r) \<Longrightarrow> mc_send_get (rt_servers r ! i) k val None w = (Inr (answer i k val), w)"
    and "\<And>i ks val. i < length (rt_servers r) \<Longrightarrow> mc_run_batch (rt_servers r ! i) (map (\<lambda>k. OpGet k val None) ks) w =
      (Inr (map (\<lambda>k. Inr (case answer i k val of (st, x) \<Rightarrow> OpResultGet st x)) ks), w)"
    and "\<And>i k val. fst (answer i k val) = GetMiss \<or> (\<exists>v. answer i k val = (GetHit, if val then Some v else None))"
  shows "mc_get_many p keys w = (Ok (map (\<lambda>k. case mc_get p k w of (Ok v, _) \<Rightarrow> Some v | _ \<Rightarrow> None) keys), w) \<and>
    mc_exists_many p keys w = (Ok (map (\<lambda>k. fst (mc_exists p k w) = Ok True) keys), w)"
proof -
  define reply where "reply i val k = (if fst (answer i k val) = GetMiss then Miss else Hit (snd (answer i k val)))" for i val k
  have decode: "decode_get (fst (answer i k val)) (snd (answer i k val)) = Ok (reply i val k)" for i k val
    using assms(6) [of i k val] by (auto simp: reply_def)
  have single: "mx_execute (mp_executor p) (WireGet k val None) w = (Ok (reply (home r k) val k), w)" for k val
    using decode [of "home r k" k val] assms(4) [OF home_in_range [OF assms(1)], of k k val]
    by (cases "answer (home r k) k val")
      (simp add: assms(2,3) managed_executor_def mc_snapshot_def io_bind_def router_execute_home [OF assms(1)])
  have batch: "mx_execute_batch (mp_executor p) (map (\<lambda>k. WireGet k val None) keys) w
      = (Ok (map (\<lambda>k. reply (home r k) val k) keys), w)" for val
  proof -
    have "router_execute_batch r (map (\<lambda>k. WireGet k val None) keys) w =
      (Ok (map (\<lambda>operation. reply (home r (wire_key operation)) val (wire_key operation)) (map (\<lambda>k. WireGet k val None) keys)), w)"
      by (rule router_execute_batch_ordered [OF assms(1), where answer = "\<lambda>i operation. reply i val (wire_key operation)"])
        (rule read_group [OF assms(5) decode], auto)
    then show ?thesis by (simp add: assms(2,3) managed_executor_def mc_snapshot_def io_bind_def comp_def)
  qed
  have val: "value_of_reply (reply i True k) = Ok (if reply i True k = Miss then None else snd (answer i k True))" for i k
    using assms(6) [of i k True] by (auto simp: reply_def value_of_reply_def)
  have alive: "liveness_of_reply (reply i False k) = Ok (reply i False k \<noteq> Miss)" for i k
    using assms(6) [of i k False] by (auto simp: reply_def liveness_of_reply_def)
  have get: "(case mc_get p k w of (Ok v, _) \<Rightarrow> Some v | _ \<Rightarrow> None) =
      (if reply (home r k) True k = Miss then None else snd (answer (home r k) k True))" for k
    using assms(6) [of "home r k" k True] by (auto simp: mc_get_def single io_bind_def io_ret_def io_fail_def reply_def)
  have ex: "fst (mc_exists p k w) = Ok True \<longleftrightarrow> reply (home r k) False k \<noteq> Miss" for k
    using assms(6) [of "home r k" k False] by (auto simp: mc_exists_def single io_bind_def io_ret_def io_fail_def reply_def)
  have "mc_get_many p keys w = (Ok (map (\<lambda>k. case mc_get p k w of (Ok v, _) \<Rightarrow> Some v | _ \<Rightarrow> None) keys), w)"
    unfolding get
    by (simp add: mc_get_many_def batch io_bind_def io_ret_def validate_reply_count_def collect_results_Ok val)
  moreover have "mc_exists_many p keys w = (Ok (map (\<lambda>k. fst (mc_exists p k w) = Ok True) keys), w)"
    unfolding ex
    by (simp add: mc_exists_many_def batch io_bind_def io_ret_def validate_reply_count_def collect_results_Ok alive)
  ultimately show ?thesis ..
qed

definition cluster_answer :: "(nat \<Rightarrow> mem_world) \<Rightarrow> nat \<Rightarrow> string \<Rightarrow> bool \<Rightarrow> get_status \<times> bytes option" where
  "cluster_answer w i k val =
     (case mem_live (w i) k of Some v \<Rightarrow> (GetHit, if val then Some v else None) | None \<Rightarrow> (GetMiss, None))"

lemma cluster_get_read: "cluster_get i k val None w = (Inr (cluster_answer w i k val), w)"
  by (simp add: cluster_get_def cluster_answer_def split: option.split)

lemma cluster_ops_reads:
  "cluster_ops i (map (\<lambda>k. OpGet k val None) ks) w =
     (map (\<lambda>k. Inr (case cluster_answer w i k val of (st, x) \<Rightarrow> OpResultGet st x)) ks, w)"
  by (induction ks) (simp_all add: cluster_get_read split: prod.split)

theorem memcached_bulk_agrees_witness:
  "\<exists>w. mc_get_many \<lparr>mp_executor = managed_executor (cluster_cell (\<lambda>k. word_of_nat (length k))), mp_now = cluster_now\<rparr>
       [''a'', ''bb''] w = (Ok [None, Some [5]], w)"
proof -
  let ?crc = "\<lambda>k :: string. word_of_nat (length k) :: 32 word"
  let ?p = "\<lparr>mp_executor = managed_executor (cluster_cell ?crc), mp_now = cluster_now\<rparr>"
  let ?w = "\<lambda>i. if i = (0 :: nat) then mem_insert ''bb'' [5] None memory_new else memory_new"
  have live: "mem_live (?w 0) ''bb'' = Some [5]" "mem_live (?w (Suc 0)) ''a'' = None"
    by (simp_all add: mem_live_def mem_insert_def memory_new_def is_expired_def)
  have "mc_get_many ?p [''a'', ''bb''] ?w =
      (Ok (map (\<lambda>k. case mc_get ?p k ?w of (Ok v, _) \<Rightarrow> Some v | _ \<Rightarrow> None) [''a'', ''bb'']), ?w)"
  proof (rule conjunct1 [OF memcached_bulk_agrees [OF cluster_routable _ refl, where answer = "cluster_answer ?w"]])
    show "cell_read (cluster_cell ?crc) ?w = Some (cluster_router ?crc)" by (simp add: cluster_cell_def)
  qed (auto simp: cluster_servers cluster_client_def cluster_get_read cluster_ops_reads cluster_answer_def
      split: option.split)
  moreover have "mc_get ?p k ?w = (case snd (cluster_answer ?w (home (cluster_router ?crc) k) k True) of
      Some v \<Rightarrow> (Ok v, ?w) | None \<Rightarrow> (Err NotFound, ?w))" for k
    using cluster_get_read [of _ k True ?w]
    by (simp add: mc_get_def cluster.execute_routed cluster_servers [OF cluster.in_range] cluster_client_def io_bind_def
        cluster_answer_def io_ret_def io_fail_def split: option.split)
  moreover have "home (cluster_router ?crc) ''a'' = Suc 0" "home (cluster_router ?crc) ''bb'' = 0"
    by (simp_all add: home_def cluster_router_def)
  ultimately have "mc_get_many ?p [''a'', ''bb''] ?w = (Ok [None, Some [5]], ?w)"
    using live by (simp add: cluster_answer_def)
  then show ?thesis by blast
qed

end
