(* ===== verification/Redis.thy ===== *)
theory Redis
  imports Database Drop
begin

text \<open>
  The Redis-compatible backend: \<open>cache/src/drivers/redis.rs\<close>, and its Dragonfly preset
  (\<open>cache/src/drivers/dragonfly.rs\<close>), which only supplies another profile.

  \<^item> Addresses, dial timeouts and lease encoding.
  \<^item> \<open>RespPrimitives\<close>: every capability trait over one command executor.
  \<^item> The client and the provider.

  The \<open>redis\<close> crate and the server behind it are arguments: a protocol value is of any type \<open>'v\<close>,
  read through the record \<open>resp_codec\<close> of the conversions the source asks for, and a manager sends
  a command, the list of its arguments as the source appends them. The two cursor walks may run
  forever when the server never ends its cursor: they are \<open>partial_function\<close>s, \<open>None\<close> being a call
  that does not return. Inside a trait record such a call is \<open>Panic\<close>: nothing after it runs.
\<close>

definition default_redis_address :: string where "default_redis_address = ''localhost:6379''"
definition scan_batch :: nat where "scan_batch = 256"

record resp_profile =
  pr_backend :: string
  pr_default_address :: string

definition redis_profile :: resp_profile where
  "redis_profile = \<lparr>pr_backend = ''redis'', pr_default_address = default_redis_address\<rparr>"

definition dragonfly_profile :: resp_profile where
  "dragonfly_profile = \<lparr>pr_backend = ''dragonfly'', pr_default_address = ''localhost:6379''\<rparr>"

record redis_config =
  rcfg_address :: string
  rcfg_username :: string
  rcfg_password :: string
  rcfg_database :: nat
  rcfg_dial_timeout :: dial_timeout

definition redis_config_default :: redis_config where
  "redis_config_default = \<lparr>rcfg_address = '''', rcfg_username = '''', rcfg_password = '''', rcfg_database = 0,
     rcfg_dial_timeout = DialDefault\<rparr>"

subsection \<open>Addresses, timeouts, leases\<close>

text \<open>\<open>str::split_once("]:")\<close> and \<open>str::rsplit_once(':')\<close>.\<close>

fun split_bracket :: "string \<Rightarrow> (string \<times> string) option" where
  "split_bracket (c # d # cs) =
     (if c = CHR '']'' \<and> d = CHR '':'' then Some ([], cs)
      else case split_bracket (d # cs) of Some (a, b) \<Rightarrow> Some (c # a, b) | None \<Rightarrow> None)"
| "split_bracket _ = None"

fun rsplit_colon :: "string \<Rightarrow> (string \<times> string) option" where
  "rsplit_colon [] = None"
| "rsplit_colon (c # cs) =
     (case rsplit_colon cs of
        Some (a, b) \<Rightarrow> Some (c # a, b)
      | None \<Rightarrow> if c = CHR '':'' then Some ([], cs) else None)"

text \<open>\<open>u16::from_str\<close>: digits after an optional plus sign, at most 65535.\<close>

definition is_digit :: "char \<Rightarrow> bool" where
  "is_digit c \<longleftrightarrow> c \<in> set ''0123456789''"

definition parse_u16 :: "string \<Rightarrow> nat option" where
  "parse_u16 s =
     (let digits = (case s of c # cs \<Rightarrow> if c = CHR ''+'' then cs else s | [] \<Rightarrow> s)
      in if digits \<noteq> [] \<and> list_all is_digit digits \<and> read_nat digits < 2 ^ 16 then Some (read_nat digits) else None)"

definition address_shape_error :: "string \<Rightarrow> cache_error" where
  "address_shape_error bk = Internal (bk @ '': address must be host:port or [ipv6]:port'')"

definition address_port_error :: "string \<Rightarrow> cache_error" where
  "address_port_error bk = Internal (bk @ '': address port must be between 1 and 65535'')"

definition parse_address :: "string \<Rightarrow> string \<Rightarrow> (string \<times> nat) rresult" where
  "parse_address bk address =
     (case (if take 1 address = ''['' then split_bracket (drop 1 address) else rsplit_colon address) of
        None \<Rightarrow> Err (address_shape_error bk)
      | Some (host, port) \<Rightarrow>
          if host = '''' then Err (Internal (bk @ '': address host cannot be empty''))
          else case parse_u16 port of
              None \<Rightarrow> Err (address_port_error bk)
            | Some n \<Rightarrow> if n = 0 then Err (address_port_error bk) else Ok (host, n))"

text \<open>
  The manager's configuration is the crate's; what the source sets on it is the connection timeout:
  left alone, removed, or given.
\<close>

datatype manager_timeout = TimeoutUntouched | TimeoutRemoved | TimeoutGiven nat

fun connection_manager_config :: "string \<Rightarrow> dial_timeout \<Rightarrow> manager_timeout rresult" where
  "connection_manager_config bk DialDefault = Ok TimeoutUntouched"
| "connection_manager_config bk DialDisabled = Ok TimeoutRemoved"
| "connection_manager_config bk (DialAfter d) =
     (if d = 0 then Err (Internal (bk @ '': dial timeout must be positive; use Default or Disabled''))
      else Ok (TimeoutGiven d))"

definition ttl_range_error :: "string \<Rightarrow> cache_error" where
  "ttl_range_error bk = Internal (bk @ '': TTL exceeds millisecond range'')"

text \<open>Milliseconds are a \<open>u128\<close> until the final conversion to \<open>u64\<close>.\<close>

definition ttl_millis :: "string \<Rightarrow> nat \<Rightarrow> nat rresult" where
  "ttl_millis bk ttl =
     (let whole = as_millis ttl in
      case (if subsec_nanos ttl mod 10 ^ 6 = 0 then Some whole
            else if whole + 1 < 2 ^ 128 then Some (whole + 1) else None) of
        None \<Rightarrow> Err (ttl_range_error bk)
      | Some rounded \<Rightarrow> if rounded < 2 ^ 64 then Ok rounded else Err (ttl_range_error bk))"

subsection \<open>Transport\<close>

datatype resp_arg = Text string | Blob bytes | Number nat

type_synonym resp_cmd = "resp_arg list"

record ('w, 'v) resp_manager =
  rm_query :: "resp_cmd \<Rightarrow> 'w \<Rightarrow> (string + 'v) \<times> 'w"
  rm_query_pipeline :: "resp_cmd list \<Rightarrow> 'w \<Rightarrow> (string + 'v list) \<times> 'w"

text \<open>The cell of \<open>ManagedExecutor\<close>, and the text of the crate's error for a closed client.\<close>

record ('w, 'v) manager_cell =
  mgr_read :: "'w \<Rightarrow> ('w, 'v) resp_manager option"
  mgr_write :: "('w, 'v) resp_manager option \<Rightarrow> 'w \<Rightarrow> 'w"
  mgr_closed :: string

record ('w, 'v) resp_executor =
  rx_execute :: "resp_cmd \<Rightarrow> 'w \<Rightarrow> (string + 'v) \<times> 'w"
  rx_execute_pipeline :: "resp_cmd list \<Rightarrow> 'w \<Rightarrow> (string + 'v list) \<times> 'w"
  rx_close :: "'w \<Rightarrow> 'w"

definition resp_managed_executor :: "('w, 'v) manager_cell \<Rightarrow> ('w, 'v) resp_executor" where
  "resp_managed_executor cell =
     \<lparr>rx_execute = (\<lambda>command w. case mgr_read cell w of
          Some m \<Rightarrow> rm_query m command w | None \<Rightarrow> (Inl (mgr_closed cell), w)),
      rx_execute_pipeline = (\<lambda>pipeline w. case mgr_read cell w of
          Some m \<Rightarrow> rm_query_pipeline m pipeline w | None \<Rightarrow> (Inl (mgr_closed cell), w)),
      rx_close = (\<lambda>w. mgr_write cell None w)\<rparr>"

record 'v resp_codec =
  rv_is_nil :: "'v \<Rightarrow> bool"
  rv_string :: "'v \<Rightarrow> string + string"
  rv_bytes :: "'v \<Rightarrow> string + bytes"
  rv_int :: "'v \<Rightarrow> string + int"
  rv_strings :: "'v \<Rightarrow> string + string list"
  rv_page :: "'v \<Rightarrow> string + 64 word \<times> string list"

definition resp_internal :: "string \<Rightarrow> string \<Rightarrow> string \<Rightarrow> cache_error" where
  "resp_internal bk operation err = Internal (bk @ '': '' @ operation @ '': '' @ err)"

definition resp_decode :: "string \<Rightarrow> string \<Rightarrow> ('v \<Rightarrow> string + 'a) \<Rightarrow> 'v \<Rightarrow> 'a rresult" where
  "resp_decode bk operation conv v =
     (case conv v of Inr x \<Rightarrow> Ok x | Inl e \<Rightarrow> Err (resp_internal bk operation e))"

definition validate_bulk_replies :: "string \<Rightarrow> string \<Rightarrow> nat \<Rightarrow> nat \<Rightarrow> unit rresult" where
  "validate_bulk_replies bk operation expected actual =
     (if expected = actual then Ok ()
      else Err (resp_internal bk operation
             (''received '' @ show_nat actual @ '' replies for '' @ show_nat expected @ '' commands'')))"

subsection \<open>Primitives\<close>

record ('w, 'v) resp_primitives =
  rp_profile :: resp_profile
  rp_executor :: "('w, 'v) resp_executor"
  rp_codec :: "'v resp_codec"

abbreviation rp_backend :: "('w, 'v) resp_primitives \<Rightarrow> string" where
  "rp_backend p \<equiv> pr_backend (rp_profile p)"

definition resp_command :: "('w, 'v) resp_primitives \<Rightarrow> string \<Rightarrow> resp_cmd \<Rightarrow> ('w, 'v) io" where
  "resp_command p operation command w =
     (case rx_execute (rp_executor p) command w of
        (Inr v, w') \<Rightarrow> (Ok v, w')
      | (Inl e, w') \<Rightarrow> (Err (resp_internal (rp_backend p) operation e), w'))"

definition resp_pipeline :: "('w, 'v) resp_primitives \<Rightarrow> string \<Rightarrow> resp_cmd list \<Rightarrow> ('w, 'v list) io" where
  "resp_pipeline p operation pipeline w =
     (case rx_execute_pipeline (rp_executor p) pipeline w of
        (Inr vs, w') \<Rightarrow> (Ok vs, w')
      | (Inl e, w') \<Rightarrow> (Err (resp_internal (rp_backend p) operation e), w'))"

definition resp_reply ::
  "('w, 'v) resp_primitives \<Rightarrow> string \<Rightarrow> string \<Rightarrow> ('v resp_codec \<Rightarrow> 'v \<Rightarrow> string + 'a) \<Rightarrow> resp_cmd \<Rightarrow> ('w, 'a) io" where
  "resp_reply p operation reply conv command =
     io_bind (resp_command p operation command) (\<lambda>v. io_lift (resp_decode (rp_backend p) reply (conv (rp_codec p)) v))"

definition resp_write ::
  "('w, 'v) resp_primitives \<Rightarrow> string \<Rightarrow> bytes \<Rightarrow> nat \<Rightarrow> string option \<Rightarrow> ('w, bool) io" where
  "resp_write p key v ttl condition =
     io_bind (if ttl = 0 then io_ret []
              else io_bind (io_lift (ttl_millis (rp_backend p) ttl)) (\<lambda>ms. io_ret [Text ''PX'', Number ms])) (\<lambda>px.
     io_bind (resp_command p ''set''
       ([Text ''SET'', Text key, Blob v] @ px @ (case condition of Some c \<Rightarrow> [Text c] | None \<Rightarrow> []))) (\<lambda>response.
     if rv_is_nil (rp_codec p) response then
       (if condition \<noteq> None then io_ret False
        else io_fail (resp_internal (rp_backend p) ''set reply'' ''unexpected nil response from unconditional SET''))
     else
       io_bind (io_lift (resp_decode (rp_backend p) ''set reply'' (rv_string (rp_codec p)) response)) (\<lambda>_. io_ret True)))"

definition resp_get :: "('w, 'v) resp_primitives \<Rightarrow> string \<Rightarrow> ('w, bytes) io" where
  "resp_get p key =
     io_bind (resp_command p ''get'' [Text ''GET'', Text key]) (\<lambda>v.
       if rv_is_nil (rp_codec p) v then io_fail NotFound
       else io_lift (resp_decode (rp_backend p) ''get reply'' (rv_bytes (rp_codec p)) v))"

definition resp_set :: "('w, 'v) resp_primitives \<Rightarrow> string \<Rightarrow> bytes \<Rightarrow> nat \<Rightarrow> ('w, unit) io" where
  "resp_set p key v ttl = io_bind (resp_write p key v ttl None) (\<lambda>_. io_ret ())"

definition resp_add :: "('w, 'v) resp_primitives \<Rightarrow> string \<Rightarrow> bytes \<Rightarrow> nat \<Rightarrow> ('w, bool) io" where
  "resp_add p key v ttl = resp_write p key v ttl (Some ''NX'')"

definition resp_replace :: "('w, 'v) resp_primitives \<Rightarrow> string \<Rightarrow> bytes \<Rightarrow> nat \<Rightarrow> ('w, bool) io" where
  "resp_replace p key v ttl = resp_write p key v ttl (Some ''XX'')"

definition resp_delete :: "('w, 'v) resp_primitives \<Rightarrow> string list \<Rightarrow> ('w, unit) io" where
  "resp_delete p keys =
     (if keys = [] then io_ret ()
      else io_bind (resp_reply p ''delete'' ''delete reply'' rv_int (Text ''DEL'' # map Text keys)) (\<lambda>_. io_ret ()))"

definition resp_exists :: "('w, 'v) resp_primitives \<Rightarrow> string \<Rightarrow> ('w, bool) io" where
  "resp_exists p key =
     io_bind (resp_reply p ''exists'' ''exists reply'' rv_int [Text ''EXISTS'', Text key]) (\<lambda>count. io_ret (count > 0))"

text \<open>\<open>E\<close> is the apostrophe of the two Lua scripts.\<close>

definition persist_script :: string where
  "persist_script = (let E = [CHR 0x27] in
     ''if redis.call('' @ E @ ''EXISTS'' @ E @ '', KEYS[1]) == 0 then return -1 end return redis.call('' @ E @ ''PERSIST''
       @ E @ '', KEYS[1])'')"

definition delete_if_script :: string where
  "delete_if_script = (let E = [CHR 0x27] in
     ''if redis.call('' @ E @ ''GET'' @ E @ '', KEYS[1]) == ARGV[1] then return redis.call('' @ E @ ''DEL'' @ E
       @ '', KEYS[1]) end return 0'')"

definition resp_touch :: "('w, 'v) resp_primitives \<Rightarrow> string \<Rightarrow> nat \<Rightarrow> ('w, unit) io" where
  "resp_touch p key ttl =
     io_bind
       (if ttl = 0 then
          io_bind (resp_reply p ''touch'' ''touch reply'' rv_int
            [Text ''EVAL'', Text persist_script, Number 1, Text key]) (\<lambda>n. io_ret (n \<ge> 0))
        else
          io_bind (io_lift (ttl_millis (rp_backend p) ttl)) (\<lambda>ms.
          io_bind (resp_reply p ''touch'' ''touch reply'' rv_int [Text ''PEXPIRE'', Text key, Number ms]) (\<lambda>n.
            io_ret (n > 0))))
       (\<lambda>ok. if ok then io_ret () else io_fail NotFound)"

definition show_int :: "int \<Rightarrow> string" where
  "show_int n = (if n < 0 then CHR ''-'' # show_nat (nat (- n)) else show_nat (nat n))"

definition resp_ttl :: "('w, 'v) resp_primitives \<Rightarrow> string \<Rightarrow> ('w, nat) io" where
  "resp_ttl p key =
     io_bind (resp_reply p ''ttl'' ''ttl reply'' rv_int [Text ''PTTL'', Text key]) (\<lambda>ttl.
       if ttl = -2 then io_fail NotFound
       else if ttl = -1 then io_ret 0
       else if ttl = 0 then io_ret (10 ^ 6)
       else if ttl > 0 then io_ret (nat ttl * 10 ^ 6)
       else io_fail (resp_internal (rp_backend p) ''ttl reply'' (''unexpected Redis PTTL sentinel '' @ show_int ttl)))"

definition resp_get_many :: "('w, 'v) resp_primitives \<Rightarrow> string list \<Rightarrow> ('w, bytes option list) io" where
  "resp_get_many p keys =
     (if keys = [] then io_ret []
      else
        io_bind (resp_pipeline p ''get many'' (map (\<lambda>key. [Text ''GET'', Text key]) keys)) (\<lambda>replies.
        io_bind (io_lift (validate_bulk_replies (rp_backend p) ''get many'' (length keys) (length replies))) (\<lambda>_.
        io_lift (collect_results (\<lambda>reply.
          if rv_is_nil (rp_codec p) reply then Ok None
          else case resp_decode (rp_backend p) ''get-many reply'' (rv_bytes (rp_codec p)) reply of
                 Ok v \<Rightarrow> Ok (Some v) | Err e \<Rightarrow> Err e | Panic \<Rightarrow> Panic) replies))))"

definition resp_exists_many :: "('w, 'v) resp_primitives \<Rightarrow> string list \<Rightarrow> ('w, bool list) io" where
  "resp_exists_many p keys =
     (if keys = [] then io_ret []
      else
        io_bind (resp_pipeline p ''exists many'' (map (\<lambda>key. [Text ''EXISTS'', Text key]) keys)) (\<lambda>replies.
        io_bind (io_lift (validate_bulk_replies (rp_backend p) ''exists many'' (length keys) (length replies))) (\<lambda>_.
        io_lift (collect_results (\<lambda>reply.
          case resp_decode (rp_backend p) ''exists-many reply'' (rv_int (rp_codec p)) reply of
            Ok count \<Rightarrow> Ok (count > 0) | Err e \<Rightarrow> Err e | Panic \<Rightarrow> Panic) replies))))"

definition resp_delete_if :: "('w, 'v) resp_primitives \<Rightarrow> string \<Rightarrow> bytes \<Rightarrow> ('w, bool) io" where
  "resp_delete_if p key expected =
     io_bind (resp_reply p ''delete if'' ''delete-if reply'' rv_int
       [Text ''EVAL'', Text delete_if_script, Number 1, Text key, Blob expected]) (\<lambda>deleted. io_ret (deleted > 0))"

definition resp_set_add :: "('w, 'v) resp_primitives \<Rightarrow> string \<Rightarrow> string list \<Rightarrow> ('w, unit) io" where
  "resp_set_add p key members =
     (if members = [] then io_ret ()
      else io_bind (resp_reply p ''set add'' ''set-add reply'' rv_int ([Text ''SADD'', Text key] @ map Text members)) (\<lambda>_. io_ret ()))"

definition resp_set_remove :: "('w, 'v) resp_primitives \<Rightarrow> string \<Rightarrow> string list \<Rightarrow> ('w, unit) io" where
  "resp_set_remove p key members =
     (if members = [] then io_ret ()
      else io_bind (resp_reply p ''set remove'' ''set-remove reply'' rv_int ([Text ''SREM'', Text key] @ map Text members)) (\<lambda>_. io_ret ()))"

definition resp_set_members :: "('w, 'v) resp_primitives \<Rightarrow> string \<Rightarrow> ('w, string list) io" where
  "resp_set_members p key = resp_reply p ''set members'' ''set-members reply'' rv_strings [Text ''SMEMBERS'', Text key]"

subsection \<open>Cursor walks\<close>

definition resp_set_page :: "('w, 'v) resp_primitives \<Rightarrow> string \<Rightarrow> 64 word \<Rightarrow> ('w, 64 word \<times> string list) io" where
  "resp_set_page p key cursor =
     resp_reply p ''set scan'' ''set-scan reply'' rv_page
       [Text ''SSCAN'', Text key, Number (unat cursor), Text ''COUNT'', Number scan_batch]"

partial_function (option) resp_set_scan_loop ::
  "('w, 'v) resp_primitives \<Rightarrow> string \<Rightarrow> (string list \<Rightarrow> ('s \<times> 'w, unit) io) \<Rightarrow> 64 word \<Rightarrow> 's \<times> 'w
     \<Rightarrow> (unit rresult \<times> 's \<times> 'w) option" where
  "resp_set_scan_loop p key visit cursor vw =
     (case resp_set_page p key cursor (snd vw) of
        (Err e, w') \<Rightarrow> Some (Err e, (fst vw, w'))
      | (Panic, w') \<Rightarrow> Some (Panic, (fst vw, w'))
      | (Ok (next, members), w') \<Rightarrow>
          (case (if members \<noteq> [] then visit members (fst vw, w') else (Ok (), (fst vw, w'))) of
             (Err e, vw') \<Rightarrow> Some (Err e, vw')
           | (Panic, vw') \<Rightarrow> Some (Panic, vw')
           | (Ok _, vw') \<Rightarrow>
               if next = 0 then Some (Ok (), vw') else resp_set_scan_loop p key visit next vw'))"

definition resp_set_scan ::
  "('w, 'v) resp_primitives \<Rightarrow> string \<Rightarrow> (string list \<Rightarrow> ('s \<times> 'w, unit) io) \<Rightarrow> 's \<times> 'w \<Rightarrow> (unit rresult \<times> 's \<times> 'w) option" where
  "resp_set_scan p key visit vw = resp_set_scan_loop p key visit 0 vw"

definition resp_scan_page :: "('w, 'v) resp_primitives \<Rightarrow> string \<Rightarrow> 64 word \<Rightarrow> ('w, 64 word \<times> string list) io" where
  "resp_scan_page p pat cursor =
     resp_reply p ''scan'' ''scan reply'' rv_page
       [Text ''SCAN'', Number (unat cursor), Text ''MATCH'', Text pat, Text ''COUNT'', Number scan_batch]"

text \<open>\<open>unique\<close> and \<open>keys\<close> of the source hold the same elements; one list stands for both.\<close>

partial_function (option) resp_scan_loop ::
  "('w, 'v) resp_primitives \<Rightarrow> string \<Rightarrow> 64 word \<Rightarrow> string list \<Rightarrow> 'w \<Rightarrow> (string list rresult \<times> 'w) option" where
  "resp_scan_loop p pat cursor keys w =
     (case resp_scan_page p pat cursor w of
        (Err e, w') \<Rightarrow> Some (Err e, w')
      | (Panic, w') \<Rightarrow> Some (Panic, w')
      | (Ok (next, batch), w') \<Rightarrow>
          if next = 0 then Some (Ok (keys @ dedup keys batch), w')
          else resp_scan_loop p pat next (keys @ dedup keys batch) w')"

definition resp_scan :: "('w, 'v) resp_primitives \<Rightarrow> string \<Rightarrow> 'w \<Rightarrow> (string list rresult \<times> 'w) option" where
  "resp_scan p pat w = resp_scan_loop p pat 0 [] w"

subsection \<open>Trait objects\<close>

definition returning :: "('a rresult \<times> 'w) option \<Rightarrow> 'w \<Rightarrow> 'a rresult \<times> 'w" where
  "returning r w = (case r of Some x \<Rightarrow> x | None \<Rightarrow> (Panic, w))"

definition resp_driver :: "('w, 'v) resp_primitives \<Rightarrow> 'w driver" where
  "resp_driver p =
     \<lparr>drv_name = rp_backend p, drv_get = resp_get p, drv_set = resp_set p, drv_add = resp_add p,
      drv_replace = resp_replace p, drv_delete = resp_delete p, drv_exists = resp_exists p, drv_touch = resp_touch p\<rparr>"

definition resp_leases :: "('w, 'v) resp_primitives \<Rightarrow> 'w leases" where
  "resp_leases p = \<lparr>lea_ttl = resp_ttl p\<rparr>"

definition resp_bulk :: "('w, 'v) resp_primitives \<Rightarrow> 'w bulk" where
  "resp_bulk p = \<lparr>blk_get_many = resp_get_many p, blk_exists_many = resp_exists_many p\<rparr>"

definition resp_fenced :: "('w, 'v) resp_primitives \<Rightarrow> 'w fenced" where
  "resp_fenced p = \<lparr>fen_delete_if = resp_delete_if p\<rparr>"

definition resp_sets :: "('w, 'v) resp_primitives \<Rightarrow> 'w sets" where
  "resp_sets p = \<lparr>sts_add = resp_set_add p, sts_remove = resp_set_remove p, sts_members = resp_set_members p\<rparr>"

definition resp_set_scanner :: "('w, 'v) resp_primitives \<Rightarrow> 'w set_scanner" where
  "resp_set_scanner p = \<lparr>ssc_set_scan = (\<lambda>key visit vw. returning (resp_set_scan p key visit vw) vw)\<rparr>"

definition resp_scanner :: "('w, 'v) resp_primitives \<Rightarrow> 'w scanner" where
  "resp_scanner p = \<lparr>scn_scan = (\<lambda>pat w. returning (resp_scan p pat w) w)\<rparr>"

subsection \<open>Client\<close>

record ('w, 'v) redis_client =
  cl_config :: redis_config
  cl_profile :: resp_profile
  cl_executor :: "('w, 'v) resp_executor"
  cl_codec :: "'v resp_codec"

definition resp_primitives_of :: "('w, 'v) redis_client \<Rightarrow> ('w, 'v) resp_primitives" where
  "resp_primitives_of c = \<lparr>rp_profile = cl_profile c, rp_executor = cl_executor c, rp_codec = cl_codec c\<rparr>"

definition resp_ping :: "('w, 'v) redis_client \<Rightarrow> ('w, unit) io" where
  "resp_ping c =
     io_bind (resp_reply (resp_primitives_of c) ''ping'' ''ping reply'' rv_string [Text ''PING'']) (\<lambda>_. io_ret ())"

definition redis_close :: "('w, 'v) redis_client \<Rightarrow> ('w, unit) io" where
  "redis_close c w = (Ok (), rx_close (cl_executor c) w)"

text \<open>
  The crate's part of connecting: building connection information from host, port, database and the
  credentials that are present, and opening a manager with a timeout policy. \<open>cell\<close> is the new
  client's own cell.
\<close>

record ('w, 'v, 'c) resp_crate =
  crate_configure :: "string \<Rightarrow> nat \<Rightarrow> int \<Rightarrow> string option \<Rightarrow> string option \<Rightarrow> string + 'c"
  crate_open :: "'c \<Rightarrow> manager_timeout \<Rightarrow> 'w \<Rightarrow> (string + ('w, 'v) resp_manager) \<times> 'w"
  crate_codec :: "'v resp_codec"

definition redis_connect_with_profile ::
  "('w, 'v, 'c) resp_crate \<Rightarrow> ('w, 'v) manager_cell \<Rightarrow> redis_config \<Rightarrow> resp_profile \<Rightarrow> ('w, ('w, 'v) redis_client) io" where
  "redis_connect_with_profile crate cell config profile =
     (let bk = pr_backend profile;
          address = (if rcfg_address config = '''' then pr_default_address profile else rcfg_address config)
      in io_bind (io_lift (parse_address bk address)) (\<lambda>(host, port).
         io_bind (io_lift (if rcfg_database config < 2 ^ 63 then Ok (int (rcfg_database config))
           else Err (Internal (bk @ '': database index '' @ show_nat (rcfg_database config) @ '' exceeds RESP range'')))) (\<lambda>database.
         io_bind (io_lift (case crate_configure crate host port database
               (if rcfg_username config = '''' then None else Some (rcfg_username config))
               (if rcfg_password config = '''' then None else Some (rcfg_password config)) of
             Inr c \<Rightarrow> Ok c | Inl e \<Rightarrow> Err (resp_internal bk ''configure connection'' e))) (\<lambda>conn.
         io_bind (io_lift (connection_manager_config bk (rcfg_dial_timeout config))) (\<lambda>timeout.
         io_bind (\<lambda>w. case crate_open crate conn timeout w of
             (Inr m, w') \<Rightarrow> (Ok (), mgr_write cell (Some m) w')
           | (Inl e, w') \<Rightarrow> (Err (resp_internal bk ''connect'' e), w')) (\<lambda>_.
         let client = \<lparr>cl_config = config\<lparr>rcfg_address := address\<rparr>, cl_profile = profile,
                       cl_executor = resp_managed_executor cell, cl_codec = crate_codec crate\<rparr>
         in io_bind (resp_ping client) (\<lambda>_. io_ret client)))))))"

definition redis_connect ::
  "('w, 'v, 'c) resp_crate \<Rightarrow> ('w, 'v) manager_cell \<Rightarrow> redis_config \<Rightarrow> ('w, ('w, 'v) redis_client) io" where
  "redis_connect crate cell config = redis_connect_with_profile crate cell config redis_profile"

definition dragonfly_connect ::
  "('w, 'v, 'c) resp_crate \<Rightarrow> ('w, 'v) manager_cell \<Rightarrow> redis_config \<Rightarrow> ('w, ('w, 'v) redis_client) io" where
  "dragonfly_connect crate cell config = redis_connect_with_profile crate cell config dragonfly_profile"

subsection \<open>Provider\<close>

text \<open>The Dragonfly provider is this one around a client with the Dragonfly profile.\<close>

record ('w, 'v) redis_provider =
  rpv_client :: "('w, 'v) redis_client"
  rpv_config :: cache_config
  rpv_connect :: "redis_config \<Rightarrow> resp_profile \<Rightarrow> ('w, ('w, 'v) redis_client) io"
  rpv_default_new_id :: "'w \<Rightarrow> string \<times> 'w"

definition redis_database ::
  "('w, 'v) redis_provider \<Rightarrow> ('w, 'v) redis_client \<Rightarrow> string \<Rightarrow> nat \<Rightarrow> ('w, unit) io option \<Rightarrow> 'w db" where
  "redis_database v client namespace database release =
     (let p = resp_primitives_of client;
          config = rpv_config v;
          capabilities = with_scanner (resp_scanner p) (with_fenced (resp_fenced p) (with_set_scanner (resp_set_scanner p)
            (with_bulk (resp_bulk p) (with_leases (resp_leases p) (with_sets (resp_sets p) capabilities_new)))))
      in build_database (rpv_default_new_id v) (resp_driver p) capabilities
           (database_spec_default\<lparr>ds_prefix := cc_prefix config, ds_namespace := namespace, ds_database := database,
              ds_embed_db := False, ds_default_ttl := cc_default_ttl config, ds_default_stale := cc_default_stale config,
              ds_concurrency := cc_concurrency config, ds_require_ttl := cc_require_ttl config, ds_release := release\<rparr>))"

definition redis_set_database :: "('w, 'v) redis_provider \<Rightarrow> string \<Rightarrow> ('w, 'w db) io" where
  "redis_set_database v name =
     io_bind (io_lift (check_namespace name)) (\<lambda>_.
     io_bind (io_lift (check_known name (cc_databases (rpv_config v)))) (\<lambda>_.
     io_bind (resp_ping (rpv_client v)) (\<lambda>_.
     io_ret (redis_database v (rpv_client v) name (rcfg_database (cl_config (rpv_client v))) None))))"

definition redis_select_index :: "('w, 'v) redis_provider \<Rightarrow> nat \<Rightarrow> ('w, 'w db) io" where
  "redis_select_index v index =
     (let current = cl_config (rpv_client v)
      in if rcfg_database current = index then
           io_bind (resp_ping (rpv_client v)) (\<lambda>_. io_ret (redis_database v (rpv_client v) '''' index None))
         else
           io_bind (rpv_connect v (current\<lparr>rcfg_database := index\<rparr>) (cl_profile (rpv_client v))) (\<lambda>derived.
           io_ret (redis_database v derived '''' index (Some (redis_close derived)))))"

definition redis_drop_database :: "('w, 'v) redis_provider \<Rightarrow> string \<Rightarrow> ('w, nat) io" where
  "redis_drop_database v name =
     io_bind (io_lift (check_namespace name)) (\<lambda>_.
       let p = resp_primitives_of (rpv_client v);
           ks = keyspace_new (cc_prefix (rpv_config v)) name (rcfg_database (cl_config (rpv_client v))) False
       in drop_database (resp_driver p) (resp_scanner p) (head ks))"

subsection \<open>Lemmas on cursor walks\<close>

text \<open>The pages of a walk that ends, from a cursor on.\<close>

inductive cursor_run ::
  "(64 word \<Rightarrow> ('w, 64 word \<times> string list) io) \<Rightarrow> 64 word \<Rightarrow> 'w \<Rightarrow> string list list \<Rightarrow> 'w \<Rightarrow> bool"
  for page :: "64 word \<Rightarrow> ('w, 64 word \<times> string list) io" where
  last_page: "page c w = (Ok (0, ms), w') \<Longrightarrow> cursor_run page c w [ms] w'"
| next_page: "page c w = (Ok (n, ms), w1) \<Longrightarrow> n \<noteq> 0 \<Longrightarrow> cursor_run page n w1 ps w' \<Longrightarrow> cursor_run page c w (ms # ps) w'"

lemma resp_scan_loop_run:
  "cursor_run (resp_scan_page p pat) c w ps w' \<Longrightarrow>
     resp_scan_loop p pat c keys w = Some (Ok (keys @ dedup keys (concat ps)), w')"
proof (induction arbitrary: keys rule: cursor_run.induct)
  case (last_page c w ms w')
  then show ?case by (simp add: resp_scan_loop.simps)
next
  case (next_page c w n ms w1 ps w')
  have "dedup (keys @ dedup keys ms) (concat ps) = dedup (keys @ ms) (concat ps)"
    by (rule dedup_cong) (auto simp: set_dedup)
  with next_page show ?case by (subst resp_scan_loop.simps) (simp add: dedup_append)
qed

lemma resp_scan_loop_Ok:
  assumes "resp_scan_loop p pat c keys w = Some (Ok found, w')"
  shows "\<exists>ps. cursor_run (resp_scan_page p pat) c w ps w'"
proof -
  have "case (Ok found, w') of (q, w') \<Rightarrow> (\<exists>found. q = Ok found) \<longrightarrow> (\<exists>ps. cursor_run (resp_scan_page p pat) c w ps w')"
    using assms
  proof (rule resp_scan_loop.raw_induct [where P = "\<lambda>p pat c keys w y.
      case y of (q, w') \<Rightarrow> (\<exists>found. q = Ok found) \<longrightarrow> (\<exists>ps. cursor_run (resp_scan_page p pat) c w ps w')", rotated])
    fix walk p pat c keys w and y :: "string list rresult \<times> 'a"
    assume hyps: "\<And>p pat c keys w y. walk p pat c keys w = Some y \<Longrightarrow>
        case y of (q, w') \<Rightarrow> (\<exists>found. q = Ok found) \<longrightarrow> (\<exists>ps. cursor_run (resp_scan_page p pat) c w ps w')"
      and body: "(case resp_scan_page p pat c w of
        (Ok (next, batch), w') \<Rightarrow> if next = 0 then Some (Ok (keys @ dedup keys batch), w')
          else walk p pat next (keys @ dedup keys batch) w'
      | (Err e, w') \<Rightarrow> Some (Err e, w') | (Panic, w') \<Rightarrow> Some (Panic, w')) = Some y"
    obtain r w1 where page: "resp_scan_page p pat c w = (r, w1)" by (metis surj_pair)
    show "case y of (q, w') \<Rightarrow> (\<exists>found. q = Ok found) \<longrightarrow> (\<exists>ps. cursor_run (resp_scan_page p pat) c w ps w')"
    proof (cases r)
      case (Ok nb)
      obtain n batch where nb: "nb = (n, batch)" by (cases nb)
      show ?thesis
      proof (cases "n = 0")
        case True
        then show ?thesis using body page Ok nb by (auto intro: cursor_run.last_page)
      next
        case False
        then have "walk p pat n (keys @ dedup keys batch) w1 = Some y" using body page Ok nb by simp
        from hyps [OF this] show ?thesis
          using page Ok nb False by (auto intro: cursor_run.next_page)
      qed
    qed (use body page in auto)
  qed
  then show ?thesis by auto
qed

text \<open>A cursor that moves forward in some order of the 64-bit cursors comes to an end.\<close>

definition advancing :: "(64 word \<Rightarrow> nat) \<Rightarrow> (64 word \<Rightarrow> ('w, 64 word \<times> string list) io) \<Rightarrow> bool" where
  "advancing rank page \<longleftrightarrow>
     (\<forall>c w n ms w'. page c w = (Ok (n, ms), w') \<and> n \<noteq> 0 \<longrightarrow> rank c < rank n \<and> rank n < 2 ^ 64)"

lemma advancingD:
  "advancing rank page \<Longrightarrow> page c w = (Ok (n, ms), w') \<Longrightarrow> n \<noteq> 0 \<Longrightarrow> rank c < rank n \<and> rank n < 2 ^ 64"
  unfolding advancing_def by blast

lemma resp_scan_loop_returns:
  assumes "advancing rank (resp_scan_page p pat)"
  shows "\<exists>y. resp_scan_loop p pat c keys w = Some y"
proof (induction "2 ^ 64 - rank c" arbitrary: c keys w rule: less_induct)
  case less
  show ?case
  proof (cases "resp_scan_page p pat c w")
    case (Pair r w1)
    show ?thesis
    proof (cases r)
      case (Ok nb)
      obtain n batch where nb: "nb = (n, batch)" by (cases nb)
      show ?thesis
      proof (cases "n = 0")
        case False
        then have "rank c < rank n" "rank n < 2 ^ 64" using advancingD [OF assms] Pair Ok nb by blast+
        then have "2 ^ 64 - rank n < 2 ^ 64 - rank c" by linarith
        from less [OF this, of "keys @ dedup keys batch" w1] show ?thesis
          using Pair Ok nb False by (subst resp_scan_loop.simps) simp
      qed (use Pair Ok nb in \<open>simp add: resp_scan_loop.simps\<close>)
    qed (use Pair in \<open>simp_all add: resp_scan_loop.simps\<close>)
  qed
qed

lemma resp_set_scan_loop_returns:
  assumes "advancing rank (resp_set_page p key)"
  shows "\<exists>y. resp_set_scan_loop p key visit c vw = Some y"
proof (induction "2 ^ 64 - rank c" arbitrary: c vw rule: less_induct)
  case less
  show ?case
  proof (cases "resp_set_page p key c (snd vw)")
    case (Pair r w1)
    show ?thesis
    proof (cases r)
      case (Ok nb)
      obtain n ms where nb: "nb = (n, ms)" by (cases nb)
      obtain q vw2 where v: "(if ms \<noteq> [] then visit ms (fst vw, w1) else (Ok (), (fst vw, w1))) = (q, vw2)"
        by (metis surj_pair)
      show ?thesis
      proof (cases "n \<noteq> 0 \<and> q = Ok ()")
        case True
        then have "rank c < rank n" "rank n < 2 ^ 64" using advancingD [OF assms] Pair Ok nb by blast+
        then have "2 ^ 64 - rank n < 2 ^ 64 - rank c" by linarith
        from less [OF this, of vw2] show ?thesis
          using Pair Ok nb v True by (subst resp_set_scan_loop.simps) simp
      next
        case False
        then show ?thesis using Pair Ok nb v by (cases q) (auto simp: resp_set_scan_loop.simps)
      qed
    qed (use Pair in \<open>simp_all add: resp_set_scan_loop.simps\<close>)
  qed
qed

subsection \<open>The adapter keeps the driver and fencing contracts\<close>

text \<open>
  What Redis documents of the commands the adapter sends, for a database whose keys hold strings (as
  when only the volatile and read-through strategies use it): entries may expire at any time, a
  command changes only the keys it names, an answer says what happened.
\<close>

locale resp_strings =
  fixes p :: "('w, 'v) resp_primitives"
    and live :: "'w \<Rightarrow> string \<rightharpoonup> bytes"
  assumes get_frame: "rx_execute (rp_executor p) [Text ''GET'', Text k] w = (q, w') \<Longrightarrow> outside {} (live w) (live w')"
    and get_nil: "rx_execute (rp_executor p) [Text ''GET'', Text k] w = (Inr v, w') \<Longrightarrow> rv_is_nil (rp_codec p) v \<Longrightarrow>
      live w' k = None"
    and get_value: "rx_execute (rp_executor p) [Text ''GET'', Text k] w = (Inr v, w') \<Longrightarrow> \<not> rv_is_nil (rp_codec p) v \<Longrightarrow>
      rv_bytes (rp_codec p) v = Inr b \<Longrightarrow> live w' k = Some b"
    and set_frame: "rx_execute (rp_executor p) (Text ''SET'' # Text k # Blob b # opts) w = (q, w') \<Longrightarrow>
      outside {k} (live w) (live w') \<and> live w' k \<in> {None, live w k, Some b}"
    and set_done: "rx_execute (rp_executor p) (Text ''SET'' # Text k # Blob b # opts) w = (Inr v, w') \<Longrightarrow>
      \<not> rv_is_nil (rp_codec p) v \<Longrightarrow> live w' k = Some b"
    and set_nx_nil: "rx_execute (rp_executor p) (Text ''SET'' # Text k # Blob b # px @ [Text ''NX'']) w = (Inr v, w') \<Longrightarrow>
      rv_is_nil (rp_codec p) v \<Longrightarrow> live w' k = live w k \<and> live w k \<noteq> None"
    and set_xx: "rx_execute (rp_executor p) (Text ''SET'' # Text k # Blob b # px @ [Text ''XX'']) w = (q, w') \<Longrightarrow>
      live w k = None \<Longrightarrow> live w' k = None"
    and set_xx_nil: "rx_execute (rp_executor p) (Text ''SET'' # Text k # Blob b # px @ [Text ''XX'']) w = (Inr v, w') \<Longrightarrow>
      rv_is_nil (rp_codec p) v \<Longrightarrow> live w' k = None"
    and del_frame: "rx_execute (rp_executor p) (Text ''DEL'' # map Text ks) w = (q, w') \<Longrightarrow> outside {} (live w) (live w')"
    and del_done: "rx_execute (rp_executor p) (Text ''DEL'' # map Text ks) w = (Inr v, w') \<Longrightarrow> k \<in> set ks \<Longrightarrow> live w' k = None"
    and exists_frame: "rx_execute (rp_executor p) [Text ''EXISTS'', Text k] w = (q, w') \<Longrightarrow> outside {} (live w) (live w')"
    and exists_count: "rx_execute (rp_executor p) [Text ''EXISTS'', Text k] w = (Inr v, w') \<Longrightarrow>
      rv_int (rp_codec p) v = Inr n \<Longrightarrow> 0 < n \<longleftrightarrow> live w' k \<noteq> None"
    and persist_frame: "rx_execute (rp_executor p) [Text ''EVAL'', Text persist_script, Number 1, Text k] w = (q, w') \<Longrightarrow>
      outside {} (live w) (live w')"
    and pexpire_frame: "rx_execute (rp_executor p) [Text ''PEXPIRE'', Text k, Number ms] w = (q, w') \<Longrightarrow>
      outside {} (live w) (live w')"
    and delete_if_done: "rx_execute (rp_executor p) [Text ''EVAL'', Text delete_if_script, Number 1, Text k, Blob b] w = (Inr v, w') \<Longrightarrow>
      rv_int (rp_codec p) v = Inr n \<Longrightarrow>
      (0 < n \<longleftrightarrow> live w k = Some b) \<and> live w' = (if live w k = Some b then (live w)(k := None) else live w)"
begin

lemma decode_Ok: "resp_decode bk op conv v = Ok x \<longleftrightarrow> conv v = Inr x"
  by (cases "conv v") (simp_all add: resp_decode_def)

lemma command_Ok: "resp_command p op c w = (Ok v, w') \<longleftrightarrow> rx_execute (rp_executor p) c w = (Inr v, w')"
  by (auto simp: resp_command_def split: prod.splits sum.splits)

lemma command_sent:
  "resp_command p op c w = (r, w') \<Longrightarrow> \<exists>q. rx_execute (rp_executor p) c w = (q, w') \<and> r \<noteq> Err NotFound"
  by (auto simp: resp_command_def resp_internal_def split: prod.splits sum.splits)

lemma reply_Ok:
  "resp_reply p op rop conv c w = (Ok x, w') \<longleftrightarrow>
     (\<exists>v. rx_execute (rp_executor p) c w = (Inr v, w') \<and> conv (rp_codec p) v = Inr x)"
  by (auto simp: resp_reply_def io_bind_Ok command_Ok decode_Ok)

lemma reply_sent: "resp_reply p op rop conv c w = (r, w') \<Longrightarrow> \<exists>q. rx_execute (rp_executor p) c w = (q, w')"
  by (auto simp: resp_reply_def io_bind_def split: prod.splits rresult.splits dest!: command_sent)

lemma write_cases:
  assumes "resp_write p k b ttl condition w = (r, w')"
  obtains (early) "w' = w" "\<And>x. r \<noteq> Ok x"
    | (sent) px q where
      "rx_execute (rp_executor p) (Text ''SET'' # Text k # Blob b # px @ (case condition of Some c \<Rightarrow> [Text c] | None \<Rightarrow> [])) w = (q, w')"
      "r = Ok True \<Longrightarrow> \<exists>v. q = Inr v \<and> \<not> rv_is_nil (rp_codec p) v"
      "r = Ok False \<Longrightarrow> condition \<noteq> None \<and> (\<exists>v. q = Inr v \<and> rv_is_nil (rp_codec p) v)"
proof -
  let ?px = "if ttl = 0 then io_ret [] else io_bind (io_lift (ttl_millis (rp_backend p) ttl)) (\<lambda>ms. io_ret [Text ''PX'', Number ms])"
  have px: "\<exists>r. ?px w = (r, w)"
    by (cases "ttl_millis (rp_backend p) ttl") (auto simp: io_ret_def io_bind_def io_lift_def)
  then obtain rp where rp: "?px w = (rp, w)" by blast
  show ?thesis
  proof (cases rp)
    case (Ok px)
    obtain q w1 where x: "rx_execute (rp_executor p)
        (Text ''SET'' # Text k # Blob b # px @ (case condition of Some c \<Rightarrow> [Text c] | None \<Rightarrow> [])) w = (q, w1)"
      by (metis surj_pair)
    have "w1 = w'" "r = Ok True \<Longrightarrow> \<exists>v. q = Inr v \<and> \<not> rv_is_nil (rp_codec p) v"
      "r = Ok False \<Longrightarrow> condition \<noteq> None \<and> (\<exists>v. q = Inr v \<and> rv_is_nil (rp_codec p) v)"
      using assms rp Ok x
      by (auto simp: resp_write_def io_bind_def [of ?px] resp_command_def io_bind_def io_ret_def io_fail_def io_lift_def
          resp_decode_def split: sum.splits if_splits rresult.splits)
    with x show ?thesis by (intro sent) auto
  qed (use assms rp in \<open>auto intro!: early simp: resp_write_def io_bind_def\<close>)
qed

end

context resp_strings
begin

lemma write_frame: "resp_write p k b ttl c w = (r, w') \<Longrightarrow> outside {k} (live w) (live w')"
  by (erule write_cases) (auto dest: set_frame [THEN conjunct1])

lemma write_key: "resp_write p k b ttl c w = (r, w') \<Longrightarrow> live w' k \<in> {None, live w k, Some b}"
  by (erule write_cases) (auto dest: set_frame [THEN conjunct2])

lemma write_True: "resp_write p k b ttl c w = (Ok True, w') \<Longrightarrow> live w' k = Some b"
  by (erule write_cases) (auto dest: set_done)

lemma set_written:
  "resp_set p k b ttl w = (r, w') \<Longrightarrow> \<exists>rb. resp_write p k b ttl None w = (rb, w') \<and> (r = Ok u \<longrightarrow> rb = Ok True)"
  by (fastforce simp: resp_set_def io_bind_def io_ret_def split: prod.splits rresult.splits elim: write_cases)

lemma get_frame_op: "resp_get p k w = (r, w') \<Longrightarrow> outside {} (live w) (live w')"
  by (auto simp: resp_get_def io_bind_def io_fail_def split: prod.splits rresult.splits if_splits
      dest!: command_sent dest: get_frame)

lemma get_value_op: "resp_get p k w = (Ok b, w') \<Longrightarrow> live w' k = Some b"
  by (auto simp: resp_get_def io_bind_Ok command_Ok resp_decode_def split: if_splits sum.splits dest: get_value)

lemma get_missing_op:
  assumes "resp_get p k w = (Err NotFound, w')"
  shows "live w' k = None"
  using assms unfolding resp_get_def
proof (cases rule: io_bindE)
  case (ok v w1)
  then have "rv_is_nil (rp_codec p) v" "w1 = w'"
    by (auto simp: resp_decode_def resp_internal_def split: if_splits sum.splits)
  with ok(1) show ?thesis using get_nil by (simp add: command_Ok)
next
  case (err e)
  then show ?thesis using command_sent by blast
qed simp

lemma replace_key_op:
  assumes "resp_replace p k b ttl w = (r, w')" "live w' k \<noteq> None"
  shows "live w k \<noteq> None \<and> live w' k \<in> {live w k, Some b}"
proof -
  have x: "resp_write p k b ttl (Some ''XX'') w = (r, w')" using assms(1) by (simp add: resp_replace_def)
  then have "live w k \<noteq> None" using assms(2) by (cases rule: write_cases) (auto dest: set_xx)
  with write_key [OF x] assms(2) show ?thesis by auto
qed

lemma delete_frame_op: "resp_delete p ks w = (r, w') \<Longrightarrow> outside {} (live w) (live w')"
  by (auto simp: resp_delete_def io_bind_def io_ret_def split: prod.splits rresult.splits if_splits
      dest!: reply_sent dest: del_frame)

lemma delete_gone_op: "resp_delete p ks w = (Ok u, w') \<Longrightarrow> k \<in> set ks \<Longrightarrow> live w' k = None"
  using del_done by (auto simp: resp_delete_def io_bind_Ok reply_Ok io_ret_def split: if_splits)

lemma bind_frame:
  "(\<And>r w'. m w = (r, w') \<Longrightarrow> outside {} (live w) (live w')) \<Longrightarrow> (\<And>x w1 r w'. f x w1 = (r, w') \<Longrightarrow> w' = w1) \<Longrightarrow>
     io_bind m f w = (r, w') \<Longrightarrow> outside {} (live w) (live w')"
  by (erule io_bindE) metis+

lemma touch_frame_op:
  assumes "resp_touch p k ttl w = (r, w')"
  shows "outside {} (live w) (live w')"
proof (rule bind_frame [OF _ _ assms [unfolded resp_touch_def]])
  fix q w'
  assume x: "(if ttl = 0 then io_bind (resp_reply p ''touch'' ''touch reply'' rv_int
            [Text ''EVAL'', Text persist_script, Number 1, Text k]) (\<lambda>n. io_ret (n \<ge> 0))
        else io_bind (io_lift (ttl_millis (rp_backend p) ttl)) (\<lambda>ms.
          io_bind (resp_reply p ''touch'' ''touch reply'' rv_int [Text ''PEXPIRE'', Text k, Number ms]) (\<lambda>n.
            io_ret (n > 0)))) w = (q, w')"
  show "outside {} (live w) (live w')"
  proof (cases "ttl = 0")
    case True
    with x show ?thesis
      by (auto elim!: io_bindE dest!: reply_sent persist_frame simp del: One_nat_def)
  next
    case False
    with x show ?thesis
      by (auto elim!: io_bindE dest!: reply_sent pexpire_frame)
  qed
qed (auto split: if_splits)

end

sublocale resp_strings \<subseteq> driver: fenced_store "resp_driver p" live "resp_fenced p"
proof
  fix k v t ttl w rg rb r w' ks b u
  show "drv_get (resp_driver p) k w = (rg, w') \<Longrightarrow> outside {} (live w) (live w')"
    by (simp add: resp_driver_def get_frame_op)
  show "drv_get (resp_driver p) k w = (Ok v, w') \<Longrightarrow> live w' k = Some v"
    by (simp add: resp_driver_def get_value_op)
  show "drv_get (resp_driver p) k w = (Err NotFound, w') \<Longrightarrow> live w' k = None"
    by (simp add: resp_driver_def get_missing_op)
  show "drv_set (resp_driver p) k v ttl w = (r, w') \<Longrightarrow> outside {k} (live w) (live w')"
    by (auto simp: resp_driver_def dest!: set_written dest: write_frame)
  show "drv_set (resp_driver p) k v ttl w = (r, w') \<Longrightarrow> live w' k \<in> {None, live w k, Some v}"
    using write_key by (fastforce simp: resp_driver_def dest!: set_written)
  show "drv_set (resp_driver p) k v ttl w = (Ok u, w') \<Longrightarrow> live w' k = Some v"
    by (auto simp: resp_driver_def dest!: set_written dest: write_True)
  show "drv_add (resp_driver p) k v ttl w = (rb, w') \<Longrightarrow> outside {k} (live w) (live w')"
    by (auto simp: resp_driver_def resp_add_def dest: write_frame)
  show "drv_add (resp_driver p) k v ttl w = (rb, w') \<Longrightarrow> live w' k \<in> {None, live w k, Some v}"
    using write_key by (simp add: resp_driver_def resp_add_def)
  show "drv_add (resp_driver p) k v ttl w = (Ok True, w') \<Longrightarrow> live w' k = Some v"
    by (auto simp: resp_driver_def resp_add_def dest: write_True)
  show "drv_add (resp_driver p) k v ttl w = (Ok False, w') \<Longrightarrow> live w' k = live w k \<and> live w k \<noteq> None"
    by (auto simp: resp_driver_def resp_add_def elim!: write_cases dest: set_nx_nil)
  show "drv_replace (resp_driver p) k v ttl w = (rb, w') \<Longrightarrow> outside {k} (live w) (live w')"
    by (auto simp: resp_driver_def resp_replace_def dest: write_frame)
  show "drv_replace (resp_driver p) k v ttl w = (rb, w') \<Longrightarrow> live w' k \<noteq> None \<Longrightarrow>
      live w k \<noteq> None \<and> live w' k \<in> {live w k, Some v}"
    using replace_key_op by (simp add: resp_driver_def)
  show "drv_replace (resp_driver p) k v ttl w = (Ok True, w') \<Longrightarrow> live w' k = Some v"
    by (auto simp: resp_driver_def resp_replace_def dest: write_True)
  show "drv_replace (resp_driver p) k v ttl w = (Ok False, w') \<Longrightarrow> live w' k = None"
    by (simp add: resp_driver_def resp_replace_def) (erule write_cases, use set_xx_nil in auto)
  show "drv_delete (resp_driver p) ks w = (r, w') \<Longrightarrow> outside {} (live w) (live w')"
    by (simp add: resp_driver_def delete_frame_op)
  show "drv_delete (resp_driver p) ks w = (Ok u, w') \<Longrightarrow> k \<in> set ks \<Longrightarrow> live w' k = None"
    by (simp add: resp_driver_def delete_gone_op)
  show "drv_exists (resp_driver p) k w = (rb, w') \<Longrightarrow> outside {} (live w) (live w')"
    by (auto simp: resp_driver_def resp_exists_def io_bind_def io_ret_def split: prod.splits rresult.splits
        dest!: reply_sent dest: exists_frame)
  show "drv_exists (resp_driver p) k w = (Ok b, w') \<Longrightarrow> b \<longleftrightarrow> live w' k \<noteq> None"
    using exists_count by (auto simp: resp_driver_def resp_exists_def io_bind_Ok reply_Ok io_ret_def)
  show "drv_touch (resp_driver p) k ttl w = (r, w') \<Longrightarrow> outside {} (live w) (live w')"
    by (simp add: resp_driver_def touch_frame_op)
  show "fen_delete_if (resp_fenced p) k t w = (Ok b, w') \<Longrightarrow>
      b = (live w k = Some t) \<and> live w' = (if b then (live w)(k := None) else live w)"
    using delete_if_done by (auto simp: resp_fenced_def resp_delete_if_def io_bind_Ok reply_Ok io_ret_def simp del: One_nat_def)
qed

context resp_strings
begin

lemma driver_lawful: "fenced_store (resp_driver p) live (resp_fenced p)"
  by unfold_locales

end

subsection \<open>An in-memory server\<close>

text \<open>
  A concrete manager: the string commands of the adapter over the in-memory store. It shows that the
  laws above can hold, and witnesses evaluate on it. \<open>catalog\<close> lists the keys a scan looks at.
\<close>

datatype mini_value = MiniNil | MiniInt int | MiniBytes bytes | MiniText string | MiniPage "64 word" "string list"

definition mini_codec :: "mini_value resp_codec" where
  "mini_codec =
     \<lparr>rv_is_nil = (\<lambda>v. v = MiniNil),
      rv_string = (\<lambda>v. case v of MiniText s \<Rightarrow> Inr s | _ \<Rightarrow> Inl ''not a string''),
      rv_bytes = (\<lambda>v. case v of MiniBytes b \<Rightarrow> Inr b | _ \<Rightarrow> Inl ''not bytes''),
      rv_int = (\<lambda>v. case v of MiniInt n \<Rightarrow> Inr n | _ \<Rightarrow> Inl ''not an integer''),
      rv_strings = (\<lambda>v. Inl ''not a list''),
      rv_page = (\<lambda>v. case v of MiniPage c ks \<Rightarrow> Inr (c, ks) | _ \<Rightarrow> Inl ''not a page'')\<rparr>"

definition mini_set :: "string \<Rightarrow> bytes \<Rightarrow> resp_arg list \<Rightarrow> mem_world \<Rightarrow> (string + mini_value) \<times> mem_world" where
  "mini_set k b opts w =
     (let ttl = (case opts of _ # Number ms # _ \<Rightarrow> ms * 10 ^ 6 | _ \<Rightarrow> 0);
          (r, w') = (if last opts = Text ''NX'' \<and> opts \<noteq> [] then mem_add k b ttl w
                     else if last opts = Text ''XX'' \<and> opts \<noteq> [] then mem_replace k b ttl w
                     else io_bind (mem_set k b ttl) (\<lambda>_. io_ret True) w)
      in (case r of Ok True \<Rightarrow> Inr (MiniText ''OK'') | Ok False \<Rightarrow> Inr MiniNil | _ \<Rightarrow> Inl ''ERR'', w'))"

definition mini_query :: "string list \<Rightarrow> resp_cmd \<Rightarrow> mem_world \<Rightarrow> (string + mini_value) \<times> mem_world" where
  "mini_query catalog command w =
     (case command of
        Text c # args \<Rightarrow>
          if c = ''GET'' then
            (case args of [Text k] \<Rightarrow> (Inr (case mem_live w k of Some b \<Rightarrow> MiniBytes b | None \<Rightarrow> MiniNil), w)
             | _ \<Rightarrow> (Inl ''ERR'', w))
          else if c = ''SET'' then
            (case args of Text k # Blob b # opts \<Rightarrow> mini_set k b opts w | _ \<Rightarrow> (Inl ''ERR'', w))
          else if c = ''DEL'' then
            (let ks = map (\<lambda>a. case a of Text k \<Rightarrow> k | _ \<Rightarrow> '''') args
             in (Inr (MiniInt (int (length ks))), snd (mem_delete ks w)))
          else if c = ''EXISTS'' then
            (case args of [Text k] \<Rightarrow> (Inr (MiniInt (if mem_live w k = None then 0 else 1)), w) | _ \<Rightarrow> (Inl ''ERR'', w))
          else if c = ''PEXPIRE'' then
            (case args of [Text k, Number ms] \<Rightarrow>
               (let (r, w') = mem_touch k (ms * 10 ^ 6) w in (Inr (MiniInt (if r = Ok () then 1 else 0)), w'))
             | _ \<Rightarrow> (Inl ''ERR'', w))
          else if c = ''EVAL'' then
            (case args of
               [Text _, Number _, Text k] \<Rightarrow>
                 (let (r, w') = mem_touch k 0 w in (Inr (MiniInt (if r = Ok () then 1 else -1)), w'))
             | [Text _, Number _, Text k, Blob b] \<Rightarrow>
                 (let (r, w') = mem_delete_if k b w in (Inr (MiniInt (if r = Ok True then 1 else 0)), w'))
             | _ \<Rightarrow> (Inl ''ERR'', w))
          else if c = ''SCAN'' then
            (case args of
               [Number _, Text _, Text pat, Text _, Number _] \<Rightarrow>
                 (Inr (MiniPage 0 (filter (\<lambda>k. mem_live w k \<noteq> None \<and> glob_match pat k) catalog)), w)
             | _ \<Rightarrow> (Inl ''ERR'', w))
          else if c = ''PING'' then (Inr (MiniText ''PONG''), w)
          else (Inl ''ERR'', w)
      | _ \<Rightarrow> (Inl ''ERR'', w))"

definition mini_manager :: "string list \<Rightarrow> (mem_world, mini_value) resp_manager" where
  "mini_manager catalog = \<lparr>rm_query = mini_query catalog, rm_query_pipeline = (\<lambda>cs w. (Inl ''ERR'', w))\<rparr>"

definition mini_cell :: "string list \<Rightarrow> (mem_world, mini_value) manager_cell" where
  "mini_cell catalog = \<lparr>mgr_read = (\<lambda>w. Some (mini_manager catalog)), mgr_write = (\<lambda>_ w. w), mgr_closed = ''closed''\<rparr>"

definition mini_primitives :: "string list \<Rightarrow> (mem_world, mini_value) resp_primitives" where
  "mini_primitives catalog =
     \<lparr>rp_profile = redis_profile, rp_executor = resp_managed_executor (mini_cell catalog), rp_codec = mini_codec\<rparr>"

lemma mini_execute: "rx_execute (rp_executor (mini_primitives catalog)) = mini_query catalog"
  by (simp add: mini_primitives_def resp_managed_executor_def mini_cell_def mini_manager_def fun_eq_iff)

lemma mini_codec_eq: "rp_codec (mini_primitives catalog) = mini_codec"
  by (simp add: mini_primitives_def)

lemma mini_set_effect:
  assumes "mini_set k b opts w = (q, w')"
  shows "q = Inr (MiniText ''OK'') \<and> mem_live w' = (mem_live w)(k \<mapsto> b) \<and>
      (opts \<noteq> [] \<and> last opts = Text ''XX'' \<longrightarrow> mem_live w k \<noteq> None) \<or>
    q = Inr MiniNil \<and> w' = w \<and> (opts \<noteq> [] \<and> last opts = Text ''NX'' \<longrightarrow> mem_live w k \<noteq> None) \<and>
      (opts \<noteq> [] \<and> last opts = Text ''XX'' \<longrightarrow> mem_live w k = None) \<or>
    q = Inl ''ERR'' \<and> w' = w"
proof -
  define ttl where "ttl = (case opts of _ # Number ms # _ \<Rightarrow> ms * 10 ^ 6 | _ \<Rightarrow> 0)"
  consider (nx) "last opts = Text ''NX'' \<and> opts \<noteq> []" | (xx) "last opts = Text ''XX'' \<and> opts \<noteq> []"
    | (plain) "\<not> (last opts = Text ''NX'' \<and> opts \<noteq> [])" "\<not> (last opts = Text ''XX'' \<and> opts \<noteq> [])"
    by blast
  then show ?thesis
  proof cases
    case nx
    obtain r s where s: "mem_add k b ttl w = (r, s)" by (metis surj_pair)
    with nx assms mem_add_cases [OF s] show ?thesis by (auto simp: mini_set_def ttl_def [symmetric] Let_def)
  next
    case xx
    obtain r s where s: "mem_replace k b ttl w = (r, s)" by (metis surj_pair)
    with xx assms mem_replace_cases [OF s] show ?thesis by (auto simp: mini_set_def ttl_def [symmetric] Let_def)
  next
    case plain
    obtain r s where s: "mem_set k b ttl w = (r, s)" by (metis surj_pair)
    with plain assms mem_set_cases [OF s] show ?thesis
      by (auto simp: mini_set_def ttl_def [symmetric] Let_def io_bind_def io_ret_def)
  qed
qed

lemma mini_touch_live: "mem_live (snd (mem_touch k ttl w)) = mem_live w"
  using mem_touch_cases [of k ttl w "fst (mem_touch k ttl w)" "snd (mem_touch k ttl w)"] by auto

lemma mini_delete_live: "mem_live (snd (mem_delete ks w)) k = (if k \<in> set ks then None else mem_live w k)"
  using mem_delete_eq [of ks w] by auto

interpretation mini: resp_strings "mini_primitives catalog" mem_live
proof (unfold_locales, unfold mini_execute mini_codec_eq, goal_cases)
  case (4 k b opts w q w')
  then have "mini_set k b opts w = (q, w')" by (simp add: mini_query_def)
  from mini_set_effect [OF this] show ?case by (auto simp: outside_def)
next
  case (5 k b opts w v w')
  then have "mini_set k b opts w = (Inr v, w')" by (simp add: mini_query_def)
  from mini_set_effect [OF this] 5(2) show ?case by (auto simp: mini_codec_def)
next
  case (6 k b px w v w')
  then have "mini_set k b (px @ [Text ''NX'']) w = (Inr v, w')" by (simp add: mini_query_def)
  from mini_set_effect [OF this] 6(2) show ?case by (auto simp: mini_codec_def)
next
  case (7 k b px w q w')
  then have "mini_set k b (px @ [Text ''XX'']) w = (q, w')" by (simp add: mini_query_def)
  from mini_set_effect [OF this] 7(2) show ?case by auto
next
  case (8 k b px w v w')
  then have "mini_set k b (px @ [Text ''XX'']) w = (Inr v, w')" by (simp add: mini_query_def)
  from mini_set_effect [OF this] 8(2) show ?case by (auto simp: mini_codec_def)
next
  case (9 ks w q w')
  then show ?case by (auto simp: mini_query_def Let_def outside_def mini_delete_live comp_def)
next
  case (10 ks w v w' k)
  then show ?case by (auto simp: mini_query_def Let_def mini_delete_live comp_def)
next
  case (13 k w q w')
  then have "w' = snd (mem_touch k 0 w)" by (auto simp: mini_query_def Let_def split: prod.splits)
  then show ?case by (simp add: mini_touch_live)
next
  case (14 k ms w q w')
  then have "w' = snd (mem_touch k (ms * 10 ^ 6) w)" by (auto simp: mini_query_def Let_def split: prod.splits)
  then show ?case by (simp add: mini_touch_live)
next
  case (15 k b w v w' n)
  obtain r s where s: "mem_delete_if k b w = (r, s)" by (metis surj_pair)
  obtain d where d: "r = Ok d" using mem_delete_if_total [of k b w] s by auto
  from mem_fenced.delete_if_Ok [of k b w d s] s d
  have "d = (mem_live w k = Some b)" "mem_live s = (if d then (mem_live w)(k := None) else mem_live w)"
    by (auto simp: memory_fenced_def)
  with 15 s d show ?case by (auto simp: mini_query_def mini_codec_def)
qed (auto simp: mini_query_def mini_codec_def split: option.splits if_splits)

interpretation mini_exact: exact_delete "resp_driver (mini_primitives catalog)" mem_live "\<lambda>_. ()"
proof
  fix ks and w :: mem_world
  have "\<exists>w'. mem_delete ks w = (Ok (), w') \<and> mem_live w' = (\<lambda>k. if k \<in> set ks then None else mem_live w k)"
    using mem_delete_eq by blast
  then obtain w' where d: "mem_delete ks w = (Ok (), w')" "mem_live w' = (\<lambda>k. if k \<in> set ks then None else mem_live w k)"
    by blast
  have "resp_delete (mini_primitives catalog) ks w = (Ok (), if ks = [] then w else w')"
    using d(1) by (simp add: resp_delete_def resp_reply_def resp_command_def mini_execute mini_codec_eq mini_query_def
        mini_codec_def resp_decode_def Let_def comp_def io_bind_def io_ret_def io_lift_def)
  then show "\<exists>w'. drv_delete (resp_driver (mini_primitives catalog)) ks w = (Ok (), w') \<and> () = () \<and>
      mem_live w' = (\<lambda>k. if k \<in> set ks then None else mem_live w k)"
    using d(2) by (auto simp: resp_driver_def)
qed

subsection \<open>Properties\<close>

text \<open>C37: lease encoding. A lease is sent in whole milliseconds, rounded up: it is never shortened, and
  lengthened by less than a millisecond; a positive lease is never sent as zero. Only a lease longer
  than the largest 64-bit number of milliseconds is refused.\<close>

theorem redis_lease_bounds:
  "(ttl_millis bk ttl = Ok ms \<longrightarrow> ttl \<le> ms * 10 ^ 6 \<and> ms * 10 ^ 6 < ttl + 10 ^ 6 \<and> (ms = 0 \<longleftrightarrow> ttl = 0)) \<and>
   ((\<exists>n. ttl_millis bk ttl = Ok n) \<longleftrightarrow> ttl \<le> (2 ^ 64 - 1) * 10 ^ 6)"
proof -
  have sub: "subsec_nanos ttl mod 10 ^ 6 = ttl mod 10 ^ 6"
    by (simp add: subsec_nanos_def mod_mod_cancel)
  define up where "up = (if ttl mod 10 ^ 6 = 0 then ttl div 10 ^ 6 else ttl div 10 ^ 6 + 1)"
  have split: "ttl = ttl div 10 ^ 6 * 10 ^ 6 + ttl mod 10 ^ 6" "ttl mod 10 ^ 6 < 10 ^ 6" by simp_all
  have up: "ttl \<le> up * 10 ^ 6 \<and> up * 10 ^ 6 < ttl + 10 ^ 6 \<and> (up = 0 \<longleftrightarrow> ttl = 0)"
  proof (cases "ttl mod 10 ^ 6 = 0")
    case True
    then have "up * 10 ^ 6 = ttl" using split(1) by (simp add: up_def)
    then show ?thesis by auto
  next
    case False
    then have "up * 10 ^ 6 = ttl div 10 ^ 6 * 10 ^ 6 + 10 ^ 6" "up \<noteq> 0" "ttl \<noteq> 0" by (auto simp: up_def)
    with split False show ?thesis by linarith
  qed
  have "ttl_millis bk ttl = (if up < 2 ^ 64 then Ok up else Err (ttl_range_error bk))"
    unfolding ttl_millis_def Let_def sub up_def as_millis_def by simp
  moreover have "up < 2 ^ 64 \<longleftrightarrow> ttl \<le> (2 ^ 64 - 1) * 10 ^ 6"
  proof
    assume "up < 2 ^ 64"
    then have "up * 10 ^ 6 \<le> (2 ^ 64 - 1) * 10 ^ 6" by (intro mult_right_mono) simp_all
    with up show "ttl \<le> (2 ^ 64 - 1) * 10 ^ 6" by linarith
  next
    assume "ttl \<le> (2 ^ 64 - 1) * 10 ^ 6"
    then have "up * 10 ^ 6 < (2 ^ 64 - 1) * 10 ^ 6 + 10 ^ 6" using up by linarith
    then show "up < 2 ^ 64" by simp
  qed
  ultimately show ?thesis using up by (auto split: if_splits)
qed

theorem redis_lease_bounds_witness:
  "ttl_millis ''redis'' 1500001 = Ok 2 \<and> (2::nat) * 10 ^ 6 < 1500001 + 10 ^ 6"
  using redis_lease_bounds [of "''redis''" 1500001 2]
  by (simp add: ttl_millis_def as_millis_def subsec_nanos_def)

lemma rsplit_colon_None: "rsplit_colon s = None \<longleftrightarrow> CHR '':'' \<notin> set s"
  by (induction s) (auto split: option.splits)

lemma rsplit_colon_append: "CHR '':'' \<notin> set b \<Longrightarrow> rsplit_colon (a @ CHR '':'' # b) = Some (a, b)"
proof (induction a)
  case Nil
  then have "rsplit_colon b = None" by (simp add: rsplit_colon_None)
  then show ?case by simp
qed simp

lemma rsplit_colon_Some: "rsplit_colon s = Some (a, b) \<Longrightarrow> s = a @ CHR '':'' # b"
  by (induction s arbitrary: a) (auto split: option.splits if_splits)

lemma split_bracket_append: "split_bracket host = None \<Longrightarrow> split_bracket (host @ '']:'' @ rest) = Some (host, rest)"
  by (induction host rule: split_bracket.induct) (auto split: option.splits if_splits)

lemma split_bracket_Some: "split_bracket s = Some (a, b) \<Longrightarrow> s = a @ '']:'' @ b"
  by (induction s arbitrary: a rule: split_bracket.induct) (auto split: option.splits if_splits)

lemma show_nat_is_digit: "list_all is_digit (show_nat n)"
proof -
  have "\<forall>d\<in>set [0..<10]. is_digit (digit_char d)" by code_simp
  then have "is_digit (digit_char d)" if "d < 10" for d using that by simp
  then show ?thesis using show_nat_digits by (auto simp: list_all_iff)
qed

lemma show_nat_not_Nil: "show_nat n \<noteq> []"
  by (subst show_nat.simps) simp

lemma parse_u16_show: "n < 2 ^ 16 \<Longrightarrow> parse_u16 (show_nat n) = Some n"
proof -
  assume n: "n < 2 ^ 16"
  obtain c cs where s: "show_nat n = c # cs" using show_nat_not_Nil by (cases "show_nat n") auto
  then have "c \<noteq> CHR ''+''" using show_nat_is_digit [of n] by (auto simp: is_digit_def)
  then show ?thesis using n show_nat_is_digit [of n] read_show_nat [of n] by (simp add: parse_u16_def s)
qed

lemma parse_u16_bound: "parse_u16 s = Some n \<Longrightarrow> n < 2 ^ 16"
  by (auto simp: parse_u16_def Let_def split: if_splits)

text \<open>address round trip. A host and a port written in either of the two forms parse back to
  themselves; whatever parses names a host that is not empty and a port between 1 and 65535, both
  read off the address.\<close>

theorem redis_address_roundtrip:
  assumes "host \<noteq> []" "0 < port" "port < 2 ^ 16"
  shows "(take 1 host \<noteq> ''['' \<longrightarrow> parse_address bk (host @ '':'' @ show_nat port) = Ok (host, port)) \<and>
    (split_bracket host = None \<longrightarrow> parse_address bk (''['' @ host @ '']:'' @ show_nat port) = Ok (host, port)) \<and>
    (parse_address bk a = Ok (h, n) \<longrightarrow> h \<noteq> [] \<and> 0 < n \<and> n < 2 ^ 16 \<and>
       (\<exists>digits. parse_u16 digits = Some n \<and> (a = h @ '':'' @ digits \<or> a = ''['' @ h @ '']:'' @ digits)))"
proof (intro conjI impI)
  assume "take 1 host \<noteq> ''[''"
  moreover have "take 1 (host @ '':'' @ show_nat port) = take 1 host" using assms(1) by (cases host) simp_all
  ultimately show "parse_address bk (host @ '':'' @ show_nat port) = Ok (host, port)"
    using assms by (simp add: parse_address_def rsplit_colon_append show_nat_no_colon parse_u16_show)
next
  assume "split_bracket host = None"
  then show "parse_address bk (''['' @ host @ '']:'' @ show_nat port) = Ok (host, port)"
    using assms split_bracket_append [of host "show_nat port"] by (simp add: parse_address_def parse_u16_show)
next
  assume ok: "parse_address bk a = Ok (h, n)"
  then obtain digits where d: "(if take 1 a = ''['' then split_bracket (drop 1 a) else rsplit_colon a) = Some (h, digits)"
    "h \<noteq> []" "parse_u16 digits = Some n" "n \<noteq> 0"
    by (auto simp: parse_address_def split: option.splits if_splits)
  then show "h \<noteq> []" "0 < n" "n < 2 ^ 16" using parse_u16_bound by auto
  have "a = h @ '':'' @ digits \<or> a = ''['' @ h @ '']:'' @ digits"
  proof (cases "take 1 a = ''[''")
    case True
    then obtain rest where "a = CHR ''['' # rest" by (cases a) auto
    with True d(1) split_bracket_Some [of rest h digits] show ?thesis by simp
  qed (use d(1) rsplit_colon_Some [of a h digits] in simp)
  with d(3) show "\<exists>digits. parse_u16 digits = Some n \<and> (a = h @ '':'' @ digits \<or> a = ''['' @ h @ '']:'' @ digits)"
    by blast
qed

theorem redis_address_roundtrip_witness:
  "parse_address ''redis'' (''cache.internal'' @ '':'' @ show_nat 6380) = Ok (''cache.internal'', 6380) \<and>
   parse_address ''redis'' (''['' @ ''fe80::1'' @ '']:'' @ show_nat 6380) = Ok (''fe80::1'', 6380)"
  using redis_address_roundtrip [of "''cache.internal''" 6380 "''redis''"] redis_address_roundtrip [of "''fe80::1''" 6380 "''redis''"]
  by auto

text \<open>an IPv6 address without brackets is not refused: its last group is read as the port.\<close>

theorem redis_unbracketed_ipv6: "parse_address ''redis'' ''::1:6379'' = Ok (''::1'', 6379)"
  by (simp add: parse_address_def parse_u16_def is_digit_def read_nat_def digit_val_def)

text \<open>lease reports. The remaining lease of an entry is read as zero exactly when the server says that the
  entry has no expiry; a lease that is nearly over is still reported as positive, a missing entry as
  missing, and a number the server never documents as a failure.\<close>

theorem redis_lease_report:
  assumes "rx_execute (rp_executor p) [Text ''PTTL'', Text key] w = (Inr v, w')" "rv_int (rp_codec p) v = Inr n"
  shows "(resp_ttl p key w = (Ok 0, w') \<longleftrightarrow> n = -1) \<and>
    (resp_ttl p key w = (Err NotFound, w') \<longleftrightarrow> n = -2) \<and>
    (0 \<le> n \<longrightarrow> (\<exists>d. resp_ttl p key w = (Ok d, w') \<and> 0 < d \<and> n * 10 ^ 6 \<le> int d \<and> int d \<le> (n + 1) * 10 ^ 6)) \<and>
    (n < -2 \<longrightarrow> (\<exists>e. resp_ttl p key w = (Err (Internal e), w')))"
proof -
  have "resp_ttl p key w = (if n = -2 then (Err NotFound, w') else if n = -1 then (Ok 0, w') else if n = 0 then (Ok (10 ^ 6), w')
      else if n > 0 then (Ok (nat n * 10 ^ 6), w')
      else (Err (resp_internal (rp_backend p) ''ttl reply'' (''unexpected Redis PTTL sentinel '' @ show_int n)), w'))"
    using assms by (simp add: resp_ttl_def resp_reply_def resp_command_def resp_decode_def io_bind_def io_ret_def io_fail_def
        io_lift_def)
  then show ?thesis by (auto simp: resp_internal_def)
qed

theorem redis_lease_report_witness:
  "resp_ttl \<lparr>rp_profile = redis_profile, rp_executor = \<lparr>rx_execute = (\<lambda>c w. (Inr (MiniInt (-1)), w)),
       rx_execute_pipeline = (\<lambda>c w. (Inl '''', w)), rx_close = (\<lambda>w. w)\<rparr>, rp_codec = mini_codec\<rparr> ''k'' memory_new = (Ok 0, memory_new)"
proof -
  let ?p = "\<lparr>rp_profile = redis_profile, rp_executor = \<lparr>rx_execute = (\<lambda>c w. (Inr (MiniInt (-1)), w)),
       rx_execute_pipeline = (\<lambda>c w. (Inl '''', w)), rx_close = (\<lambda>w. w)\<rparr>, rp_codec = mini_codec\<rparr>"
  have "rx_execute (rp_executor ?p) [Text ''PTTL'', Text ''k''] memory_new = (Inr (MiniInt (-1)), memory_new)"
    "rv_int (rp_codec ?p) (MiniInt (-1)) = Inr (-1)"
    by (simp_all add: mini_codec_def)
  from redis_lease_report [OF this] show ?thesis by blast
qed

text \<open>C32: driver contract. Over any server that keeps the documented meaning of the string commands, the
  Redis driver keeps the contract of a fenced key-value store: on every outcome, a command that fails
  or a reply that cannot be decoded included.\<close>

theorem redis_strings_lawful:
  "resp_strings p live \<Longrightarrow> fenced_store (resp_driver p) live (resp_fenced p)"
  by (rule resp_strings.driver_lawful)

theorem redis_strings_lawful_witness:
  "fenced_store (resp_driver (mini_primitives [])) mem_live (resp_fenced (mini_primitives []))"
  by (rule redis_strings_lawful [OF mini.resp_strings_axioms])

text \<open>keyspace walk. A scan succeeds exactly when the walk from cursor 0 back to cursor 0 does, page by
  page, and its result is every key of every page, each once, in the order of its first sight.\<close>

theorem redis_scan_complete:
  "resp_scan p pat w = Some (Ok keys, w') \<longleftrightarrow>
     (\<exists>ps. cursor_run (resp_scan_page p pat) 0 w ps w' \<and> keys = dedup [] (concat ps))"
proof
  assume scan: "resp_scan p pat w = Some (Ok keys, w')"
  then obtain ps where run: "cursor_run (resp_scan_page p pat) 0 w ps w'"
    using resp_scan_loop_Ok [of p pat 0 "[]" w keys w'] by (auto simp: resp_scan_def)
  with scan resp_scan_loop_run [OF run, of "[]"]
  show "\<exists>ps. cursor_run (resp_scan_page p pat) 0 w ps w' \<and> keys = dedup [] (concat ps)"
    by (auto simp: resp_scan_def)
next
  assume "\<exists>ps. cursor_run (resp_scan_page p pat) 0 w ps w' \<and> keys = dedup [] (concat ps)"
  then show "resp_scan p pat w = Some (Ok keys, w')"
    using resp_scan_loop_run [of p pat 0 w _ w' "[]"] by (auto simp: resp_scan_def)
qed

lemma mini_pages_advance:
  "advancing (\<lambda>_. 0) (resp_scan_page (mini_primitives catalog) pat)"
  "advancing (\<lambda>_. 0) (resp_set_page (mini_primitives catalog) key)"
  by (auto simp: advancing_def resp_scan_page_def resp_set_page_def resp_reply_def resp_command_def mini_execute
      mini_codec_eq mini_query_def mini_codec_def resp_decode_def io_bind_def io_lift_def)

text \<open>walks end. When no cursor of a walk comes back, for whatever order the server numbers its cursors
  in, both walks return: with the keys, or with the first failure of a page or of the visitor.\<close>

theorem redis_walks_end:
  assumes "advancing rank (resp_scan_page p pat)" "advancing rank (resp_set_page p key)"
  shows "(\<exists>r. resp_scan p pat w = Some r) \<and> (\<exists>r. resp_set_scan p key visit vw = Some r)"
  unfolding resp_scan_def resp_set_scan_def
  using resp_scan_loop_returns [OF assms(1)] resp_set_scan_loop_returns [OF assms(2)] by blast

theorem redis_walks_end_witness:
  "(\<exists>r. resp_scan (mini_primitives [''a'']) ''*'' memory_new = Some r) \<and>
   (\<exists>r. resp_set_scan (mini_primitives [''a'']) ''s'' (\<lambda>_ vw. (Ok (), vw)) ((), memory_new) = Some r)"
  by (rule redis_walks_end [OF mini_pages_advance])

end
