(* ===== verification/Grpc.thy ===== *)
theory Grpc
  imports Prelude
begin

text \<open>
  The message-level interceptor chain of the gRPC server (\<open>src/grpc/src/intercept.rs\<close>) and the vocabulary
  the interceptors share: status codes (\<open>codes.rs\<close>), statuses, header maps, unary calls and replies.

  A header map is a function from lower-case names to the list of their values. A status keeps its details
  decoded; their packing into bytes is code of another crate. Descriptors and dynamic messages are those of
  a reflection library: the record \<open>reflection\<close> holds the operations the sources call. A service is a
  function from a request and a world to a response and a world. The body of a message is what collecting
  it yields: a failure, or its data and, for a response, its trailers.
\<close>

subsection \<open>Text\<close>

text \<open>
  \<open>str::trim\<close>, \<open>to_lowercase\<close>, \<open>to_uppercase\<close>, \<open>char::is_lowercase\<close> and \<open>strip_suffix\<close>, \<open>strip_prefix\<close> as the
  sources use them, on ASCII text; a byte of a longer character is left alone.
\<close>

definition is_space :: "char \<Rightarrow> bool" where
  "is_space c \<longleftrightarrow> c = CHR '' '' \<or> 9 \<le> (of_char c :: nat) \<and> (of_char c :: nat) \<le> 13"

definition str_trim :: "string \<Rightarrow> string" where
  "str_trim s = rev (dropWhile is_space (rev (dropWhile is_space s)))"

definition is_lower :: "char \<Rightarrow> bool" where
  "is_lower c \<longleftrightarrow> 97 \<le> (of_char c :: nat) \<and> (of_char c :: nat) \<le> 122"

definition is_upper :: "char \<Rightarrow> bool" where
  "is_upper c \<longleftrightarrow> 65 \<le> (of_char c :: nat) \<and> (of_char c :: nat) \<le> 90"

definition lower_char :: "char \<Rightarrow> char" where
  "lower_char c = (if is_upper c then char_of ((of_char c :: nat) + 32) else c)"

definition upper_char :: "char \<Rightarrow> char" where
  "upper_char c = (if is_lower c then char_of ((of_char c :: nat) - 32) else c)"

definition to_lowercase :: "string \<Rightarrow> string" where
  "to_lowercase s = map lower_char s"

definition to_uppercase :: "string \<Rightarrow> string" where
  "to_uppercase s = map upper_char s"

definition ends_with :: "char \<Rightarrow> string \<Rightarrow> bool" where
  "ends_with c s \<longleftrightarrow> s \<noteq> [] \<and> last s = c"

definition drop_suffix_char :: "char \<Rightarrow> string \<Rightarrow> string" where
  "drop_suffix_char c s = (if ends_with c s then butlast s else s)"

definition strip_prefix :: "string \<Rightarrow> string \<Rightarrow> string option" where
  "strip_prefix p s = (if take (length p) s = p then Some (drop (length p) s) else None)"

definition join :: "string \<Rightarrow> string list \<Rightarrow> string" where
  "join sep xs = (case xs of [] \<Rightarrow> '''' | y # ys \<Rightarrow> y @ concat (map (\<lambda>z. sep @ z) ys))"

lemma str_trim_fixed: "s = [] \<or> \<not> is_space (hd s) \<and> \<not> is_space (last s) \<Longrightarrow> str_trim s = s"
proof -
  have d: "xs = [] \<or> \<not> is_space (hd xs) \<Longrightarrow> dropWhile is_space xs = xs" for xs by (cases xs) auto
  assume s: "s = [] \<or> \<not> is_space (hd s) \<and> \<not> is_space (last s)"
  then have "dropWhile is_space s = s" "dropWhile is_space (rev s) = rev s" by (auto intro: d simp: hd_rev)
  then show ?thesis by (simp add: str_trim_def)
qed

subsection \<open>Header maps\<close>

type_synonym header_map = "string \<Rightarrow> string list"

definition no_headers :: header_map where
  "no_headers = (\<lambda>_. [])"

definition hm_get :: "header_map \<Rightarrow> string \<Rightarrow> string option" where
  "hm_get h n = (case h n of [] \<Rightarrow> None | v # _ \<Rightarrow> Some v)"

definition hm_contains :: "header_map \<Rightarrow> string \<Rightarrow> bool" where
  "hm_contains h n \<longleftrightarrow> h n \<noteq> []"

definition hm_insert :: "string \<Rightarrow> string \<Rightarrow> header_map \<Rightarrow> header_map" where
  "hm_insert n v h = h(n := [v])"

definition hm_append :: "string \<Rightarrow> string \<Rightarrow> header_map \<Rightarrow> header_map" where
  "hm_append n v h = h(n := h n @ [v])"

subsection \<open>Codes and statuses\<close>

datatype grpc_code =
    CodeOk | CodeCancelled | CodeUnknown | CodeInvalidArgument | CodeDeadlineExceeded | CodeNotFound
  | CodeAlreadyExists | CodePermissionDenied | CodeResourceExhausted | CodeFailedPrecondition | CodeAborted
  | CodeOutOfRange | CodeUnimplemented | CodeInternal | CodeUnavailable | CodeDataLoss | CodeUnauthenticated

type_synonym text_map = "string \<rightharpoonup> string"

text \<open>The details the sources build; anything else a status carries is \<open>OtherDetail\<close>.\<close>

datatype error_detail =
    ErrorInfo (info_reason: string) (info_domain: string) (info_metadata: text_map)
  | BadRequest "(string \<times> string \<times> string) list"
  | PreconditionFailure "(string \<times> string \<times> string) list"
  | ResourceInfo string string string string
  | OtherDetail bytes

record grpc_status =
  gs_code :: grpc_code
  gs_message :: string
  gs_details :: "error_detail list"
  gs_metadata :: header_map

definition status_new :: "grpc_code \<Rightarrow> string \<Rightarrow> grpc_status" where
  "status_new code message = \<lparr>gs_code = code, gs_message = message, gs_details = [], gs_metadata = no_headers\<rparr>"

definition status_internal :: "string \<Rightarrow> grpc_status" where
  "status_internal message = status_new CodeInternal message"

definition with_error_details :: "grpc_code \<Rightarrow> string \<Rightarrow> error_detail list \<Rightarrow> grpc_status" where
  "with_error_details code message details =
     \<lparr>gs_code = code, gs_message = message, gs_details = details, gs_metadata = no_headers\<rparr>"

fun is_error_info :: "error_detail \<Rightarrow> bool" where
  "is_error_info (ErrorInfo _ _ _) = True"
| "is_error_info _ = False"

text \<open>The first \<open>ErrorInfo\<close> among the details.\<close>

definition error_info :: "grpc_status \<Rightarrow> error_detail option" where
  "error_info s = find is_error_info (gs_details s)"

text \<open>\<open>status::code\<close>, \<open>status::message\<close> and \<open>status::error\<close>.\<close>

definition code_of :: "grpc_status option \<Rightarrow> grpc_code" where
  "code_of s = (case s of None \<Rightarrow> CodeOk | Some s \<Rightarrow> gs_code s)"

definition message_of_status :: "grpc_status option \<Rightarrow> string" where
  "message_of_status s = (case s of None \<Rightarrow> '''' | Some s \<Rightarrow> gs_message s)"

definition error_of :: "grpc_code \<Rightarrow> string \<Rightarrow> grpc_status option" where
  "error_of code message = (if code \<noteq> CodeOk then Some (status_new code message) else None)"

subsection \<open>Reflection\<close>

datatype field_kind = KindString | KindBool | KindOther

record field_descriptor =
  fd_is_list :: bool
  fd_is_map :: bool
  fd_kind :: field_kind

record ('m, 'd, 'v) reflection =
  rf_methods :: "string \<Rightarrow> (string \<times> 'm) list option"
  rf_input :: "'m \<Rightarrow> 'd"
  rf_output :: "'m \<Rightarrow> 'd"
  rf_client_streaming :: "'m \<Rightarrow> bool"
  rf_server_streaming :: "'m \<Rightarrow> bool"
  rf_field :: "'d \<Rightarrow> string \<Rightarrow> field_descriptor option"
  rf_full_name :: "'d \<Rightarrow> string"
  rf_decode :: "'d \<Rightarrow> bytes \<Rightarrow> string + 'v"
  rf_encode :: "'v \<Rightarrow> bytes"
  rf_descriptor :: "'v \<Rightarrow> 'd"
  rf_string :: "'v \<Rightarrow> string \<Rightarrow> string option"
  rf_bool :: "'v \<Rightarrow> string \<Rightarrow> bool option"

subsection \<open>Paths and framing\<close>

text \<open>\<open>dropWhile\<close> is \<open>str::trim_start_matches\<close>.\<close>

definition split_path :: "string \<Rightarrow> string \<times> string" where
  "split_path path =
     (case split_once CHR ''/'' (dropWhile ((=) CHR ''/'') path) of Some x \<Rightarrow> x | None \<Rightarrow> (path, ''''))"

definition lookup_method :: "('m, 'd, 'v) reflection \<Rightarrow> string \<Rightarrow> 'm option" where
  "lookup_method rf path =
     (let (service, name) = split_path path
      in case rf_methods rf service of
           None \<Rightarrow> None
         | Some ms \<Rightarrow> map_option snd (find (\<lambda>m. fst m = name) ms))"

text \<open>\<open>put_u32\<close> and \<open>get_u32\<close>: big-endian.\<close>

definition put_u32 :: "nat \<Rightarrow> bytes" where
  "put_u32 n = [of_nat (n div 2 ^ 24), of_nat (n div 2 ^ 16), of_nat (n div 2 ^ 8), of_nat n]"

fun get_u32 :: "bytes \<Rightarrow> nat" where
  "get_u32 (a # b # c # d # _) = unat a * 2 ^ 24 + unat b * 2 ^ 16 + unat c * 2 ^ 8 + unat d"
| "get_u32 _ = 0"

definition frame :: "bool \<Rightarrow> bytes \<Rightarrow> bytes" where
  "frame compressed payload =
     (if compressed then 1 else 0) #
     put_u32 (if length payload < 2 ^ 32 then length payload else 2 ^ 32 - 1) @ payload"

definition unframe :: "bytes \<Rightarrow> (bool \<times> bytes) option" where
  "unframe bs =
     (if length bs < 5 then None
      else case (if hd bs = 0 then Some False else if hd bs = 1 then Some True else None) of
        None \<Rightarrow> None
      | Some compressed \<Rightarrow>
          if length (drop 5 bs) = get_u32 (drop 1 bs) then Some (compressed, drop 5 bs) else None)"

subsection \<open>Calls, replies and the chain\<close>

record ('x, 'm) unary_call =
  uc_path :: string
  uc_metadata :: header_map
  uc_extensions :: 'x
  uc_payload :: bytes
  uc_compressed :: bool
  uc_descriptor :: "'m option"

record 'd unary_reply =
  ur_metadata :: header_map
  ur_trailers :: header_map
  ur_payload :: bytes
  ur_compressed :: bool
  ur_descriptor :: "'d option"

definition unary_reply_new :: "bytes \<Rightarrow> 'd option \<Rightarrow> 'd unary_reply" where
  "unary_reply_new payload descriptor =
     \<lparr>ur_metadata = no_headers, ur_trailers = no_headers, ur_payload = payload, ur_compressed = False,
      ur_descriptor = descriptor\<rparr>"

definition decode_dynamic ::
  "('m, 'd, 'v) reflection \<Rightarrow> 'd \<Rightarrow> bytes \<Rightarrow> bool \<Rightarrow> grpc_status + 'v" where
  "decode_dynamic rf descriptor payload compressed =
     (if compressed then Inl (status_internal ''a compressed message cannot be inspected'')
      else case rf_decode rf descriptor payload of
        Inl e \<Rightarrow> Inl (status_new CodeInvalidArgument (''the message does not decode: '' @ e))
      | Inr v \<Rightarrow> Inr v)"

definition missing_descriptor :: "string \<Rightarrow> grpc_status" where
  "missing_descriptor path =
     status_internal (''no descriptor is registered for '' @ path @
       ''; register its descriptor set with HybridServer::with_reflection'')"

definition call_message :: "('m, 'd, 'v) reflection \<Rightarrow> ('x, 'm) unary_call \<Rightarrow> grpc_status + 'v" where
  "call_message rf call =
     (case uc_descriptor call of
        None \<Rightarrow> Inl (missing_descriptor (uc_path call))
      | Some m \<Rightarrow> decode_dynamic rf (rf_input rf m) (uc_payload call) (uc_compressed call))"

definition reply_message :: "('m, 'd, 'v) reflection \<Rightarrow> 'd unary_reply \<Rightarrow> grpc_status + 'v" where
  "reply_message rf reply =
     (case ur_descriptor reply of
        None \<Rightarrow> Inl (status_internal ''the method's response descriptor was not registered'')
      | Some d \<Rightarrow>
          (case decode_dynamic rf d (ur_payload reply) (ur_compressed reply) of
             Inl status \<Rightarrow> Inl (status_internal (gs_message status))
           | Inr v \<Rightarrow> Inr v))"

type_synonym ('w, 'x, 'm, 'd) next_call = "('x, 'm) unary_call \<Rightarrow> 'w \<Rightarrow> (grpc_status + 'd unary_reply) \<times> 'w"

type_synonym ('w, 'x, 'm, 'd) interceptor = "('x, 'm) unary_call \<Rightarrow> ('w, 'x, 'm, 'd) next_call \<Rightarrow> 'w
  \<Rightarrow> (grpc_status + 'd unary_reply) \<times> 'w"

fun next_run ::
  "('w, 'x, 'm, 'd) interceptor list \<Rightarrow> ('w, 'x, 'm, 'd) next_call \<Rightarrow> ('w, 'x, 'm, 'd) next_call" where
  "next_run [] terminal call = terminal call"
| "next_run (first # rest) terminal call = first call (next_run rest terminal)"

subsection \<open>The layer in front of the service\<close>

record 'x http_request =
  hr_path :: string
  hr_headers :: header_map
  hr_extensions :: 'x
  hr_body :: "grpc_status + bytes"

record http_response =
  hs_headers :: header_map
  hs_body :: "grpc_status + bytes \<times> header_map option"

text \<open>What the server library does with a status: render it, and read one from headers.\<close>

record status_wire =
  sw_into_http :: "grpc_status \<Rightarrow> http_response"
  sw_from_headers :: "header_map \<Rightarrow> grpc_status option"

type_synonym ('w, 'x) service = "'x http_request \<Rightarrow> 'w \<Rightarrow> http_response \<times> 'w"

definition failed_status :: "status_wire \<Rightarrow> header_map \<Rightarrow> grpc_status option" where
  "failed_status sw h =
     (case sw_from_headers sw h of
        Some s \<Rightarrow> if gs_code s \<noteq> CodeOk then Some s else None
      | None \<Rightarrow> None)"

definition forward ::
  "status_wire \<Rightarrow> ('w, 'x) service \<Rightarrow> 'x http_request \<Rightarrow> 'd option \<Rightarrow> ('w, 'x, 'm, 'd) next_call" where
  "forward sw inner parts output call w =
     (case inner (parts\<lparr>hr_headers := uc_metadata call, hr_extensions := uc_extensions call,
                        hr_body := Inr (frame (uc_compressed call) (uc_payload call))\<rparr>) w of
        (response, w') \<Rightarrow>
          (case failed_status sw (hs_headers response) of
             Some status \<Rightarrow> Inl status
           | None \<Rightarrow>
               (case hs_body response of
                  Inl status \<Rightarrow> Inl status
                | Inr (data, tr) \<Rightarrow>
                    let trailers = (case tr of Some t \<Rightarrow> t | None \<Rightarrow> no_headers)
                    in case failed_status sw trailers of
                         Some status \<Rightarrow> Inl status
                       | None \<Rightarrow>
                           (case unframe data of
                              None \<Rightarrow> Inl (status_internal ''the service's reply was not one gRPC message'')
                            | Some (compressed, payload) \<Rightarrow>
                                Inr \<lparr>ur_metadata = hs_headers response, ur_trailers = trailers, ur_payload = payload,
                                     ur_compressed = compressed, ur_descriptor = output\<rparr>)), w'))"

definition render :: "'d unary_reply \<Rightarrow> http_response" where
  "render reply =
     (let trailers = (if hm_contains (ur_trailers reply) ''grpc-status'' then ur_trailers reply
                      else hm_insert ''grpc-status'' ''0'' (ur_trailers reply))
      in \<lparr>hs_headers = ur_metadata reply,
          hs_body = Inr (frame (ur_compressed reply) (ur_payload reply), Some trailers)\<rparr>)"

definition intercept ::
  "('m, 'd, 'v) reflection \<Rightarrow> status_wire \<Rightarrow> ('w, 'x) service \<Rightarrow> ('w, 'x, 'm, 'd) interceptor list \<Rightarrow> 'm option
     \<Rightarrow> ('w, 'x) service" where
  "intercept rf sw inner ch descriptor request w =
     (case hr_body request of
        Inl status \<Rightarrow> (sw_into_http sw status, w)
      | Inr bs \<Rightarrow>
          (case unframe bs of
             None \<Rightarrow> inner request w
           | Some (compressed, payload) \<Rightarrow>
               (let call = \<lparr>uc_path = hr_path request, uc_metadata = hr_headers request,
                            uc_extensions = hr_extensions request, uc_payload = payload, uc_compressed = compressed,
                            uc_descriptor = descriptor\<rparr>
                in case next_run ch (forward sw inner request (map_option (rf_output rf) descriptor)) call w of
                     (Inr reply, w') \<Rightarrow> (render reply, w')
                   | (Inl status, w') \<Rightarrow> (sw_into_http sw status, w'))))"

text \<open>The layer: a call with no interceptor, no descriptor or a stream goes to the service untouched.\<close>

definition intercepted ::
  "('m, 'd, 'v) reflection \<Rightarrow> status_wire \<Rightarrow> ('w, 'x) service \<Rightarrow> ('w, 'x, 'm, 'd) interceptor list \<Rightarrow> ('w, 'x) service" where
  "intercepted rf sw inner ch request =
     (if ch = [] then inner request
      else case lookup_method rf (hr_path request) of
        None \<Rightarrow> inner request
      | Some m \<Rightarrow>
          if rf_client_streaming rf m \<or> rf_server_streaming rf m then inner request
          else intercept rf sw inner ch (Some m) request)"

subsection \<open>Lemmas\<close>

lemma get_put_u32: "n < 2 ^ 32 \<Longrightarrow> get_u32 (put_u32 n @ rest) = n"
proof -
  assume n: "n < 2 ^ 32"
  have "n div 2 ^ 24 < 256" using n by simp
  moreover have "n = n div 2 ^ 24 * 2 ^ 24 + n div 2 ^ 16 mod 256 * 2 ^ 16 + n div 2 ^ 8 mod 256 * 2 ^ 8 + n mod 256"
  proof -
    have digits: "n = d * 2 ^ 24 + r2 * 2 ^ 16 + r1 * 2 ^ 8 + r0"
      if "c = d * 256 + r2" "b = c * 256 + r1" "n = b * 256 + r0" for b c d r0 r1 r2 :: nat
      using that by simp
    have "n div 2 ^ 16 = n div 2 ^ 24 * 256 + n div 2 ^ 16 mod 256" "n div 2 ^ 8 = n div 2 ^ 16 * 256 + n div 2 ^ 8 mod 256"
      "n = n div 2 ^ 8 * 256 + n mod 256"
      using div_mult_mod_eq [of "n div 2 ^ 16" 256] div_mult_mod_eq [of "n div 2 ^ 8" 256] div_mult_mod_eq [of n 256]
      by (simp_all add: div_mult2_eq [symmetric])
    then show ?thesis by (rule digits)
  qed
  ultimately show ?thesis by (simp add: put_u32_def unat_of_nat)
qed

lemma length_put_u32 [simp]: "length (put_u32 n) = 4"
  by (simp add: put_u32_def)

lemma get_u32_bytes:
  fixes a b c d :: "8 word"
  defines "n \<equiv> unat a * 2 ^ 24 + unat b * 2 ^ 16 + unat c * 2 ^ 8 + unat d"
  shows "n < 2 ^ 32 \<and> put_u32 n = [a, b, c, d]"
proof -
  have u: "unat a < 256" "unat b < 256" "unat c < 256" "unat d < 256"
    using unsigned_less [of a] unsigned_less [of b] unsigned_less [of c] unsigned_less [of d] by simp_all
  have 1: "n div 2 ^ 8 = unat a * 2 ^ 16 + unat b * 2 ^ 8 + unat c"
    using u(4) unfolding n_def by simp
  then have 2: "n div 2 ^ 16 = unat a * 2 ^ 8 + unat b"
    using u(3) div_mult2_eq [of n "2 ^ 8" "2 ^ 8"] by simp
  then have 3: "n div 2 ^ 24 = unat a"
    using u(2) div_mult2_eq [of n "2 ^ 16" "2 ^ 8"] by simp
  have w: "(of_nat (k * 256 + unat x) :: 8 word) = x" for k and x :: "8 word"
  proof -
    have "(of_nat (k * 256) :: 8 word) = of_nat k * of_nat (2 ^ 8)" by simp
    also have "(of_nat (2 ^ 8) :: 8 word) = 0" by simp
    finally show ?thesis by simp
  qed
  have "put_u32 n = [a, b, c, d]"
    unfolding put_u32_def 1 2 3
    using w [of 0 a] w [of "unat a" b] w [of "unat a * 2 ^ 8 + unat b" c] w [of "unat a * 2 ^ 16 + unat b * 2 ^ 8 + unat c" d]
    by (simp add: n_def algebra_simps)
  then show ?thesis using u unfolding n_def by simp
qed

lemma unframe_frame: "length payload < 2 ^ 32 \<Longrightarrow> unframe (frame compressed payload) = Some (compressed, payload)"
  by (simp add: unframe_def frame_def get_put_u32)

lemma frame_unframe:
  assumes "unframe bs = Some (compressed, payload)"
  shows "frame compressed payload = bs \<and> length payload < 2 ^ 32"
proof -
  from assms have len: "5 \<le> length bs" by (auto simp: unframe_def split: if_splits)
  then obtain z a b c d rest where bs: "bs = z # a # b # c # d # rest"
    by (auto simp: numeral_eq_Suc Suc_le_length_iff)
  with assms have "payload = rest" "length rest = get_u32 (a # b # c # d # rest)"
    "z = (if compressed then 1 else 0)"
    by (auto simp: unframe_def split: if_splits)
  with get_u32_bytes [of a b c d] bs show ?thesis by (simp add: frame_def)
qed

lemma next_run_relay: "\<forall>i\<in>set ch. \<forall>call k. i call k = k call \<Longrightarrow> next_run ch terminal call = terminal call"
  by (induction ch arbitrary: call) auto

subsection \<open>Properties\<close>

text \<open>gRPC framing. A body is taken for one message exactly when it is that message framed: what is
  unframed frames back to the same bytes, every message below four gigabytes unframes to itself, and
  anything shorter, longer or wrongly flagged is no message.\<close>

theorem grpc_framing:
  "unframe bs = Some (compressed, payload) \<longleftrightarrow> bs = frame compressed payload \<and> length payload < 2 ^ 32"
  using frame_unframe unframe_frame by blast

text \<open>the chain is transparent. Whatever interceptors that pass a call on are installed, a service that
  answers with one message and an OK status is answered for unchanged: it receives the request as it was
  sent, be it unary, streaming, unknown or malformed, and its response goes back as it was made.\<close>

theorem interceptors_transparent:
  assumes "\<forall>i\<in>set ch. \<forall>call k. i call k = k call"
    and "hr_body request = Inr bs" "inner request w = (response, w')"
    and "failed_status sw (hs_headers response) = None" "failed_status sw tr = None"
    and "hs_body response = Inr (frame c p, Some tr)" "length p < 2 ^ 32" "hm_contains tr ''grpc-status''"
  shows "intercepted rf sw inner ch request w = (response, w')"
proof -
  have "intercept rf sw inner ch descriptor request w = (response, w')" for descriptor
  proof (cases "unframe bs")
    case None
    then show ?thesis using assms(2,3) by (simp add: intercept_def)
  next
    case (Some cp)
    obtain compressed payload where cp: "cp = (compressed, payload)" by fastforce
    then have "frame compressed payload = bs" using Some frame_unframe by blast
    then have "request\<lparr>hr_headers := hr_headers request, hr_extensions := hr_extensions request,
        hr_body := Inr (frame compressed payload)\<rparr> = request"
      using assms(2) by simp
    then show ?thesis
      using Some cp assms(2-8) next_run_relay [OF assms(1)]
      by (simp add: intercept_def forward_def render_def unframe_frame Let_def)
  qed
  then show ?thesis using assms(3) by (simp add: intercepted_def split: option.splits)
qed

definition sample_reflection :: "(unit, unit, bytes) reflection" where
  "sample_reflection = \<lparr>rf_methods = (\<lambda>s. if s = ''shop.v1.Shop'' then Some [(''Get'', ())] else None),
     rf_input = (\<lambda>_. ()), rf_output = (\<lambda>_. ()), rf_client_streaming = (\<lambda>_. False), rf_server_streaming = (\<lambda>_. False),
     rf_field = (\<lambda>_ n. if n = ''request_id'' then Some \<lparr>fd_is_list = False, fd_is_map = False, fd_kind = KindString\<rparr> else None),
     rf_full_name = (\<lambda>_. ''shop.v1.Book''), rf_decode = (\<lambda>_ b. Inr b), rf_encode = (\<lambda>b. b), rf_descriptor = (\<lambda>_. ()),
     rf_string = (\<lambda>v n. Some (map (\<lambda>b. char_of (unat b)) v)), rf_bool = (\<lambda>_ _. None)\<rparr>"

definition sample_wire :: status_wire where
  "sample_wire = \<lparr>sw_into_http = (\<lambda>s. \<lparr>hs_headers = no_headers, hs_body = Inl s\<rparr>), sw_from_headers = (\<lambda>_. None)\<rparr>"

theorem interceptors_transparent_witness:
  "let response = \<lparr>hs_headers = no_headers,
       hs_body = Inr (frame False [7], Some (hm_insert ''grpc-status'' ''0'' no_headers))\<rparr>
   in intercepted sample_reflection sample_wire (\<lambda>_ w. (response, w)) [\<lambda>call k. k call]
        \<lparr>hr_path = ''/shop.v1.Shop/Get'', hr_headers = no_headers, hr_extensions = (), hr_body = Inr (frame False [1, 2])\<rparr> ()
      = (response, ())"
  unfolding Let_def
  by (rule interceptors_transparent [OF _ _ _ _ _ _ _, where tr = "hm_insert ''grpc-status'' ''0'' no_headers" and c = False and p = "[7]"])
    (simp_all add: failed_status_def sample_wire_def hm_contains_def hm_insert_def)

end
