(* ===== verification/Problem.thy ===== *)
theory Problem
  imports Grpc
begin

text \<open>
  Problem details (\<open>src/grpc/src/problem/mod.rs\<close> and \<open>interceptor.rs\<close>): problems, the translator that maps a
  service's errors onto statuses, the carrier a problem travels in from a handler to the interceptor, and
  the interceptor.

  An error is the list of the errors on its source chain, outermost first; each is a problem, a status, or
  another error with its text. Metadata maps are partial functions.
\<close>

subsection \<open>Problems\<close>

record problem =
  pb_kind :: "string option"
  pb_reason :: string
  pb_what :: string
  pb_fix :: string
  pb_field :: string
  pb_resource_type :: string
  pb_resource_name :: string
  pb_metadata :: text_map

definition problem_default :: problem where
  "problem_default = \<lparr>pb_kind = None, pb_reason = '''', pb_what = '''', pb_fix = '''', pb_field = '''',
     pb_resource_type = '''', pb_resource_name = '''', pb_metadata = Map.empty\<rparr>"

definition problem_new :: "string \<Rightarrow> problem" where
  "problem_new kind = problem_default\<lparr>pb_kind := Some kind\<rparr>"

definition problem_resource :: "string \<Rightarrow> string \<Rightarrow> problem \<Rightarrow> problem" where
  "problem_resource kind name p = p\<lparr>pb_resource_type := kind, pb_resource_name := name\<rparr>"

definition problem_add_metadata :: "string \<Rightarrow> string \<Rightarrow> problem \<Rightarrow> problem" where
  "problem_add_metadata key v p = p\<lparr>pb_metadata := (pb_metadata p)(key \<mapsto> v)\<rparr>"

definition show_problem :: "problem \<Rightarrow> string" where
  "show_problem p =
     (if pb_fix p = '''' then pb_what p else drop_suffix_char CHR ''.'' (pb_what p) @ ''. '' @ pb_fix p)"

subsection \<open>The carrier\<close>

definition carrier_domain :: string where
  "carrier_domain = ''problem.tpp-grpc.internal''"

definition carrier_reason :: string where
  "carrier_reason = ''UNTRANSLATED_PROBLEM''"

definition carrier_metadata :: string where
  "carrier_metadata = ''metadata.''"

definition carrier_map :: "problem \<Rightarrow> text_map" where
  "carrier_map p =
     (\<lambda>k. case strip_prefix carrier_metadata k of Some k' \<Rightarrow> pb_metadata p k' | None \<Rightarrow> None)
       (''kind'' \<mapsto> (case pb_kind p of Some k \<Rightarrow> k | None \<Rightarrow> ''''), ''reason'' \<mapsto> pb_reason p, ''what'' \<mapsto> pb_what p,
        ''fix'' \<mapsto> pb_fix p, ''field'' \<mapsto> pb_field p, ''resource_type'' \<mapsto> pb_resource_type p,
        ''resource_name'' \<mapsto> pb_resource_name p)"

definition problem_into_status :: "problem \<Rightarrow> grpc_status" where
  "problem_into_status p =
     with_error_details CodeUnknown (show_problem p) [ErrorInfo carrier_reason carrier_domain (carrier_map p)]"

definition problem_of_map :: "text_map \<Rightarrow> problem" where
  "problem_of_map meta =
     (let take = (\<lambda>key. case meta key of Some v \<Rightarrow> v | None \<Rightarrow> '''');
          rest = meta(''kind'' := None, ''reason'' := None, ''what'' := None, ''fix'' := None, ''field'' := None,
                      ''resource_type'' := None, ''resource_name'' := None)
      in \<lparr>pb_kind = (if take ''kind'' \<noteq> '''' then Some (take ''kind'') else None), pb_reason = take ''reason'',
          pb_what = take ''what'', pb_fix = take ''fix'', pb_field = take ''field'',
          pb_resource_type = take ''resource_type'', pb_resource_name = take ''resource_name'',
          pb_metadata = (\<lambda>k. rest (carrier_metadata @ k))\<rparr>)"

definition from_carrier :: "grpc_status \<Rightarrow> problem option" where
  "from_carrier status =
     (case error_info status of
        Some (ErrorInfo reason domain meta) \<Rightarrow>
          if domain \<noteq> carrier_domain \<or> reason \<noteq> carrier_reason then None else Some (problem_of_map meta)
      | _ \<Rightarrow> None)"

subsection \<open>Errors and the translator\<close>

datatype err_node = NodeProblem problem | NodeStatus grpc_status | NodeOther string

type_synonym std_error = "err_node list"

record problem_kind =
  kd_sentinel :: string
  kd_code :: grpc_code
  kd_reason :: string

record declared_reason =
  dr_name :: string
  dr_code :: grpc_code
  dr_description :: string

record translator =
  tr_domain :: string
  tr_kinds :: "problem_kind list"
  tr_strip :: "string list"
  tr_handlers :: "(std_error \<Rightarrow> grpc_status option) list"
  tr_reasons :: "string \<rightharpoonup> declared_reason"

definition translator_new :: "string \<Rightarrow> problem_kind list \<Rightarrow> translator" where
  "translator_new domain kinds =
     \<lparr>tr_domain = domain, tr_kinds = kinds, tr_strip = map kd_sentinel kinds, tr_handlers = [], tr_reasons = Map.empty\<rparr>"

definition translator_strip :: "string list \<Rightarrow> translator \<Rightarrow> translator" where
  "translator_strip sentinels t = t\<lparr>tr_strip := tr_strip t @ sentinels\<rparr>"

definition translator_handle :: "(std_error \<Rightarrow> grpc_status option) \<Rightarrow> translator \<Rightarrow> translator" where
  "translator_handle handler t = t\<lparr>tr_handlers := tr_handlers t @ [handler]\<rparr>"

definition translator_declare :: "declared_reason list \<Rightarrow> translator \<Rightarrow> translator" where
  "translator_declare reasons t =
     t\<lparr>tr_reasons := foldl (\<lambda>m r. m(dr_name r \<mapsto> r)) (tr_reasons t) reasons\<rparr>"

definition sentence :: "string \<Rightarrow> string" where
  "sentence message =
     (let msg = str_trim message
      in if msg = '''' then ''''
         else
           let first = takeWhile ((\<noteq>) CHR '' '') msg;
               out = (if list_all is_lower first then upper_char (hd msg) # tl msg else msg)
           in if \<not> ends_with CHR ''.'' out \<and> \<not> ends_with CHR ''?'' out then out @ ''.'' else out)"

definition message_of_node :: "err_node \<Rightarrow> string" where
  "message_of_node e = (case e of NodeStatus s \<Rightarrow> gs_message s | NodeProblem p \<Rightarrow> show_problem p | NodeOther text \<Rightarrow> text)"

definition wraps :: "string \<Rightarrow> string \<Rightarrow> bool" where
  "wraps message sentinel \<longleftrightarrow> sentinel \<noteq> '''' \<and>
     (message = sentinel \<or> prefix (sentinel @ '': '') message \<or> sublist ('': '' @ sentinel @ '': '') message \<or>
      suffix ('': '' @ sentinel) message)"

definition with_reason :: "grpc_code \<Rightarrow> string \<Rightarrow> string \<Rightarrow> string \<Rightarrow> grpc_status" where
  "with_reason code message reason domain = with_error_details code message [ErrorInfo reason domain Map.empty]"

definition reason_of :: "grpc_status \<Rightarrow> string option" where
  "reason_of status = map_option info_reason (error_info status)"

definition classify_message :: "translator \<Rightarrow> string \<Rightarrow> (grpc_code \<times> string) option" where
  "classify_message t message =
     map_option (\<lambda>k. (kd_code k, kd_reason k)) (find (\<lambda>k. wraps message (kd_sentinel k)) (tr_kinds t))"

definition classify_error :: "translator \<Rightarrow> std_error \<Rightarrow> (grpc_code \<times> string) option" where
  "classify_error t err =
     map_option (\<lambda>k. (kd_code k, kd_reason k))
       (find (\<lambda>k. list_ex (\<lambda>e. wraps (message_of_node e) (kd_sentinel k)) err) (tr_kinds t))"

text \<open>One pass of the \<open>for\<close> loop, and the \<open>while\<close> loop around it.\<close>

fun strip_pass :: "string list \<Rightarrow> string \<times> bool \<Rightarrow> string \<times> bool" where
  "strip_pass [] x = x"
| "strip_pass (sentinel # rest) (msg, again) =
     (case strip_prefix sentinel msg of
        None \<Rightarrow> strip_pass rest (msg, again)
      | Some r \<Rightarrow> (case strip_prefix '': '' r of None \<Rightarrow> strip_pass rest (msg, again) | Some r' \<Rightarrow> strip_pass rest (r', True)))"

lemma strip_prefix_Some: "strip_prefix p s = Some r \<longleftrightarrow> s = p @ r"
  by (metis append_eq_conv_conj append_take_drop_id option.distinct(1) option.inject strip_prefix_def)

lemma strip_pass_shorter: "strip_pass sentinels (msg, again) = (msg', again') \<Longrightarrow>
    suffix msg' msg \<and> (again' \<longrightarrow> again \<or> length msg' < length msg) \<and>
    (\<not> again' \<longrightarrow> \<not> again \<and> msg' = msg \<and> (\<forall>s\<in>set sentinels. \<not> prefix (s @ '': '') msg))"
proof (induction sentinels arbitrary: msg again)
  case (Cons s rest)
  show ?case
  proof (cases "prefix (s @ '': '') msg")
    case True
    then obtain r where r: "msg = s @ '': '' @ r" by (auto simp: prefix_def)
    then have "strip_prefix s msg = Some ('': '' @ r)" "strip_prefix '': '' ('': '' @ r) = Some r"
      by (simp_all add: strip_prefix_Some)
    with Cons have "suffix msg' r \<and> again'" by fastforce
    then have "suffix msg' msg" "length msg' \<le> length r" using r by (auto simp: suffix_def)
    with \<open>suffix msg' r \<and> again'\<close> r show ?thesis by simp
  next
    case False
    then have "strip_pass (s # rest) (msg, again) = strip_pass rest (msg, again)"
      by (auto split: option.splits simp: strip_prefix_Some)
    then have "strip_pass rest (msg, again) = (msg', again')" using Cons.prems by (simp only:)
    from Cons.IH [OF this] False show ?thesis by simp
  qed
qed simp

function plain_loop :: "string list \<Rightarrow> string \<Rightarrow> string" where
  "plain_loop sentinels msg =
     (case strip_pass sentinels (msg, False) of (msg', again) \<Rightarrow> if again then plain_loop sentinels msg' else msg')"
  by auto
termination
  by (relation "measure (\<lambda>(_, msg). length msg)") (auto dest!: strip_pass_shorter [OF sym])

declare plain_loop.simps [simp del]

definition plain_message :: "translator \<Rightarrow> string \<Rightarrow> string" where
  "plain_message t message = plain_loop (tr_strip t) message"

text \<open>\<open>Iterator::find_map\<close>.\<close>

fun find_map :: "('a \<Rightarrow> 'b option) \<Rightarrow> 'a list \<Rightarrow> 'b option" where
  "find_map f [] = None"
| "find_map f (x # xs) = (case f x of Some y \<Rightarrow> Some y | None \<Rightarrow> find_map f xs)"

definition handled :: "translator \<Rightarrow> std_error \<Rightarrow> grpc_status option" where
  "handled t err = find_map (\<lambda>h. h err) (tr_handlers t)"

definition problem_status :: "translator \<Rightarrow> problem \<Rightarrow> grpc_status" where
  "problem_status t p =
     (let classified = (case pb_kind p of Some kind \<Rightarrow> classify_message t kind | None \<Rightarrow> None);
          (code0, reason0) = (case classified of Some x \<Rightarrow> x | None \<Rightarrow> (CodeUnknown, ''''));
          reason = (if pb_reason p \<noteq> '''' then pb_reason p else reason0);
          code = (if pb_reason p \<noteq> '''' \<and> classified = None
                  then (case tr_reasons t reason of Some d \<Rightarrow> dr_code d | None \<Rightarrow> code0) else code0);
          message = show_problem p;
          info = ErrorInfo reason (tr_domain t) (pb_metadata p);
          details =
            (if pb_field p \<noteq> '''' then [info, BadRequest [(pb_field p, message, reason)]]
             else if code = CodeFailedPrecondition \<and> pb_resource_name p \<noteq> ''''
             then [info, PreconditionFailure [(reason, pb_resource_name p, message)]]
             else if pb_resource_name p \<noteq> ''''
             then [info, ResourceInfo (pb_resource_type p) (pb_resource_name p) '''' (pb_fix p)]
             else [info])
      in with_error_details code (sentence message) details)"

definition node_problem :: "err_node \<Rightarrow> problem option" where
  "node_problem e = (case e of NodeProblem p \<Rightarrow> Some p | NodeStatus s \<Rightarrow> from_carrier s | NodeOther _ \<Rightarrow> None)"

definition node_status :: "err_node \<Rightarrow> grpc_status option" where
  "node_status e = (case e of NodeStatus s \<Rightarrow> Some s | _ \<Rightarrow> None)"

definition to_status :: "translator \<Rightarrow> std_error \<Rightarrow> grpc_status" where
  "to_status t err =
     (case find_map node_problem err of
        Some p \<Rightarrow> problem_status t p
      | None \<Rightarrow>
          (case handled t err of
             Some s \<Rightarrow> s
           | None \<Rightarrow>
               (case classify_error t err of
                  Some (code, reason) \<Rightarrow>
                    with_reason code (sentence (plain_message t (message_of_node (hd err)))) reason (tr_domain t)
                | None \<Rightarrow>
                    (case find_map node_status err of
                       Some s \<Rightarrow> s
                     | None \<Rightarrow> status_internal (message_of_node (hd err))))))"

definition translate :: "translator \<Rightarrow> grpc_status \<Rightarrow> grpc_status" where
  "translate t status =
     (case from_carrier status of
        Some p \<Rightarrow> problem_status t p
      | None \<Rightarrow>
          (case handled t [NodeStatus status] of
             Some s \<Rightarrow> s
           | None \<Rightarrow>
               if gs_code status \<noteq> CodeUnknown then status
               else case classify_message t (gs_message status) of
                 Some (code, reason) \<Rightarrow>
                   with_reason code (sentence (plain_message t (gs_message status))) reason (tr_domain t)
               | None \<Rightarrow> status_internal (gs_message status)))"

definition problem_intercept :: "translator \<Rightarrow> ('w, 'x, 'm, 'd) interceptor" where
  "problem_intercept t call k w =
     (case k call w of
        (Inr reply, w') \<Rightarrow> (Inr reply, w')
      | (Inl status, w') \<Rightarrow> (Inl (translate t status), w'))"

subsection \<open>Lemmas\<close>

lemma carrier_roundtrip:
  "from_carrier (problem_into_status p) = Some (p\<lparr>pb_kind := (if pb_kind p = Some '''' then None else pb_kind p)\<rparr>)"
proof -
  have "pb_metadata (problem_of_map (carrier_map p)) = pb_metadata p"
  proof
    fix k
    have "strip_prefix carrier_metadata (carrier_metadata @ k) = Some k" by (simp add: strip_prefix_Some)
    then show "pb_metadata (problem_of_map (carrier_map p)) k = pb_metadata p k"
      by (simp add: problem_of_map_def carrier_map_def Let_def) (simp add: carrier_metadata_def)
  qed
  then have "problem_of_map (carrier_map p) = p\<lparr>pb_kind := (if pb_kind p = Some '''' then None else pb_kind p)\<rparr>"
    by (cases p) (auto simp: problem_of_map_def carrier_map_def Let_def split: option.splits)
  then show ?thesis by (simp add: from_carrier_def problem_into_status_def with_error_details_def error_info_def)
qed

lemma classify_empty: "classify_message t '''' = None"
proof -
  have "\<not> wraps '''' s" for s by (auto simp: wraps_def)
  then show ?thesis by (simp add: classify_message_def find_None_iff)
qed

lemma problem_status_empty_kind:
  "problem_status t (p\<lparr>pb_kind := (if pb_kind p = Some '''' then None else pb_kind p)\<rparr>) = problem_status t p"
proof (cases "pb_kind p = Some ''''")
  case True
  then show ?thesis by (simp add: problem_status_def classify_empty show_problem_def Let_def)
qed simp

lemma error_info_problem_status: "\<exists>reason meta. error_info (problem_status t p) = Some (ErrorInfo reason (tr_domain t) meta)"
  by (auto simp: problem_status_def error_info_def with_error_details_def Let_def split: prod.splits)

lemma from_carrier_domain:
  "error_info s = Some (ErrorInfo reason domain meta) \<Longrightarrow> domain \<noteq> carrier_domain \<Longrightarrow> from_carrier s = None"
  by (simp add: from_carrier_def)

lemma find_map_Some: "find_map f xs = Some y \<Longrightarrow> \<exists>x\<in>set xs. f x = Some y"
  by (induction xs) (auto split: option.splits)

lemma plain_loop_result:
  "suffix (plain_loop sentinels msg) msg \<and> (\<forall>s\<in>set sentinels. \<not> prefix (s @ '': '') (plain_loop sentinels msg))"
proof (induction sentinels msg rule: plain_loop.induct)
  case (1 sentinels msg)
  obtain msg' again where p: "strip_pass sentinels (msg, False) = (msg', again)" by (metis surj_pair)
  note s = strip_pass_shorter [OF p]
  show ?case
  proof (cases again)
    case True
    then have "plain_loop sentinels msg = plain_loop sentinels msg'" using p by (simp add: plain_loop.simps)
    with 1 p True s show ?thesis by (metis suffix_order.trans)
  next
    case False
    then show ?thesis using p s by (simp add: plain_loop.simps)
  qed
qed

lemma plain_loop_fixed:
  assumes "\<forall>s\<in>set sentinels. \<not> prefix (s @ '': '') msg"
  shows "plain_loop sentinels msg = msg"
proof -
  have "\<not> prefix (s @ '': '') msg \<Longrightarrow> strip_pass (s # rest) (msg, False) = strip_pass rest (msg, False)" for s rest
    by (auto split: option.splits simp: strip_prefix_Some)
  with assms have "strip_pass sentinels (msg, False) = (msg, False)" by (induction sentinels) auto
  then show ?thesis by (simp add: plain_loop.simps)
qed

subsection \<open>Properties\<close>

text \<open>C24: one rendering. A problem that a handler returns, carried in a status and translated by the
  interceptor, becomes the very status that translating the problem itself gives, whatever else is on its
  source chain; nothing of it is lost on the way.\<close>

theorem problem_carried:
  "translate t (problem_into_status p) = to_status t (NodeProblem p # causes) \<and>
   (pb_kind p \<noteq> Some '''' \<longrightarrow> from_carrier (problem_into_status p) = Some p)"
  by (simp add: translate_def carrier_roundtrip to_status_def node_problem_def problem_status_empty_kind)

theorem problem_carried_witness:
  "from_carrier (problem_into_status (problem_add_metadata ''shelf'' ''s'' (problem_new ''sold out''))) =
     Some (problem_add_metadata ''shelf'' ''s'' (problem_new ''sold out''))"
  using problem_carried [of _ "problem_add_metadata ''shelf'' ''s'' (problem_new ''sold out'')"]
  by (simp add: problem_add_metadata_def problem_new_def)

text \<open>the carrier stays inside. What the interceptor lets out is never a carrier, whatever the handler
  ended with, as long as the translator's own domain and its handlers are not the carrier's.\<close>

theorem carrier_never_leaks:
  assumes "tr_domain t \<noteq> carrier_domain" "\<forall>h\<in>set (tr_handlers t). \<forall>e s. h e = Some s \<longrightarrow> from_carrier s = None"
    and "problem_intercept t call k w = (Inl status, w')"
  shows "from_carrier status = None"
proof -
  obtain s where status: "status = translate t s"
    using assms(3) by (auto simp: problem_intercept_def split: prod.splits sum.splits)
  have rendered: "from_carrier (problem_status t p) = None" for p
    using error_info_problem_status [of t p] from_carrier_domain assms(1) by blast
  have reasoned: "from_carrier (with_reason code m reason (tr_domain t)) = None" for code m reason
    using assms(1) by (simp add: with_reason_def with_error_details_def from_carrier_def error_info_def)
  have internal: "from_carrier (status_internal m) = None" for m
    by (simp add: status_internal_def status_new_def from_carrier_def error_info_def)
  have "from_carrier x = None" if "handled t e = Some x" for e x
    using that assms(2) unfolding handled_def by (metis find_map_Some)
  with rendered reasoned internal show ?thesis unfolding status translate_def by (auto split: option.splits)
qed

definition sample_translator :: translator where
  "sample_translator = translator_new ''shop''
     [\<lparr>kd_sentinel = ''sold out'', kd_code = CodeFailedPrecondition, kd_reason = ''SOLD_OUT''\<rparr>]"

definition sample_unary :: "(unit, unit) unary_call" where
  "sample_unary = \<lparr>uc_path = ''/shop.v1.Shop/Get'', uc_metadata = no_headers, uc_extensions = (), uc_payload = [],
     uc_compressed = False, uc_descriptor = None\<rparr>"

definition sold_out :: "('w, unit, unit, unit) next_call" where
  "sold_out call w = (Inl (problem_into_status (problem_new ''sold out'')), w)"

theorem carrier_never_leaks_witness:
  "\<exists>status. problem_intercept sample_translator sample_unary sold_out () = (Inl status, ()) \<and> from_carrier status = None"
proof -
  obtain status where s: "problem_intercept sample_translator sample_unary sold_out () = (Inl status, ())"
    by (simp add: problem_intercept_def sold_out_def)
  have "tr_domain sample_translator \<noteq> carrier_domain"
    "\<forall>h\<in>set (tr_handlers sample_translator). \<forall>e s. h e = Some s \<longrightarrow> from_carrier s = None"
    by (simp_all add: sample_translator_def translator_new_def carrier_domain_def)
  from carrier_never_leaks [OF this s] s show ?thesis by blast
qed

text \<open>plain messages. Stripping ends; what is left is the end of the message, no registered sentinel is in
  front of it any more, and stripping it again changes nothing.\<close>

theorem plain_message_stripped:
  "suffix (plain_message t message) message \<and>
   (\<forall>s. s \<in> set (tr_strip t) \<longrightarrow> \<not> prefix (s @ '': '') (plain_message t message)) \<and>
   plain_message t (plain_message t message) = plain_message t message"
  using plain_loop_result [of "tr_strip t" message] plain_loop_fixed [of "tr_strip t" "plain_loop (tr_strip t) message"]
  by (simp add: plain_message_def)

theorem plain_message_stripped_witness:
  "\<not> prefix ''sold out: '' (plain_message sample_translator ''sold out: sold out: shelf s'')"
  using plain_message_stripped [of sample_translator "''sold out: sold out: shelf s''"]
  by (auto simp: sample_translator_def translator_new_def)

lemma str_trim_ends: "str_trim s \<noteq> [] \<Longrightarrow> \<not> is_space (hd (str_trim s)) \<and> \<not> is_space (last (str_trim s))"
proof -
  let ?d = "dropWhile is_space s"
  assume "str_trim s \<noteq> []"
  then have ne: "dropWhile is_space (rev ?d) \<noteq> []" by (simp add: str_trim_def)
  then have last: "\<not> is_space (last (str_trim s))"
    using hd_dropWhile [OF ne] by (simp add: str_trim_def last_rev)
  obtain front where f: "rev ?d = front @ dropWhile is_space (rev ?d)" by (metis takeWhile_dropWhile_id)
  then have "?d = str_trim s @ rev front" unfolding str_trim_def by (metis rev_append rev_rev_ident)
  with \<open>str_trim s \<noteq> []\<close> have "hd (str_trim s) = hd ?d" "?d \<noteq> []" by (metis hd_append2, auto)
  with last show ?thesis using hd_dropWhile [of is_space s] by simp
qed

lemma upper_char_kind: "is_lower c \<Longrightarrow> \<not> is_lower (upper_char c) \<and> \<not> is_space (upper_char c)"
proof -
  assume c: "is_lower c"
  then have "(of_char (upper_char c) :: nat) = of_char c - 32"
    by (auto simp: upper_char_def is_lower_def of_char_of intro: mod_less)
  moreover have "(of_char CHR '' '' :: nat) = 32" by simp
  ultimately have "upper_char c \<noteq> CHR '' ''" using c by (auto simp: is_lower_def)
  with \<open>(of_char (upper_char c) :: nat) = of_char c - 32\<close> c show ?thesis
    by (auto simp: is_lower_def is_space_def)
qed

definition closes :: "string \<Rightarrow> bool" where
  "closes s \<longleftrightarrow> ends_with CHR ''.'' s \<or> ends_with CHR ''?'' s"

text \<open>What \<open>sentence\<close> leaves alone: text without surrounding space, closed, whose first word is not in
  lower case.\<close>

lemma sentence_fixed:
  assumes "s \<noteq> []" "\<not> is_space (hd s)" "closes s" "\<not> list_all is_lower (takeWhile ((\<noteq>) CHR '' '') s)"
  shows "sentence s = s"
proof -
  have "\<not> is_space (last s)" using assms(3) by (auto simp: closes_def ends_with_def is_space_def)
  then have "str_trim s = s" using assms(1,2) by (simp add: str_trim_fixed)
  with assms show ?thesis by (simp add: sentence_def closes_def Let_def)
qed

lemma sentence_first_word:
  assumes "str_trim message \<noteq> []"
  shows "sentence message \<noteq> [] \<and> \<not> is_space (hd (sentence message)) \<and> closes (sentence message) \<and>
    \<not> list_all is_lower (takeWhile ((\<noteq>) CHR '' '') (sentence message))"
proof -
  define msg where "msg = str_trim message"
  define out where "out = (if list_all is_lower (takeWhile ((\<noteq>) CHR '' '') msg) then upper_char (hd msg) # tl msg else msg)"
  have msg: "msg \<noteq> []" "\<not> is_space (hd msg)" using assms str_trim_ends unfolding msg_def by blast+
  obtain c cs where m: "msg = c # cs" using msg(1) by (cases msg) auto
  have c: "c \<noteq> CHR '' ''" using msg(2) m by (auto simp: is_space_def)
  have out: "out \<noteq> [] \<and> \<not> is_space (hd out) \<and> \<not> list_all is_lower (takeWhile ((\<noteq>) CHR '' '') out)"
  proof (cases "list_all is_lower (takeWhile ((\<noteq>) CHR '' '') msg)")
    case True
    then have "is_lower c" using m c by simp
    then have "\<not> is_lower (upper_char c)" "upper_char c \<noteq> CHR '' ''" "\<not> is_space (upper_char c)"
      using upper_char_kind by (auto simp: is_space_def)
    then show ?thesis using True m by (simp add: out_def)
  qed (use msg in \<open>simp add: out_def\<close>)
  have sent: "sentence message = (if closes out then out else out @ ''.'')"
    using msg(1) by (simp add: sentence_def msg_def [symmetric] out_def [symmetric] closes_def Let_def)
  have "\<not> list_all is_lower (takeWhile ((\<noteq>) CHR '' '') (out @ ''.''))"
    using out by (auto simp: list_all_iff takeWhile_append dest: set_takeWhileD)
  moreover have "closes (out @ ''.'')" by (simp add: closes_def ends_with_def)
  ultimately show ?thesis using out unfolding sent by auto
qed

text \<open>messages read as sentences. Rewriting a message twice is rewriting it once; only blank text becomes
  empty, and everything else ends in a full stop or a question mark.\<close>

theorem sentence_shape:
  "sentence (sentence message) = sentence message \<and>
   (sentence message = '''' \<longleftrightarrow> str_trim message = '''') \<and> (sentence message = '''' \<or> closes (sentence message))"
proof (cases "str_trim message = ''''")
  case True
  then have "sentence message = ''''" by (simp add: sentence_def)
  then show ?thesis using True by (simp add: sentence_def str_trim_def)
next
  case False
  then show ?thesis using sentence_first_word [OF False] sentence_fixed [of "sentence message"] by simp
qed

end
