(* ===== verification/Idempotency.thy ===== *)
theory Idempotency
  imports Grpc Keyspace
begin

text \<open>
  Request idempotency (\<open>src/grpc/src/idempotency/mod.rs\<close> and \<open>memory.rs\<close>): the interceptor that claims a key
  before the handler runs, settles it with the reply or releases it, and answers later callers from it.

  The first part models the interceptor as the code has it, over any key store; SHA-256 is a parameter. The
  locale \<open>key_store\<close> states what the trait promises, and the in-memory store interprets it. The second part
  lets many callers of one key interleave: each step of \<open>idem_step\<close> is one await of the interceptor, and a
  caller that runs undisturbed takes exactly the steps of the interceptor.
\<close>

subsection \<open>Keys and stores\<close>

datatype claim_state = ClaimInFlight | ClaimDone

record idem_key =
  ik_name :: string
  ik_method :: string
  ik_request_id :: string
  ik_state :: claim_state
  ik_response :: bytes
  ik_response_type :: string
  ik_create_time :: "int option"

datatype store_error = KeyNotFound | KeyBackend string

fun show_store_error :: "store_error \<Rightarrow> string" where
  "show_store_error KeyNotFound = ''idempotency: key not found''"
| "show_store_error (KeyBackend e) = e"

record 'w idem_store =
  st_create :: "idem_key \<Rightarrow> 'w \<Rightarrow> (store_error + unit) \<times> 'w"
  st_get :: "string \<Rightarrow> 'w \<Rightarrow> (store_error + idem_key) \<times> 'w"
  st_settle :: "idem_key \<Rightarrow> 'w \<Rightarrow> (store_error + unit) \<times> 'w"
  st_delete :: "string \<Rightarrow> 'w \<Rightarrow> (store_error + unit) \<times> 'w"

subsection \<open>The in-memory store\<close>

record idem_world =
  iw_keys :: "string \<rightharpoonup> idem_key"
  iw_now :: int

definition memory_store_new :: "int \<Rightarrow> idem_world" where
  "memory_store_new now = \<lparr>iw_keys = Map.empty, iw_now = now\<rparr>"

definition ms_create :: "idem_key \<Rightarrow> idem_world \<Rightarrow> (store_error + unit) \<times> idem_world" where
  "ms_create key w =
     (if iw_keys w (ik_name key) \<noteq> None then (Inl (KeyBackend ''duplicate key''), w)
      else (Inr (), w\<lparr>iw_keys := (iw_keys w)(ik_name key \<mapsto> key\<lparr>ik_create_time := Some (iw_now w)\<rparr>)\<rparr>))"

definition ms_get :: "string \<Rightarrow> idem_world \<Rightarrow> (store_error + idem_key) \<times> idem_world" where
  "ms_get name w = ((case iw_keys w name of Some k \<Rightarrow> Inr k | None \<Rightarrow> Inl KeyNotFound), w)"

definition ms_settle :: "idem_key \<Rightarrow> idem_world \<Rightarrow> (store_error + unit) \<times> idem_world" where
  "ms_settle key w =
     (case iw_keys w (ik_name key) of
        None \<Rightarrow> (Inl KeyNotFound, w)
      | Some current \<Rightarrow>
          (Inr (), w\<lparr>iw_keys := (iw_keys w)(ik_name key \<mapsto> current\<lparr>ik_state := ik_state key,
             ik_response := ik_response key, ik_response_type := ik_response_type key\<rparr>)\<rparr>))"

definition ms_delete :: "string \<Rightarrow> idem_world \<Rightarrow> (store_error + unit) \<times> idem_world" where
  "ms_delete name w = (Inr (), w\<lparr>iw_keys := (iw_keys w)(name := None)\<rparr>)"

definition memory_store :: "idem_world idem_store" where
  "memory_store = \<lparr>st_create = ms_create, st_get = ms_get, st_settle = ms_settle, st_delete = ms_delete\<rparr>"

subsection \<open>The interceptor\<close>

definition default_stale_after :: nat where
  "default_stale_after = 10 * 60 * 10 ^ 9"

record 'w idem_options =
  io_domain :: string
  io_stale_after :: nat
  io_create_error :: "(store_error \<Rightarrow> grpc_status) option"
  io_now :: "('w \<Rightarrow> int) option"

record 'w idempotency =
  id_store :: "'w idem_store"
  id_domain :: string
  id_stale_after :: nat
  id_create_error :: "store_error \<Rightarrow> grpc_status"
  id_now :: "'w \<Rightarrow> int"

definition idempotency_new :: "('w \<Rightarrow> int) \<Rightarrow> 'w idem_store \<Rightarrow> 'w idem_options \<Rightarrow> 'w idempotency" where
  "idempotency_new system_now store opts =
     \<lparr>id_store = store, id_domain = io_domain opts,
      id_stale_after = (if io_stale_after opts = 0 then default_stale_after else io_stale_after opts),
      id_create_error = (case io_create_error opts of Some f \<Rightarrow> f
        | None \<Rightarrow> (\<lambda>e. status_internal (''idempotency: claim key: '' @ show_store_error e))),
      id_now = (case io_now opts of Some f \<Rightarrow> f | None \<Rightarrow> system_now)\<rparr>"

definition hex_byte :: "8 word \<Rightarrow> string" where
  "hex_byte b = [hex_char (unat b div 16), hex_char (unat b mod 16)]"

definition as_bytes :: "string \<Rightarrow> bytes" where
  "as_bytes s = map (\<lambda>c. of_nat (of_char c)) s"

definition key_name :: "(bytes \<Rightarrow> bytes) \<Rightarrow> string \<Rightarrow> string \<Rightarrow> string" where
  "key_name sha256 method request_id =
     ''idempotencyKeys/'' @ concat (map hex_byte (sha256 (as_bytes method @ [0] @ as_bytes request_id)))"

definition idem_field :: "('m, 'd, 'v) reflection \<Rightarrow> 'd \<Rightarrow> string \<Rightarrow> field_kind \<Rightarrow> field_descriptor option" where
  "idem_field rf d name kind =
     (case rf_field rf d name of
        Some fd \<Rightarrow> if \<not> fd_is_list fd \<and> \<not> fd_is_map fd \<and> fd_kind fd = kind then Some fd else None
      | None \<Rightarrow> None)"

definition string_field :: "('m, 'd, 'v) reflection \<Rightarrow> 'v \<Rightarrow> string \<Rightarrow> string" where
  "string_field rf v name =
     (if idem_field rf (rf_descriptor rf v) name KindString = None then ''''
      else case rf_string rf v name of Some s \<Rightarrow> s | None \<Rightarrow> '''')"

definition bool_field :: "('m, 'd, 'v) reflection \<Rightarrow> 'v \<Rightarrow> string \<Rightarrow> bool" where
  "bool_field rf v name =
     (if idem_field rf (rf_descriptor rf v) name KindBool = None then False
      else case rf_bool rf v name of Some b \<Rightarrow> b | None \<Rightarrow> False)"

text \<open>The claim a call makes, or \<open>None\<close> for a call that is passed through: no descriptor, no
  \<open>request_id\<close> field, an unreadable request, an empty identifier, a dry run.\<close>

definition idem_claim ::
  "('m, 'd, 'v) reflection \<Rightarrow> (bytes \<Rightarrow> bytes) \<Rightarrow> ('x, 'm) unary_call \<Rightarrow> ('m \<times> idem_key) option" where
  "idem_claim rf sha256 call =
     (case uc_descriptor call of
        None \<Rightarrow> None
      | Some m \<Rightarrow>
          if idem_field rf (rf_input rf m) ''request_id'' KindString = None then None
          else case call_message rf call of
            Inl _ \<Rightarrow> None
          | Inr request \<Rightarrow>
              let request_id = string_field rf request ''request_id''
              in if request_id = '''' \<or> bool_field rf request ''validate_only'' then None
                 else Some (m, \<lparr>ik_name = key_name sha256 (uc_path call) request_id, ik_method = uc_path call,
                   ik_request_id = request_id, ik_state = ClaimInFlight, ik_response = [], ik_response_type = '''',
                   ik_create_time = None\<rparr>))"

definition idem_aborted :: "'w idempotency \<Rightarrow> string \<Rightarrow> string \<Rightarrow> grpc_status" where
  "idem_aborted c reason message =
     with_error_details CodeAborted (message @ ''.'') [ErrorInfo reason (id_domain c) Map.empty]"

definition abandoned_status :: "'w idempotency \<Rightarrow> grpc_status" where
  "abandoned_status c = idem_aborted c ''REQUEST_ABANDONED''
     (''An earlier request with this request_id stopped before it finished, and its '' @
      ''claim has now been cleared. Retry the same request with the same request_id: it will run once'')"

definition in_flight_status :: "'w idempotency \<Rightarrow> grpc_status" where
  "in_flight_status c = idem_aborted c ''REQUEST_IN_FLIGHT''
     (''A request with this request_id is still running. Wait a moment and retry with '' @
      ''the same request_id: once the first finishes, the retry returns its result without running it again'')"

definition claim_stale :: "'w idempotency \<Rightarrow> idem_key \<Rightarrow> int \<Rightarrow> bool" where
  "claim_stale c k now =
     (case ik_create_time k of
        None \<Rightarrow> False
      | Some created \<Rightarrow> created \<le> now \<and> int (id_stale_after c) < now - created)"

definition read_failed :: "store_error \<Rightarrow> grpc_status" where
  "read_failed e = status_internal (''idempotency: read key: '' @ show_store_error e)"

definition reclaim_failed :: "store_error \<Rightarrow> grpc_status" where
  "reclaim_failed e = status_internal (''idempotency: reclaim abandoned key: '' @ show_store_error e)"

definition idem_replay ::
  "'w idempotency \<Rightarrow> string \<Rightarrow> store_error \<Rightarrow> 'd option \<Rightarrow> 'w \<Rightarrow> (grpc_status + 'd unary_reply) \<times> 'w" where
  "idem_replay c name create_err out_type w =
     (case st_get (id_store c) name w of
        (Inl KeyNotFound, w1) \<Rightarrow> (Inl (id_create_error c create_err), w1)
      | (Inl e, w1) \<Rightarrow> (Inl (read_failed e), w1)
      | (Inr existing, w1) \<Rightarrow>
          if ik_state existing = ClaimDone then (Inr (unary_reply_new (ik_response existing) out_type), w1)
          else if claim_stale c existing (id_now c w1) then
            (case st_delete (id_store c) name w1 of
               (Inl e, w2) \<Rightarrow> (Inl (reclaim_failed e), w2)
             | (Inr _, w2) \<Rightarrow> (Inl (abandoned_status c), w2))
          else (Inl (in_flight_status c), w1))"

definition idem_settled :: "('m, 'd, 'v) reflection \<Rightarrow> idem_key \<Rightarrow> 'v \<Rightarrow> idem_key" where
  "idem_settled rf key v =
     key\<lparr>ik_state := ClaimDone, ik_response := rf_encode rf v,
         ik_response_type := rf_full_name rf (rf_descriptor rf v)\<rparr>"

definition idem_settle ::
  "('m, 'd, 'v) reflection \<Rightarrow> 'w idempotency \<Rightarrow> idem_key \<Rightarrow> 'd unary_reply \<Rightarrow> 'w \<Rightarrow> 'w" where
  "idem_settle rf c key reply w =
     (case reply_message rf reply of
        Inl _ \<Rightarrow> w
      | Inr v \<Rightarrow> snd (st_settle (id_store c) (idem_settled rf key v) w))"

definition idem_intercept ::
  "('m, 'd, 'v) reflection \<Rightarrow> (bytes \<Rightarrow> bytes) \<Rightarrow> 'w idempotency \<Rightarrow> ('w, 'x, 'm, 'd) interceptor" where
  "idem_intercept rf sha256 c call k w =
     (case idem_claim rf sha256 call of
        None \<Rightarrow> k call w
      | Some (m, key) \<Rightarrow>
          (case st_create (id_store c) key w of
             (Inl e, w1) \<Rightarrow> idem_replay c (ik_name key) e (Some (rf_output rf m)) w1
           | (Inr _, w1) \<Rightarrow>
               (case k call w1 of
                  (Inr reply, w2) \<Rightarrow> (Inr reply, idem_settle rf c key reply w2)
                | (Inl status, w2) \<Rightarrow> (Inl status, snd (st_delete (id_store c) (ik_name key) w2)))))"

subsection \<open>Many callers of one key\<close>

datatype 'd phase =
    Claiming | Handling | Settling "'d unary_reply" | Releasing grpc_status
  | Reading store_error | Judging idem_key | Clearing
  | Answered "grpc_status + 'd unary_reply" | Gone

text \<open>One await of the interceptor; \<open>outcome\<close> is what the handler returns.\<close>

fun idem_advance ::
  "('m, 'd, 'v) reflection \<Rightarrow> 'w idempotency \<Rightarrow> idem_key \<Rightarrow> 'd option \<Rightarrow> grpc_status + 'd unary_reply
     \<Rightarrow> 'd phase \<times> 'w \<Rightarrow> 'd phase \<times> 'w" where
  "idem_advance rf c key out_type outcome (Claiming, w) =
     (case st_create (id_store c) key w of (Inl e, w1) \<Rightarrow> (Reading e, w1) | (Inr _, w1) \<Rightarrow> (Handling, w1))"
| "idem_advance rf c key out_type outcome (Handling, w) =
     (case outcome of Inr reply \<Rightarrow> (Settling reply, w) | Inl status \<Rightarrow> (Releasing status, w))"
| "idem_advance rf c key out_type outcome (Settling reply, w) = (Answered (Inr reply), idem_settle rf c key reply w)"
| "idem_advance rf c key out_type outcome (Releasing status, w) =
     (Answered (Inl status), snd (st_delete (id_store c) (ik_name key) w))"
| "idem_advance rf c key out_type outcome (Reading create_err, w) =
     (case st_get (id_store c) (ik_name key) w of
        (Inl KeyNotFound, w1) \<Rightarrow> (Answered (Inl (id_create_error c create_err)), w1)
      | (Inl e, w1) \<Rightarrow> (Answered (Inl (read_failed e)), w1)
      | (Inr existing, w1) \<Rightarrow>
          (if ik_state existing = ClaimDone then Answered (Inr (unary_reply_new (ik_response existing) out_type))
           else Judging existing, w1))"
| "idem_advance rf c key out_type outcome (Judging existing, w) =
     (if claim_stale c existing (id_now c w) then Clearing else Answered (Inl (in_flight_status c)), w)"
| "idem_advance rf c key out_type outcome (Clearing, w) =
     (case st_delete (id_store c) (ik_name key) w of
        (Inl e, w1) \<Rightarrow> (Answered (Inl (reclaim_failed e)), w1)
      | (Inr _, w1) \<Rightarrow> (Answered (Inl (abandoned_status c)), w1))"
| "idem_advance rf c key out_type outcome (Answered r, w) = (Answered r, w)"
| "idem_advance rf c key out_type outcome (Gone, w) = (Gone, w)"

record 'd idem_sys =
  sy_world :: idem_world
  sy_phase :: "nat \<Rightarrow> 'd phase"

definition idem_start :: "int \<Rightarrow> 'd idem_sys" where
  "idem_start now = \<lparr>sy_world = memory_store_new now, sy_phase = (\<lambda>_. Claiming)\<rparr>"

text \<open>A caller advances, its process dies, or time passes.\<close>

inductive idem_step ::
  "('m, 'd, 'v) reflection \<Rightarrow> idem_world idempotency \<Rightarrow> idem_key \<Rightarrow> 'd option \<Rightarrow> 'd idem_sys \<Rightarrow> 'd idem_sys \<Rightarrow> bool"
  for rf c key out_type where
  advance: "idem_advance rf c key out_type outcome (sy_phase s i, sy_world s) = (p, w) \<Longrightarrow>
    idem_step rf c key out_type s (s\<lparr>sy_world := w, sy_phase := (sy_phase s)(i := p)\<rparr>)"
| crash: "idem_step rf c key out_type s (s\<lparr>sy_phase := (sy_phase s)(i := Gone)\<rparr>)"
| tick: "iw_now (sy_world s) \<le> t \<Longrightarrow>
    idem_step rf c key out_type s (s\<lparr>sy_world := (sy_world s)\<lparr>iw_now := t\<rparr>\<rparr>)"

text \<open>Steps during which no claim is judged abandoned.\<close>

definition calm_step ::
  "('m, 'd, 'v) reflection \<Rightarrow> idem_world idempotency \<Rightarrow> idem_key \<Rightarrow> 'd option \<Rightarrow> 'd idem_sys \<Rightarrow> 'd idem_sys \<Rightarrow> bool" where
  "calm_step rf c key out_type s s' \<longleftrightarrow> idem_step rf c key out_type s s' \<and> (\<forall>i. sy_phase s' i \<noteq> Clearing)"

subsection \<open>Contract of a key store\<close>

locale key_store =
  fixes store :: "'w idem_store" and keys :: "'w \<Rightarrow> string \<rightharpoonup> idem_key"
  assumes create_Ok: "st_create store k w = (Inr u, w') \<Longrightarrow> keys w (ik_name k) = None \<and>
      (\<exists>t. keys w' = (keys w)(ik_name k \<mapsto> k\<lparr>ik_create_time := Some t\<rparr>))"
    and create_Err: "st_create store k w = (Inl e, w') \<Longrightarrow> keys w' = keys w"
    and get_Ok: "st_get store n w = (Inr k, w') \<Longrightarrow> keys w n = Some k \<and> keys w' = keys w"
    and get_Err: "st_get store n w = (Inl e, w') \<Longrightarrow> keys w' = keys w \<and> (e = KeyNotFound \<longrightarrow> keys w n = None)"
    and settle_Ok: "st_settle store k w = (Inr u, w') \<Longrightarrow> (\<exists>current. keys w (ik_name k) = Some current \<and>
      keys w' = (keys w)(ik_name k \<mapsto> current\<lparr>ik_state := ik_state k, ik_response := ik_response k,
        ik_response_type := ik_response_type k\<rparr>))"
    and settle_Err: "st_settle store k w = (Inl e, w') \<Longrightarrow> keys w' = keys w"
    and delete_Ok: "st_delete store n w = (Inr u, w') \<Longrightarrow> keys w' = (keys w)(n := None)"
    and delete_Err: "st_delete store n w = (Inl e, w') \<Longrightarrow> keys w' = keys w"
begin

lemma recorded_replays:
  assumes "id_store c = store" "idem_claim rf sha256 call = Some (m, key)"
    and "keys w (ik_name key) = Some k" "ik_state k = ClaimDone"
  shows "\<exists>r w'. keys w' = keys w \<and> (\<forall>nxt. idem_intercept rf sha256 c call nxt w = (r, w')) \<and>
    (r = Inr (unary_reply_new (ik_response k) (Some (rf_output rf m))) \<or>
     (\<exists>e. r = Inl (read_failed e)))"
proof -
  obtain e w1 where cr: "st_create store key w = (Inl e, w1)"
    using create_Ok [of key w] assms(3) by (cases "st_create store key w", cases "fst (st_create store key w)") auto
  then have w1: "keys w1 = keys w" by (rule create_Err)
  obtain q w2 where g: "st_get store (ik_name key) w1 = (q, w2)" by (metis surj_pair)
  show ?thesis
  proof (cases q)
    case (Inr k')
    with get_Ok [of "ik_name key" w1 k' w2] g w1 assms(3) have "k' = k" "keys w2 = keys w" by auto
    then show ?thesis using assms cr g Inr by (auto simp: idem_intercept_def idem_replay_def)
  next
    case (Inl e')
    with get_Err [of "ik_name key" w1 e' w2] g w1 assms(3) have "keys w2 = keys w" "e' \<noteq> KeyNotFound" by auto
    then show ?thesis using assms cr g Inl
      by (cases e') (auto simp: idem_intercept_def idem_replay_def)
  qed
qed

lemma first_call:
  assumes "id_store c = store" "idem_claim rf sha256 call = Some (m, key)"
    and "st_create store key w = (Inr u, w1)" "nxt call w1 = (out, w2)" "keys w2 = keys w1"
  shows "\<exists>w3. idem_intercept rf sha256 c call nxt w = (out, w3) \<and>
    (keys w3 = keys w1 \<or> (\<exists>status. out = Inl status) \<and> keys w3 = (keys w1)(ik_name key := None) \<or>
     (\<exists>reply v k. out = Inr reply \<and> reply_message rf reply = Inr v \<and> keys w3 = (keys w1)(ik_name key \<mapsto> k) \<and>
        ik_state k = ClaimDone \<and> ik_response k = rf_encode rf v))"
proof (cases out)
  case (Inl status)
  obtain q w3 where d: "st_delete store (ik_name key) w2 = (q, w3)" by (metis surj_pair)
  then have "keys w3 = keys w2 \<or> keys w3 = (keys w2)(ik_name key := None)"
    using delete_Ok delete_Err by (cases q) blast+
  then show ?thesis using assms Inl d by (auto simp: idem_intercept_def)
next
  case (Inr reply)
  show ?thesis
  proof (cases "reply_message rf reply")
    case (Inl _)
    then show ?thesis using assms Inr by (auto simp: idem_intercept_def idem_settle_def)
  next
    case v: (Inr v)
    obtain q w3 where s: "st_settle store (idem_settled rf key v) w2 = (q, w3)" by (metis surj_pair)
    have "keys w3 = keys w2 \<or> (\<exists>k. keys w3 = (keys w2)(ik_name key \<mapsto> k) \<and> ik_state k = ClaimDone \<and> ik_response k = rf_encode rf v)"
    proof (cases q)
      case (Inr u)
      with settle_Ok [of "idem_settled rf key v" w2 u w3] s show ?thesis by (auto simp: idem_settled_def)
    qed (use s settle_Err in blast)
    then show ?thesis using assms Inr v s by (auto simp: idem_intercept_def idem_settle_def)
  qed
qed

end

lemmas ms_defs = ms_create_def ms_get_def ms_settle_def ms_delete_def memory_store_def

interpretation ms: key_store memory_store iw_keys
  by unfold_locales (auto simp: ms_defs split: option.splits if_splits)

subsection \<open>Invariants of calm runs\<close>

text \<open>Undisturbed, a caller takes exactly the interceptor's steps.\<close>

lemma advance_is_intercept:
  assumes "idem_claim rf sha256 call = Some (m, key)"
  shows "case idem_intercept rf sha256 c call (\<lambda>_ w. (outcome, w)) w of (r, w') \<Rightarrow>
    (idem_advance rf c key (Some (rf_output rf m)) outcome ^^ 4) (Claiming, w) = (Answered r, w')"
  using assms
  by (auto simp: idem_intercept_def idem_replay_def numeral_eq_Suc split: prod.splits sum.splits store_error.splits)

fun holds_claim :: "'d phase \<Rightarrow> bool" where
  "holds_claim Handling = True"
| "holds_claim (Settling _) = True"
| "holds_claim (Releasing _) = True"
| "holds_claim _ = False"

definition claim_inv :: "string \<Rightarrow> 'd idem_sys \<Rightarrow> bool" where
  "claim_inv name s \<longleftrightarrow> (\<forall>i. sy_phase s i \<noteq> Clearing) \<and>
     (\<forall>i. holds_claim (sy_phase s i) \<longrightarrow>
        (\<exists>k. iw_keys (sy_world s) name = Some k \<and> ik_state k = ClaimInFlight) \<and>
        (\<forall>j. holds_claim (sy_phase s j) \<longrightarrow> j = i))"

lemma claim_inv_start: "claim_inv name (idem_start now)"
  by (simp add: claim_inv_def idem_start_def)

text \<open>What one advance of a caller does to the key: a claim needs its absence, and only a holder
  changes it.\<close>

lemma advance_key:
  assumes "id_store c = memory_store" "ik_state key = ClaimInFlight"
    and "idem_advance rf c key out_type outcome (p, w) = (p', w')" "p \<noteq> Clearing"
  shows "(\<not> holds_claim p \<and> holds_claim p' \<longrightarrow> iw_keys w (ik_name key) = None \<and>
       (\<exists>k. iw_keys w' (ik_name key) = Some k \<and> ik_state k = ClaimInFlight)) \<and>
    (\<not> holds_claim p \<and> \<not> holds_claim p' \<longrightarrow> w' = w) \<and> (holds_claim p \<and> holds_claim p' \<longrightarrow> w' = w)"
  using assms by (cases p) (auto simp: ms_defs idem_settle_def split: if_splits option.splits sum.splits store_error.splits)

lemma claim_inv_step:
  assumes "id_store c = memory_store" "ik_state key = ClaimInFlight"
    and "calm_step rf c key out_type s s'" "claim_inv (ik_name key) s"
  shows "claim_inv (ik_name key) s'"
proof -
  from assms(3) have step: "idem_step rf c key out_type s s'" and calm: "\<forall>i. sy_phase s' i \<noteq> Clearing"
    by (simp_all add: calm_step_def)
  from step show ?thesis
  proof cases
    case (advance outcome i p w)
    from assms(4) have "sy_phase s i \<noteq> Clearing" by (simp add: claim_inv_def)
    note key = advance_key [OF assms(1,2) advance(2) this]
    show ?thesis
    proof (cases "holds_claim (sy_phase s i)")
      case True
      then have "\<forall>j. holds_claim (sy_phase s j) \<longrightarrow> j = i"
        "\<exists>k. iw_keys (sy_world s) (ik_name key) = Some k \<and> ik_state k = ClaimInFlight"
        using assms(4) by (simp_all add: claim_inv_def)
      moreover have "holds_claim p \<Longrightarrow> w = sy_world s" using key True by blast
      ultimately show ?thesis using calm unfolding advance(1) claim_inv_def by (cases "holds_claim p") (simp, blast)+
    next
      case False
      show ?thesis
      proof (cases "holds_claim p")
        case True
        with key False have "\<forall>j. \<not> holds_claim (sy_phase s j)" using assms(4) by (force simp: claim_inv_def)
        moreover have "\<exists>k. iw_keys w (ik_name key) = Some k \<and> ik_state k = ClaimInFlight" using key False True by blast
        ultimately show ?thesis using calm True unfolding advance(1) claim_inv_def by simp
      next
        case p: False
        with key False have "w = sy_world s" by blast
        with p False assms(4) calm show ?thesis unfolding advance(1) claim_inv_def by simp
      qed
    qed
  next
    case (crash i)
    with assms(4) show ?thesis by (auto simp: claim_inv_def)
  next
    case (tick t)
    with assms(4) show ?thesis by (auto simp: claim_inv_def)
  qed
qed

lemma claim_inv_reachable:
  assumes "(calm_step rf c key out_type)\<^sup>*\<^sup>* (idem_start now) s" "id_store c = memory_store" "ik_state key = ClaimInFlight"
  shows "claim_inv (ik_name key) s"
  using assms(1) by (induction rule: rtranclp_induct) (auto intro: claim_inv_start claim_inv_step [OF assms(2,3)])

text \<open>Once a reply is recorded, a caller that has not claimed yet can only lose the claim and replay.\<close>

definition replaying :: "idem_key \<Rightarrow> 'd option \<Rightarrow> 'd phase \<Rightarrow> bool" where
  "replaying k out_type p \<longleftrightarrow> p = Claiming \<or> (\<exists>e. p = Reading e) \<or> p = Gone \<or>
     p = Answered (Inr (unary_reply_new (ik_response k) out_type))"

lemma recorded_step:
  assumes "id_store c = memory_store" "ik_state key = ClaimInFlight"
    and "calm_step rf c key out_type s s'" "claim_inv (ik_name key) s"
    and "iw_keys (sy_world s) (ik_name key) = Some k" "ik_state k = ClaimDone"
  shows "iw_keys (sy_world s') (ik_name key) = Some k \<and>
    (replaying k out_type (sy_phase s i) \<longrightarrow> replaying k out_type (sy_phase s' i))"
proof -
  from assms(3) have step: "idem_step rf c key out_type s s'" by (simp add: calm_step_def)
  have free: "\<not> holds_claim (sy_phase s j)" "sy_phase s j \<noteq> Clearing" for j
    using assms(4-6) by (auto simp: claim_inv_def)
  from step show ?thesis
  proof cases
    case (advance outcome j p w)
    from advance_key [OF assms(1,2) advance(2) free(2)] free(1) [of j] assms(5) have "w = sy_world s" by auto
    moreover have "replaying k out_type (sy_phase s j) \<longrightarrow> replaying k out_type p"
      using advance(2) assms(1,5,6)
      by (auto simp: replaying_def ms_defs split: if_splits option.splits sum.splits)
    ultimately show ?thesis using assms(5) by (simp add: advance(1))
  qed (use assms(5) in \<open>auto simp: replaying_def\<close>)
qed

lemma recorded_reachable:
  assumes "(calm_step rf c key out_type)\<^sup>*\<^sup>* s s'" "id_store c = memory_store" "ik_state key = ClaimInFlight"
    and "claim_inv (ik_name key) s" "iw_keys (sy_world s) (ik_name key) = Some k" "ik_state k = ClaimDone"
  shows "claim_inv (ik_name key) s' \<and> iw_keys (sy_world s') (ik_name key) = Some k \<and>
    (replaying k out_type (sy_phase s i) \<longrightarrow> replaying k out_type (sy_phase s' i))"
  using assms(1)
proof (induction rule: rtranclp_induct)
  case base
  with assms show ?case by simp
next
  case (step y z)
  then show ?case
    using recorded_step [OF assms(2,3) step.hyps(2), of k i] claim_inv_step [OF assms(2,3) step.hyps(2)] assms(6) by blast
qed

lemma hex_char_inject: "a < 16 \<Longrightarrow> b < 16 \<Longrightarrow> hex_char a = hex_char b \<Longrightarrow> a = b"
  by (metis hex_val_char)

lemma hex_byte_inject: "hex_byte a = hex_byte b \<longleftrightarrow> a = b"
proof
  assume h: "hex_byte a = hex_byte b"
  have "unat a < 256" "unat b < 256" using unsigned_less [of a] unsigned_less [of b] by simp_all
  then have "unat a div 16 < 16" "unat b div 16 < 16" by simp_all
  with h have "unat a div 16 = unat b div 16" "unat a mod 16 = unat b mod 16"
    by (auto simp: hex_byte_def intro: hex_char_inject)
  then have "unat a = unat b" by (metis div_mult_mod_eq)
  then show "a = b" by (simp add: unsigned_word_eqI)
qed simp

lemma hex_bytes_inject: "concat (map hex_byte xs) = concat (map hex_byte ys) \<Longrightarrow> xs = ys"
proof (induction xs arbitrary: ys)
  case Nil
  then show ?case by (cases ys) (auto simp: hex_byte_def)
next
  case (Cons x xs)
  then obtain y ys' where ys: "ys = y # ys'" by (cases ys) (auto simp: hex_byte_def)
  have "length (hex_byte x) = length (hex_byte y)" by (simp add: hex_byte_def)
  with Cons ys show ?case by (simp add: hex_byte_inject)
qed

lemma length_hex_bytes: "length (concat (map hex_byte xs)) = 2 * length xs"
  by (induction xs) (simp_all add: hex_byte_def)

lemma as_bytes_inject: "as_bytes a = as_bytes b \<longleftrightarrow> a = b"
proof
  have "inj (\<lambda>c. of_nat (of_char c) :: 8 word)"
  proof (rule injI)
    fix c d :: char
    assume "(of_nat (of_char c) :: 8 word) = of_nat (of_char d)"
    then have "unat (of_nat (of_char c) :: 8 word) = unat (of_nat (of_char d) :: 8 word)" by simp
    then show "c = d" by (simp add: unat_of_nat)
  qed
  then show "as_bytes a = as_bytes b \<Longrightarrow> a = b" by (simp add: as_bytes_def inj_map_eq_map)
qed simp

subsection \<open>Properties\<close>

text \<open>C19: retries. Over the in-memory store, a call whose handler succeeded is answered for every later call
  with the same key by the recorded response, whatever the later handler would do, and without running
  it; after a handler that failed, the next call with the key runs its own handler.\<close>

theorem idempotent_retry:
  assumes "id_store c = memory_store" "\<forall>call w. iw_keys (snd (nxt call w)) = iw_keys w"
    and "idem_claim rf sha256 call = Some (m, key)" "idem_claim rf sha256 call' = Some (m', key')"
    and "ik_name key' = ik_name key" "iw_keys w (ik_name key) = None"
    and "idem_intercept rf sha256 c call nxt w = (out, w1)" "iw_keys w2 = iw_keys w1"
  shows "out = fst (nxt call (snd (ms_create key w))) \<and>
    (\<forall>reply v. out = Inr reply \<and> reply_message rf reply = Inr v \<longrightarrow>
       idem_intercept rf sha256 c call' nxt' w2 =
         (Inr (unary_reply_new (rf_encode rf v) (Some (rf_output rf m'))), w2)) \<and>
    (\<forall>status. out = Inl status \<longrightarrow>
       fst (idem_intercept rf sha256 c call' nxt' w2) = fst (nxt' call' (snd (ms_create key' w2))))"
proof -
  obtain w0 where w0: "ms_create key w = (Inr (), w0)" "\<exists>k. iw_keys w0 (ik_name key) = Some k"
    using assms(6) by (simp add: ms_create_def)
  obtain w0' where h: "nxt call w0 = (out, w0')"
    using assms(1,3,7) w0(1) by (auto simp: idem_intercept_def memory_store_def split: prod.splits sum.splits)
  then have keys: "\<exists>k. iw_keys w0' (ik_name key) = Some k" using assms(2) w0(2) by (metis snd_conv)
  have w1: "w1 = (case out of Inr reply \<Rightarrow> idem_settle rf c key reply w0' | Inl _ \<Rightarrow> snd (ms_delete (ik_name key) w0'))"
    using assms(1,3,7) w0(1) h by (auto simp: idem_intercept_def memory_store_def split: sum.splits)
  show ?thesis
  proof (intro conjI allI impI)
    show "out = fst (nxt call (snd (ms_create key w)))" using w0(1) h by simp
  next
    fix reply v
    assume r: "out = Inr reply \<and> reply_message rf reply = Inr v"
    then obtain k where "iw_keys w1 (ik_name key) = Some k" "ik_state k = ClaimDone" "ik_response k = rf_encode rf v"
      using w1 keys assms(1) by (auto simp: idem_settle_def ms_defs idem_settled_def)
    then show "idem_intercept rf sha256 c call' nxt' w2 =
        (Inr (unary_reply_new (rf_encode rf v) (Some (rf_output rf m'))), w2)"
      using assms(1,4,5,8) by (simp add: idem_intercept_def idem_replay_def ms_defs)
  next
    fix status
    assume "out = Inl status"
    then have "iw_keys w2 (ik_name key') = None" using w1 assms(5,8) by (simp add: ms_delete_def)
    then show "fst (idem_intercept rf sha256 c call' nxt' w2) = fst (nxt' call' (snd (ms_create key' w2)))"
      using assms(1,4) by (auto simp: idem_intercept_def ms_defs split: prod.splits sum.splits)
  qed
qed

definition sample_idempotency :: "idem_world idempotency" where
  "sample_idempotency = idempotency_new iw_now memory_store
     \<lparr>io_domain = ''shop'', io_stale_after = 5, io_create_error = None, io_now = None\<rparr>"

lemma sample_idempotency_store: "id_store sample_idempotency = memory_store"
  by (simp add: sample_idempotency_def idempotency_new_def)

definition sample_call :: "(unit, unit) unary_call" where
  "sample_call = \<lparr>uc_path = ''/shop.v1.Shop/Get'', uc_metadata = no_headers, uc_extensions = (), uc_payload = [49],
     uc_compressed = False, uc_descriptor = Some ()\<rparr>"

definition sample_key :: idem_key where
  "sample_key = \<lparr>ik_name = key_name id ''/shop.v1.Shop/Get'' ''1'', ik_method = ''/shop.v1.Shop/Get'', ik_request_id = ''1'',
     ik_state = ClaimInFlight, ik_response = [], ik_response_type = '''', ik_create_time = None\<rparr>"

lemma char_49: "char_of (49::nat) = CHR ''1''"
  by code_simp

lemma sample_claim: "idem_claim sample_reflection id sample_call = Some ((), sample_key)"
  by (simp add: idem_claim_def sample_call_def sample_reflection_def sample_key_def idem_field_def string_field_def
      bool_field_def call_message_def decode_dynamic_def char_49 Let_def)

theorem idempotent_retry_witness:
  "\<exists>w1. idem_intercept sample_reflection id sample_idempotency sample_call
       (\<lambda>_ w. (Inr (unary_reply_new [9] (Some ())), w)) (memory_store_new 0) = (Inr (unary_reply_new [9] (Some ())), w1) \<and>
     idem_intercept sample_reflection id sample_idempotency sample_call (\<lambda>_ w. (Inl (status_internal ''boom''), w)) w1 =
       (Inr (unary_reply_new [9] (Some ())), w1)"
proof -
  let ?ok = "\<lambda>(_ :: (unit, unit) unary_call) (w :: idem_world). (Inr (unary_reply_new [9] (Some ())) :: grpc_status + unit unary_reply, w)"
  obtain out w1 where run: "idem_intercept sample_reflection id sample_idempotency sample_call ?ok (memory_store_new 0) = (out, w1)"
    by (metis surj_pair)
  have "\<forall>call w. iw_keys (snd (?ok call w)) = iw_keys w" "iw_keys (memory_store_new 0) (ik_name sample_key) = None"
    by (simp_all add: memory_store_new_def)
  note retry = idempotent_retry [OF sample_idempotency_store this(1) sample_claim sample_claim refl this(2) run refl,
      of "\<lambda>_ w. (Inl (status_internal ''boom''), w)"]
  have "reply_message sample_reflection (unary_reply_new [9] (Some ())) = Inr [9]"
    by (simp add: reply_message_def unary_reply_new_def decode_dynamic_def sample_reflection_def)
  moreover have "rf_encode sample_reflection [9] = [9]" by (simp add: sample_reflection_def)
  ultimately show ?thesis using retry run by auto
qed

text \<open>C18: single execution. However the callers of one key interleave, crash or wait, as long as no claim is
  judged abandoned, at most one of them is in its handler; and once a reply is recorded it stays, no
  handler for the key runs again, and whoever comes later can only be given that reply.\<close>

theorem idempotent_single_run:
  assumes "(calm_step rf c key out_type)\<^sup>*\<^sup>* (idem_start now) s"
    and "id_store c = memory_store" "ik_state key = ClaimInFlight"
  shows "(\<forall>i j. sy_phase s i = Handling \<and> sy_phase s j = Handling \<longrightarrow> i = j) \<and>
    (\<forall>k s' i. iw_keys (sy_world s) (ik_name key) = Some k \<and> ik_state k = ClaimDone \<and>
        (calm_step rf c key out_type)\<^sup>*\<^sup>* s s' \<longrightarrow>
      iw_keys (sy_world s') (ik_name key) = Some k \<and> sy_phase s' i \<noteq> Handling \<and>
      (sy_phase s i = Claiming \<longrightarrow> replaying k out_type (sy_phase s' i)))"
proof (intro conjI allI impI)
  note inv = claim_inv_reachable [OF assms]
  show "i = j" if "sy_phase s i = Handling \<and> sy_phase s j = Handling" for i j
    using inv that unfolding claim_inv_def by (metis holds_claim.simps(1))
  fix k s' i
  assume a: "iw_keys (sy_world s) (ik_name key) = Some k \<and> ik_state k = ClaimDone \<and> (calm_step rf c key out_type)\<^sup>*\<^sup>* s s'"
  then have r: "claim_inv (ik_name key) s'" "iw_keys (sy_world s') (ik_name key) = Some k"
    "replaying k out_type (sy_phase s i) \<longrightarrow> replaying k out_type (sy_phase s' i)"
    using recorded_reachable [OF _ assms(2,3) inv, of rf out_type s' k i] by blast+
  then show "iw_keys (sy_world s') (ik_name key) = Some k" "sy_phase s i = Claiming \<Longrightarrow> replaying k out_type (sy_phase s' i)"
    by (simp_all add: replaying_def)
  show "sy_phase s' i \<noteq> Handling"
  proof
    assume "sy_phase s' i = Handling"
    then have "holds_claim (sy_phase s' i)" by simp
    with r(1,2) a show False unfolding claim_inv_def by fastforce
  qed
qed

text \<open>A schedule: who moves (with the outcome of its handler), dies, or how far the clock goes.\<close>

datatype 'd idem_act = Move nat "grpc_status + 'd unary_reply" | Die nat | Wait int

fun run_act ::
  "('m, 'd, 'v) reflection \<Rightarrow> idem_world idempotency \<Rightarrow> idem_key \<Rightarrow> 'd option \<Rightarrow> 'd idem_act \<Rightarrow> 'd idem_sys \<Rightarrow> 'd idem_sys" where
  "run_act rf c key out_type (Move i outcome) s =
     (case idem_advance rf c key out_type outcome (sy_phase s i, sy_world s) of
        (p, w) \<Rightarrow> s\<lparr>sy_world := w, sy_phase := (sy_phase s)(i := p)\<rparr>)"
| "run_act rf c key out_type (Die i) s = s\<lparr>sy_phase := (sy_phase s)(i := Gone)\<rparr>"
| "run_act rf c key out_type (Wait t) s =
     (if iw_now (sy_world s) \<le> t then s\<lparr>sy_world := (sy_world s)\<lparr>iw_now := t\<rparr>\<rparr> else s)"

lemma schedule_reach:
  "(idem_step rf c key out_type)\<^sup>*\<^sup>* s (fold (run_act rf c key out_type) acts s)"
proof (induction acts arbitrary: s)
  case (Cons a acts)
  have "(idem_step rf c key out_type)\<^sup>*\<^sup>* s (run_act rf c key out_type a s)"
    by (cases a) (auto intro!: r_into_rtranclp idem_step.intros split: prod.split)
  with Cons show ?case by (metis fold_simps(2) rtranclp_trans)
qed simp

lemma act_step: "idem_step rf c key out_type s (run_act rf c key out_type (Move i outcome) s)"
  by (auto intro: idem_step.advance split: prod.split)

theorem idempotent_single_run_witness:
  "let s = run_act sample_reflection sample_idempotency sample_key (Some ()) (Move 0 (Inl (status_internal ''''))) (idem_start 0)
   in {j. sy_phase s j = Handling} = {0}"
proof -
  let ?s = "run_act sample_reflection sample_idempotency sample_key (Some ()) (Move 0 (Inl (status_internal ''''))) (idem_start 0)"
  have p: "sy_phase ?s 0 = Handling" "\<forall>i. sy_phase ?s i \<noteq> Clearing"
    by (auto simp: idem_start_def sample_idempotency_store ms_defs memory_store_new_def split: if_splits)
  then have "(calm_step sample_reflection sample_idempotency sample_key (Some ()))\<^sup>*\<^sup>* (idem_start 0) ?s"
    using act_step by (intro r_into_rtranclp) (auto simp: calm_step_def)
  moreover have "ik_state sample_key = ClaimInFlight" by (simp add: sample_key_def)
  ultimately show ?thesis
    using idempotent_single_run [OF _ sample_idempotency_store, of sample_reflection sample_key "Some ()" 0 ?s] p(1)
    unfolding Let_def by blast
qed

text \<open>C39: the reclaim race. Clearing an abandoned claim does not check that the claim is still the one that was
  judged: two callers that judge the same dead claim clear it one after the other, the second one after a
  third caller has claimed afresh, and then two handlers run for one request at the same moment, the first
  of them just started.\<close>

theorem idempotency_reclaim_race:
  "\<exists>s. (idem_step sample_reflection sample_idempotency sample_key (Some ()))\<^sup>*\<^sup>* (idem_start 0) s \<and>
     sy_phase s 3 = Handling \<and> sy_phase s 4 = Handling"
proof -
  let ?x = "Inl (status_internal '''') :: grpc_status + unit unary_reply"
  let ?s = "fold (run_act sample_reflection sample_idempotency sample_key (Some ()))
    [Move 0 ?x, Die 0, Wait 6,
     Move 1 ?x, Move 1 ?x, Move 1 ?x, Move 2 ?x, Move 2 ?x, Move 2 ?x,
     Move 1 ?x, Move 3 ?x, Move 2 ?x, Move 4 ?x] (idem_start 0)"
  have "sy_phase ?s 3 = Handling \<and> sy_phase ?s 4 = Handling"
    by (simp add: idem_start_def ms_defs memory_store_new_def sample_idempotency_def idempotency_new_def claim_stale_def
        sample_key_def)
  with schedule_reach show ?thesis by blast
qed

text \<open>key names. A key name is a fixed 80 characters, and as long as the digest tells the two inputs apart,
  two calls share a name exactly when they share method and request identifier; the separator keeps the
  two parts from running into each other.\<close>

theorem key_name_identifies:
  assumes "\<forall>b. length (sha256 b) = 32" "CHR 0x00 \<notin> set m" "CHR 0x00 \<notin> set m'"
    and "sha256 (as_bytes (m @ CHR 0x00 # i)) = sha256 (as_bytes (m' @ CHR 0x00 # i')) \<longrightarrow>
      as_bytes (m @ CHR 0x00 # i) = as_bytes (m' @ CHR 0x00 # i')"
  shows "length (key_name sha256 m i) = 80 \<and> (key_name sha256 m i = key_name sha256 m' i' \<longleftrightarrow> m = m' \<and> i = i')"
proof -
  have b: "as_bytes a @ [0] @ as_bytes c = as_bytes (a @ CHR 0x00 # c)" for a c by (simp add: as_bytes_def)
  have "length (key_name sha256 m i) = 80"
    using assms(1) by (simp add: key_name_def length_hex_bytes)
  moreover have "m = m' \<and> i = i'" if "key_name sha256 m i = key_name sha256 m' i'"
  proof -
    have "sha256 (as_bytes (m @ CHR 0x00 # i)) = sha256 (as_bytes (m' @ CHR 0x00 # i'))"
      using that unfolding key_name_def b by (simp add: hex_bytes_inject)
    with assms(4) have "m @ CHR 0x00 # i = m' @ CHR 0x00 # i'" by (simp only: as_bytes_inject simp_thms)
    then show ?thesis using separated_eq [OF assms(2,3)] by blast
  qed
  ultimately show ?thesis by blast
qed

theorem key_name_identifies_witness:
  "let sha256 = (\<lambda>b. take 32 (b @ replicate 32 0))
   in length (key_name sha256 ''/m/A'' ''r'') = 80 \<and> key_name sha256 ''/m/A'' ''r'' \<noteq> key_name sha256 ''/m/Ar'' ''''"
proof -
  let ?sha = "\<lambda>b :: bytes. take 32 (b @ replicate 32 0)"
  have len: "\<forall>b. length (?sha b) = 32" by (auto simp: min_def)
  have ne: "?sha (as_bytes (''/m/A'' @ CHR 0x00 # ''r'')) \<noteq> ?sha (as_bytes (''/m/Ar'' @ CHR 0x00 # []))"
    by (simp add: as_bytes_def)
  have nul: "CHR 0x00 \<notin> set ''/m/A''" "CHR 0x00 \<notin> set ''/m/Ar''" by code_simp+
  have "''/m/A'' \<noteq> ''/m/Ar''" by code_simp
  with key_name_identifies [OF len nul, of "''r''" "''''"] ne show ?thesis unfolding Let_def by blast
qed

end
