(* ===== verification/Cors.thy ===== *)
theory Cors
  imports Grpc
begin

text \<open>
  Cross-origin resource sharing for the HTTP listeners (\<open>src/grpc/src/cors.rs\<close>): the policy, its validation,
  the precomputed header values, and the layer around the service.

  Header values are byte strings; header names are written in lower case, as the header type stores them.
  The URI parser and the \<open>Debug\<close> rendering of a string in an error message are parameters, as is the default
  body of a response.
\<close>

subsection \<open>Policies\<close>

record cors_policy =
  cp_allowed_origins :: "string list"
  cp_allowed_methods :: "string list"
  cp_allowed_headers :: "string list"
  cp_exposed_headers :: "string list"
  cp_allow_credentials :: bool
  cp_max_age :: nat

definition default_cors_allowed_methods :: "string list" where
  "default_cors_allowed_methods = [''GET'', ''POST'', ''PATCH'', ''PUT'', ''DELETE'', ''OPTIONS'']"

definition default_cors_allowed_headers :: "string list" where
  "default_cors_allowed_headers =
     [''Content-Type'', ''Authorization'', ''X-Goog-Api-Client'', ''X-Goog-Request-Params'', ''X-Goog-User-Project'',
      ''X-Api-Key'']"

record uri_parts =
  up_scheme :: "string option"
  up_host :: "string option"
  up_path_and_query :: "string option"

text \<open>\<open>HeaderValue::from_str\<close> and \<open>HeaderValue::to_str\<close>.\<close>

definition header_byte :: "char \<Rightarrow> bool" where
  "header_byte c \<longleftrightarrow> (32 \<le> (of_char c :: nat) \<and> (of_char c :: nat) \<noteq> 127) \<or> (of_char c :: nat) = 9"

definition valid_header :: "string \<Rightarrow> bool" where
  "valid_header s \<longleftrightarrow> list_all header_byte s"

definition visible_header :: "string \<Rightarrow> bool" where
  "visible_header s \<longleftrightarrow> list_all (\<lambda>c. (32 \<le> (of_char c :: nat) \<and> (of_char c :: nat) < 127) \<or> (of_char c :: nat) = 9) s"

definition validate_origin :: "(string \<Rightarrow> string) \<Rightarrow> (string \<Rightarrow> uri_parts option) \<Rightarrow> string \<Rightarrow> string + unit" where
  "validate_origin dbg parse origin =
     (let want = Inl (''origin '' @ dbg origin @ '': want scheme://host[:port], such as https://app.example.com'');
          trimmed = drop_suffix_char CHR ''/'' origin
      in if CHR ''#'' \<in> set trimmed \<or> CHR ''@'' \<in> set trimmed then want
         else case parse trimmed of
           None \<Rightarrow> want
         | Some uri \<Rightarrow>
             let bare = (case up_path_and_query uri of None \<Rightarrow> True | Some rest \<Rightarrow> rest = '''' \<or> rest = ''/'');
                 host = (case up_host uri of None \<Rightarrow> False | Some h \<Rightarrow> h \<noteq> '''')
             in if up_scheme uri = None \<or> \<not> host \<or> \<not> bare \<or> ends_with CHR ''/'' trimmed then want else Inr ())"

fun validate_origins ::
  "(string \<Rightarrow> string) \<Rightarrow> (string \<Rightarrow> uri_parts option) \<Rightarrow> bool \<Rightarrow> string list \<Rightarrow> string + unit" where
  "validate_origins dbg parse credentials [] = Inr ()"
| "validate_origins dbg parse credentials (origin # origins) =
     (if origin = ''*'' then
        if credentials then
          Inl (''the \"*\" origin cannot be combined with allowed credentials; list the origins instead'')
        else validate_origins dbg parse credentials origins
      else case validate_origin dbg parse origin of
        Inl e \<Rightarrow> Inl e
      | Inr _ \<Rightarrow> validate_origins dbg parse credentials origins)"

fun validate_lists :: "(string \<Rightarrow> string) \<Rightarrow> string list list \<Rightarrow> string + unit" where
  "validate_lists dbg [] = Inr ()"
| "validate_lists dbg (xs # rest) =
     (let joined = join '', '' xs
      in if \<not> valid_header joined then Inl (dbg joined @ '' is not a valid header value'') else validate_lists dbg rest)"

definition cors_validate :: "(string \<Rightarrow> string) \<Rightarrow> (string \<Rightarrow> uri_parts option) \<Rightarrow> cors_policy \<Rightarrow> string + unit" where
  "cors_validate dbg parse policy =
     (if cp_allowed_origins policy = [] then Inl ''no allowed origins''
      else case validate_origins dbg parse (cp_allow_credentials policy) (cp_allowed_origins policy) of
        Inl e \<Rightarrow> Inl e
      | Inr _ \<Rightarrow>
          validate_lists dbg [cp_allowed_methods policy, cp_allowed_headers policy, cp_exposed_headers policy])"

subsection \<open>The compiled policy\<close>

record compiled =
  co_any_origin :: bool
  co_origins :: "string list"
  co_methods :: string
  co_allow_methods :: "string list"
  co_headers :: string
  co_any_header :: bool
  co_exposed :: "string option"
  co_credentials :: bool
  co_max_age :: "string option"

definition normalize_origin :: "string \<Rightarrow> string" where
  "normalize_origin origin = to_lowercase (drop_suffix_char CHR ''/'' (str_trim origin))"

definition header_value :: "string \<Rightarrow> string + string" where
  "header_value text = (if valid_header text then Inr text else Inl ''a policy value is not a header'')"

definition compiled_new :: "cors_policy \<Rightarrow> string + compiled" where
  "compiled_new policy =
     (let methods = (if cp_allowed_methods policy = [] then default_cors_allowed_methods else cp_allowed_methods policy);
          headers = (if cp_allowed_headers policy = [] then default_cors_allowed_headers else cp_allowed_headers policy);
          upper = map (\<lambda>m. to_uppercase (str_trim m)) methods
      in case header_value (join '', '' upper) of
           Inl e \<Rightarrow> Inl e
         | Inr methods_value \<Rightarrow>
             (case header_value (join '', '' headers) of
                Inl e \<Rightarrow> Inl e
              | Inr headers_value \<Rightarrow>
                  (case (if cp_exposed_headers policy = [] then Inr None
                         else map_sum id Some (header_value (join '', '' (cp_exposed_headers policy)))) of
                     Inl e \<Rightarrow> Inl e
                   | Inr exposed \<Rightarrow>
                       Inr \<lparr>co_any_origin = list_ex ((=) ''*'') (cp_allowed_origins policy),
                         co_origins = map normalize_origin (filter ((\<noteq>) ''*'') (cp_allowed_origins policy)),
                         co_methods = methods_value, co_allow_methods = upper, co_headers = headers_value,
                         co_any_header = list_ex ((=) ''*'') headers, co_exposed = exposed,
                         co_credentials = cp_allow_credentials policy,
                         co_max_age = (if cp_max_age policy = 0 then None
                           else Some (show_nat (cp_max_age policy div 10 ^ 9)))\<rparr>)))"

definition origin_allowed :: "compiled \<Rightarrow> string \<Rightarrow> bool" where
  "origin_allowed c origin \<longleftrightarrow>
     co_any_origin c \<or> visible_header origin \<and> normalize_origin origin \<in> set (co_origins c)"

definition allow_origin :: "compiled \<Rightarrow> string \<Rightarrow> string" where
  "allow_origin c origin = (if co_any_origin c \<and> \<not> co_credentials c then ''*'' else origin)"

definition decorate :: "compiled \<Rightarrow> string \<Rightarrow> header_map \<Rightarrow> header_map" where
  "decorate c origin h =
     (let h1 = hm_insert ''access-control-allow-origin'' (allow_origin c origin) h;
          h2 = (if co_credentials c then hm_insert ''access-control-allow-credentials'' ''true'' h1 else h1)
      in case co_exposed c of
           None \<Rightarrow> h2
         | Some exposed \<Rightarrow> hm_insert ''access-control-expose-headers'' exposed h2)"

definition non_empty :: "header_map \<Rightarrow> string \<Rightarrow> string option" where
  "non_empty h name = (case hm_get h name of Some v \<Rightarrow> if v \<noteq> '''' then Some v else None | None \<Rightarrow> None)"

subsection \<open>The layer\<close>

record 'b web_request =
  wq_method :: string
  wq_headers :: header_map
  wq_body :: 'b

record 'r web_response =
  ws_status :: nat
  ws_headers :: header_map
  ws_body :: 'r

definition requested_method :: "header_map \<Rightarrow> string" where
  "requested_method request =
     to_uppercase (case hm_get request ''access-control-request-method'' of
       Some m \<Rightarrow> if visible_header m then m else '''' | None \<Rightarrow> '''')"

definition preflight_vary :: header_map where
  "preflight_vary =
     no_headers(''vary'' := [''Origin'', ''Access-Control-Request-Method'', ''Access-Control-Request-Headers''])"

definition cors_preflight :: "compiled \<Rightarrow> 'r \<Rightarrow> header_map \<Rightarrow> string \<Rightarrow> 'r web_response" where
  "cors_preflight c body request origin =
     (if \<not> origin_allowed c origin \<or> requested_method request \<notin> set (co_allow_methods c)
      then \<lparr>ws_status = 403, ws_headers = preflight_vary, ws_body = body\<rparr>
      else
        let h1 = hm_insert ''access-control-allow-origin'' (allow_origin c origin) preflight_vary;
            h2 = hm_insert ''access-control-allow-methods'' (co_methods c) h1;
            h3 = (if \<not> co_any_header c then hm_insert ''access-control-allow-headers'' (co_headers c) h2
                  else case non_empty request ''access-control-request-headers'' of
                    Some requested \<Rightarrow> hm_insert ''access-control-allow-headers'' requested h2
                  | None \<Rightarrow> h2);
            h4 = (if co_credentials c then hm_insert ''access-control-allow-credentials'' ''true'' h3 else h3);
            h5 = (case co_max_age c of Some age \<Rightarrow> hm_insert ''access-control-max-age'' age h4 | None \<Rightarrow> h4)
        in \<lparr>ws_status = 204, ws_headers = h5, ws_body = body\<rparr>)"

definition cors_layer ::
  "(string \<Rightarrow> string) \<Rightarrow> (string \<Rightarrow> uri_parts option) \<Rightarrow> cors_policy \<Rightarrow> string + compiled" where
  "cors_layer dbg parse policy =
     (case cors_validate dbg parse policy of Inl e \<Rightarrow> Inl e | Inr _ \<Rightarrow> compiled_new policy)"

type_synonym ('w, 'b, 'r, 'e) web_service = "'b web_request \<Rightarrow> 'w \<Rightarrow> ('e + 'r web_response) \<times> 'w"

definition cors_call :: "compiled \<Rightarrow> 'r \<Rightarrow> ('w, 'b, 'r, 'e) web_service \<Rightarrow> ('w, 'b, 'r, 'e) web_service" where
  "cors_call c body inner request w =
     (let origin = non_empty (wq_headers request) ''origin''
      in if origin \<noteq> None \<and> wq_method request = ''OPTIONS'' \<and>
            non_empty (wq_headers request) ''access-control-request-method'' \<noteq> None
         then (Inr (cors_preflight c body (wq_headers request) (the origin)), w)
         else case inner request w of
           (Inl e, w') \<Rightarrow> (Inl e, w')
         | (Inr response, w') \<Rightarrow>
             let h1 = hm_append ''vary'' ''Origin'' (ws_headers response);
                 h2 = (case origin of
                   Some o' \<Rightarrow> if origin_allowed c o' then decorate c o' h1 else h1
                 | None \<Rightarrow> h1)
             in (Inr (response\<lparr>ws_headers := h2\<rparr>), w'))"

definition apply_cors ::
  "(string \<Rightarrow> string) \<Rightarrow> (string \<Rightarrow> uri_parts option) \<Rightarrow> 'r \<Rightarrow> cors_policy option \<Rightarrow> ('w, 'b, 'r, 'e) web_service
     \<Rightarrow> string + ('w, 'b, 'r, 'e) web_service" where
  "apply_cors dbg parse body policy router =
     (case policy of
        None \<Rightarrow> Inr router
      | Some p \<Rightarrow> (case cors_layer dbg parse p of Inl e \<Rightarrow> Inl e | Inr c \<Rightarrow> Inr (cors_call c body router)))"

subsection \<open>Lemmas\<close>

lemma validate_origins_Ok:
  "validate_origins dbg parse credentials origins = Inr () \<longleftrightarrow>
     (\<forall>origin\<in>set origins. if origin = ''*'' then \<not> credentials else validate_origin dbg parse origin = Inr ())"
proof (induction origins)
  case (Cons a origins)
  then show ?case by (cases "a = ''*''"; cases credentials) (auto split: sum.splits if_splits)
qed simp

lemma validate_lists_Ok: "validate_lists dbg lls = Inr () \<longleftrightarrow> (\<forall>xs\<in>set lls. valid_header (join '', '' xs))"
  by (induction lls) (auto simp: Let_def)

lemma cors_validate_Ok:
  "cors_validate dbg parse policy = Inr () \<longleftrightarrow> cp_allowed_origins policy \<noteq> [] \<and>
     validate_origins dbg parse (cp_allow_credentials policy) (cp_allowed_origins policy) = Inr () \<and>
     valid_header (join '', '' (cp_allowed_methods policy)) \<and> valid_header (join '', '' (cp_allowed_headers policy)) \<and>
     valid_header (join '', '' (cp_exposed_headers policy))"
  by (auto simp: cors_validate_def validate_lists_Ok simp del: validate_lists.simps split: sum.splits)

lemma set_join: "set (join sep xs) \<subseteq> \<Union> (set (map set xs)) \<union> (if length xs \<le> 1 then {} else set sep)"
  by (cases xs) (auto simp: join_def)

lemma set_join_parts: "x \<in> set xs \<Longrightarrow> set x \<subseteq> set (join sep xs)"
  by (cases xs) (auto simp: join_def)

lemma header_byte_upper: "header_byte (upper_char c) \<longleftrightarrow> header_byte c"
proof (cases "is_lower c")
  case True
  then have "(of_char (upper_char c) :: nat) = of_char c - 32"
    by (auto simp: upper_char_def is_lower_def of_char_of intro: mod_less)
  with True show ?thesis by (auto simp: header_byte_def is_lower_def)
qed (simp add: upper_char_def)

lemma set_str_trim: "set (str_trim s) \<subseteq> set s"
  unfolding str_trim_def by (metis set_dropWhileD set_rev subsetI)

lemma valid_join_upper:
  assumes "valid_header (join '', '' ms)"
  shows "valid_header (join '', '' (map (\<lambda>m. to_uppercase (str_trim m)) ms))"
proof -
  have "header_byte c" if "m \<in> set ms" "c \<in> set (to_uppercase (str_trim m))" for m c
  proof -
    from that(2) obtain d where "d \<in> set m" "c = upper_char d" using set_str_trim by (auto simp: to_uppercase_def)
    moreover have "header_byte d"
      using assms set_join_parts [OF that(1), of "'', ''"] \<open>d \<in> set m\<close> by (auto simp: valid_header_def list_all_iff)
    ultimately show ?thesis by (simp add: header_byte_upper)
  qed
  moreover have "header_byte CHR '',''" "header_byte CHR '' ''" by code_simp+
  ultimately show ?thesis
    using set_join [of "'', ''" "map (\<lambda>m. to_uppercase (str_trim m)) ms"]
    by (fastforce simp: valid_header_def list_all_iff split: if_splits)
qed

lemma default_lists_valid:
  "valid_header (join '', '' default_cors_allowed_methods)" "valid_header (join '', '' default_cors_allowed_headers)"
  by code_simp+

lemma compiled_new_Ok:
  assumes "cors_validate dbg parse policy = Inr ()"
  shows "\<exists>c. compiled_new policy = Inr c"
proof -
  have "valid_header (join '', '' (map (\<lambda>m. to_uppercase (str_trim m))
      (if cp_allowed_methods policy = [] then default_cors_allowed_methods else cp_allowed_methods policy)))"
    by (rule valid_join_upper) (use assms default_lists_valid in \<open>simp add: cors_validate_Ok\<close>)
  moreover have "valid_header (join '', ''
      (if cp_allowed_headers policy = [] then default_cors_allowed_headers else cp_allowed_headers policy))"
    using assms default_lists_valid by (simp add: cors_validate_Ok)
  ultimately show ?thesis
    using assms by (simp add: compiled_new_def header_value_def Let_def cors_validate_Ok)
qed

lemma compiled_new_fields:
  assumes "compiled_new policy = Inr c"
  shows "co_any_origin c = (''*'' \<in> set (cp_allowed_origins policy))" "co_credentials c = cp_allow_credentials policy"
    "set (co_origins c) = normalize_origin ` {x \<in> set (cp_allowed_origins policy). x \<noteq> ''*''}"
  using assms by (auto simp: compiled_new_def Let_def list_ex_iff split: sum.splits)

lemma cors_layer_Ok:
  assumes "cors_layer dbg parse policy = Inr c"
  shows "cors_validate dbg parse policy = Inr () \<and> compiled_new policy = Inr c"
  using assms by (auto simp: cors_layer_def split: sum.splits)

text \<open>A validated policy never allows credentials together with any origin.\<close>

lemma cors_layer_exclusive:
  assumes "cors_layer dbg parse policy = Inr c"
  shows "\<not> (co_any_origin c \<and> co_credentials c)"
  using cors_layer_Ok [OF assms] compiled_new_fields [of policy c]
  by (auto simp: cors_validate_Ok validate_origins_Ok split: if_splits)

subsection \<open>Properties\<close>

text \<open>C22: credentials. Behind a layer that was accepted, a response lets a browser use credentials only when
  the policy says so, only for the one origin that sent the request, never for the wildcard, and only when
  that origin is one the policy names, up to case and a trailing slash.\<close>

theorem cors_credentials_safe:
  assumes "cors_layer dbg parse policy = Inr c" "cors_call c body inner request w = (Inr response, w')"
    and "\<forall>r. fst (inner request w) = Inr r \<longrightarrow> \<not> hm_contains (ws_headers r) ''access-control-allow-credentials''"
    and "hm_contains (ws_headers response) ''access-control-allow-credentials''"
  shows "cp_allow_credentials policy \<and> ''*'' \<notin> set (cp_allowed_origins policy) \<and>
    (\<exists>origin. non_empty (wq_headers request) ''origin'' = Some origin \<and>
       ws_headers response ''access-control-allow-origin'' = [origin] \<and>
       (\<exists>x\<in>set (cp_allowed_origins policy). normalize_origin x = normalize_origin origin))"
proof -
  note fields = compiled_new_fields [OF conjunct2 [OF cors_layer_Ok [OF assms(1)]]]
  have "co_credentials c \<and> (\<exists>origin. non_empty (wq_headers request) ''origin'' = Some origin \<and> origin_allowed c origin \<and>
      ws_headers response ''access-control-allow-origin'' = [allow_origin c origin])"
    using assms(2-4)
    by (auto simp: cors_call_def cors_preflight_def decorate_def Let_def hm_contains_def hm_insert_def hm_append_def
        preflight_vary_def no_headers_def split: if_splits option.splits prod.splits sum.splits)
  then obtain origin where o': "co_credentials c" "non_empty (wq_headers request) ''origin'' = Some origin" "origin_allowed c origin"
    "ws_headers response ''access-control-allow-origin'' = [allow_origin c origin]"
    by blast
  then have "\<not> co_any_origin c" using cors_layer_exclusive [OF assms(1)] by blast
  with o' fields show ?thesis by (auto simp: origin_allowed_def allow_origin_def)
qed

definition sample_parse :: "string \<Rightarrow> uri_parts option" where
  "sample_parse s = (if s = ''https://a.example''
     then Some \<lparr>up_scheme = Some ''https'', up_host = Some ''a.example'', up_path_and_query = None\<rparr> else None)"

definition sample_policy :: cors_policy where
  "sample_policy = \<lparr>cp_allowed_origins = [''https://a.example/''], cp_allowed_methods = [], cp_allowed_headers = [],
     cp_exposed_headers = [], cp_allow_credentials = True, cp_max_age = 0\<rparr>"

definition sample_request :: "string \<Rightarrow> unit web_request" where
  "sample_request method = \<lparr>wq_method = method,
     wq_headers = hm_insert ''access-control-request-method'' ''get'' (hm_insert ''origin'' ''https://A.example'' no_headers),
     wq_body = ()\<rparr>"

lemma sample_layer:
  obtains c where "cors_layer (\<lambda>s. s) sample_parse sample_policy = Inr c" "co_credentials c" "\<not> co_any_origin c"
    "origin_allowed c ''https://A.example''"
proof -
  have v: "cors_validate (\<lambda>s. s) sample_parse sample_policy = Inr ()" by code_simp
  from compiled_new_Ok [OF this] obtain c where c: "compiled_new sample_policy = Inr c" ..
  have "normalize_origin ''https://A.example'' = normalize_origin ''https://a.example/''"
    "visible_header ''https://A.example''" by code_simp+
  with compiled_new_fields [OF c] v c show thesis
    by (intro that [of c]) (simp_all add: cors_layer_def sample_policy_def origin_allowed_def)
qed

definition plain_page :: "(unit, unit, unit, string) web_service" where
  "plain_page q w = (Inr \<lparr>ws_status = 200, ws_headers = no_headers, ws_body = ()\<rparr>, w)"

theorem cors_credentials_safe_witness:
  "\<exists>c response. cors_layer (\<lambda>s. s) sample_parse sample_policy = Inr c \<and>
     cors_call c () plain_page (sample_request ''GET'') ()
       = (Inr response, ()) \<and>
     ws_headers response ''access-control-allow-origin'' = [''https://A.example'']"
proof -
  obtain c where c: "cors_layer (\<lambda>s. s) sample_parse sample_policy = Inr c" "co_credentials c" "\<not> co_any_origin c"
    "origin_allowed c ''https://A.example''" by (rule sample_layer)
  obtain r :: "unit web_response" where r: "cors_call c () plain_page (sample_request ''GET'') () = (Inr r, ())"
    "hm_contains (ws_headers r) ''access-control-allow-credentials''"
    using c(2-4) by (auto simp: plain_page_def cors_call_def sample_request_def non_empty_def hm_get_def hm_insert_def decorate_def Let_def
        hm_contains_def no_headers_def split: option.splits)
  have o': "non_empty (wq_headers (sample_request ''GET'')) ''origin'' = Some ''https://A.example''"
    by (simp add: sample_request_def non_empty_def hm_get_def hm_insert_def)
  have "\<forall>x. fst (plain_page (sample_request ''GET'') ()) = Inr x \<longrightarrow> \<not> hm_contains (ws_headers x) ''access-control-allow-credentials''"
    by (simp add: plain_page_def hm_contains_def no_headers_def)
  from cors_credentials_safe [OF c(1) r(1) this r(2)] o' have "ws_headers r ''access-control-allow-origin'' = [''https://A.example'']"
    by auto
  with c(1) r(1) show ?thesis by blast
qed



text \<open>acceptance. A policy is served exactly when it names an origin, every origin is well formed, the
  wildcard does not come with credentials and its lists fit a header; precomputing the header values never
  refuses what validation accepted.\<close>

theorem cors_accepts:
  "(\<exists>c. cors_layer dbg parse policy = Inr c) \<longleftrightarrow> cp_allowed_origins policy \<noteq> [] \<and>
     (\<forall>origin\<in>set (cp_allowed_origins policy).
        if origin = ''*'' then \<not> cp_allow_credentials policy else validate_origin dbg parse origin = Inr ()) \<and>
     (\<forall>xs\<in>{cp_allowed_methods policy, cp_allowed_headers policy, cp_exposed_headers policy}. valid_header (join '', '' xs))"
proof -
  have "(\<exists>c. cors_layer dbg parse policy = Inr c) \<longleftrightarrow> cors_validate dbg parse policy = Inr ()"
    using compiled_new_Ok [of dbg parse policy] by (auto simp: cors_layer_def split: sum.splits)
  then show ?thesis by (simp add: cors_validate_Ok validate_origins_Ok)
qed

theorem cors_accepts_witness:
  "\<exists>c. cors_layer (\<lambda>s. s) sample_parse sample_policy = Inr c"
proof -
  have "validate_origin (\<lambda>s. s) sample_parse ''https://a.example/'' = Inr ()" "valid_header (join '', '' [])"
    "''https://a.example/'' \<noteq> ''*''" by code_simp+
  then show ?thesis
    using cors_accepts [of "\<lambda>s. s" sample_parse sample_policy] by (simp add: sample_policy_def)
qed

end
