(* ===== verification/Store.thy ===== *)
theory Store
  imports Prelude "HOL-Library.List_Lexorder" "HOL-Library.Multiset" "HOL-Library.Char_ord"
begin

text \<open>
  The database crate's backend-neutral contracts: resource descriptions (\<open>src/database/src/store/resource.rs\<close>),
  scalar records (\<open>record.rs\<close>), page sizes (\<open>driver.rs\<close>), windows (\<open>window.rs\<close>) and the in-memory evaluation of
  a window (\<open>arrow/filter.rs\<close>).

  A JSON value keeps integers exactly; a 64-bit float is of a type parameter, with the operations of the
  language on it in the record \<open>float_ops\<close>. A record is the association list of a sorted map: its names are
  distinct. Byte-wise string order is the lexicographic order on characters.
\<close>

subsection \<open>Errors and orderings\<close>

datatype db_error =
    HttpStatus nat | Closed | Ingestion db_error | Invalid string | DbNotFound | AlreadyExists
  | Unimplemented string string | Timeout | Encoding string | BackendError string string

type_synonym 'a db_result = "db_error + 'a"

datatype ordering = OLess | OEqual | OGreater

definition cmp :: "'a::linorder \<Rightarrow> 'a \<Rightarrow> ordering" where
  "cmp a b = (if a < b then OLess else if a = b then OEqual else OGreater)"

fun ordering_reverse :: "ordering \<Rightarrow> ordering" where
  "ordering_reverse OLess = OGreater"
| "ordering_reverse OEqual = OEqual"
| "ordering_reverse OGreater = OLess"

definition ordering_then :: "ordering \<Rightarrow> ordering \<Rightarrow> ordering" where
  "ordering_then a b = (if a = OEqual then b else a)"

lemma cmp_iff [simp]:
  "cmp a b = OLess \<longleftrightarrow> a < b" "cmp a b = OEqual \<longleftrightarrow> a = b" "cmp a b = OGreater \<longleftrightarrow> b < a"
  by (auto simp: cmp_def)

subsection \<open>Resources\<close>

datatype column_kind = KString | KInt | KUint | KFloat | KBool | KTimestamp | KEnum

datatype column_role = RoleKey | RoleTag | RoleField | RoleTimestamp

record column =
  col_name :: string
  col_kind :: column_kind
  col_role :: column_role

record resource =
  res_name :: string
  res_table :: string
  res_columns :: "column list"

definition name_start :: "char \<Rightarrow> bool" where
  "name_start c \<longleftrightarrow> c = CHR ''_'' \<or> (65 \<le> (of_char c :: nat) \<and> (of_char c :: nat) \<le> 90) \<or>
     (97 \<le> (of_char c :: nat) \<and> (of_char c :: nat) \<le> 122)"

definition ascii_digit :: "char \<Rightarrow> bool" where
  "ascii_digit c \<longleftrightarrow> 48 \<le> (of_char c :: nat) \<and> (of_char c :: nat) \<le> 57"

definition check_name :: "(string \<Rightarrow> string) \<Rightarrow> string \<Rightarrow> unit db_result" where
  "check_name dbg name =
     (if name = '''' \<or> length name > 128 \<or>
         \<not> (\<forall>x\<in>set (enumerate 0 name). name_start (snd x) \<or> fst x > 0 \<and> ascii_digit (snd x))
      then Inl (Invalid (''invalid identifier '' @ dbg name)) else Inr ())"

text \<open>The loop over the columns, with the names seen and the numbers of timestamps, keys and fields.\<close>

fun resource_scan ::
  "(string \<Rightarrow> string) \<Rightarrow> column list \<Rightarrow> string list \<Rightarrow> nat \<Rightarrow> nat \<Rightarrow> nat \<Rightarrow> (nat \<times> nat \<times> nat) db_result" where
  "resource_scan dbg [] names stamps ks fds = Inr (stamps, ks, fds)"
| "resource_scan dbg (col # cols) names stamps ks fds =
     (case check_name dbg (col_name col) of
        Inl e \<Rightarrow> Inl e
      | Inr _ \<Rightarrow>
          if col_name col \<in> set names then Inl (Invalid (''duplicate column '' @ col_name col))
          else if col_role col = RoleTimestamp \<and> col_kind col = KTimestamp
            then resource_scan dbg cols (col_name col # names) (Suc stamps) ks fds
          else if col_role col = RoleKey \<and> col_kind col = KString
            then resource_scan dbg cols (col_name col # names) stamps (Suc ks) fds
          else if col_role col = RoleTag \<and> col_kind col = KString
            then resource_scan dbg cols (col_name col # names) stamps ks fds
          else if col_role col = RoleField \<and> col_kind col \<noteq> KTimestamp
            then resource_scan dbg cols (col_name col # names) stamps ks (Suc fds)
          else Inl (Invalid (''invalid role/type for '' @ col_name col)))"

definition resource_new :: "(string \<Rightarrow> string) \<Rightarrow> string \<Rightarrow> column list \<Rightarrow> resource db_result" where
  "resource_new dbg table cols =
     (case check_name dbg table of
        Inl e \<Rightarrow> Inl e
      | Inr _ \<Rightarrow>
          (case resource_scan dbg cols [] 0 0 0 of
             Inl e \<Rightarrow> Inl e
           | Inr (stamps, ks, fds) \<Rightarrow>
               if stamps > 1 \<or> ks > 1 \<or> (stamps = 0 \<and> ks = 0) \<or> fds = 0
               then Inl (Invalid ''one key or timestamp and at least one field required'')
               else Inr \<lparr>res_name = table, res_table = table, res_columns = cols\<rparr>))"

definition resource_column :: "resource \<Rightarrow> string \<Rightarrow> column db_result" where
  "resource_column res name =
     (case find (\<lambda>c. col_name c = name) (res_columns res) of
        Some c \<Rightarrow> Inr c | None \<Rightarrow> Inl (Invalid (''unknown column '' @ name)))"

definition time_column :: "resource \<Rightarrow> string db_result" where
  "time_column res =
     (case find (\<lambda>c. col_role c = RoleTimestamp) (res_columns res) of
        Some c \<Rightarrow> Inr (col_name c)
      | None \<Rightarrow> Inl (Invalid ''time-series operations require a timestamp column''))"

definition key_column :: "resource \<Rightarrow> string option" where
  "key_column res = map_option col_name (find (\<lambda>c. col_role c = RoleKey) (res_columns res))"

subsection \<open>Values and records\<close>

datatype 'f jvalue = JNull | JBool bool | JInt int | JFloat 'f | JString string | JOther

record 'f float_ops =
  ff_of_int :: "int \<Rightarrow> 'f"
  ff_cmp :: "'f \<Rightarrow> 'f \<Rightarrow> ordering option"
  ff_finite :: "'f \<Rightarrow> bool"

type_synonym 'f db_record = "(string \<times> 'f jvalue) list"

fun as_i64 :: "'f jvalue \<Rightarrow> int option" where
  "as_i64 (JInt n) = (if - (2 ^ 63) \<le> n \<and> n < 2 ^ 63 then Some n else None)"
| "as_i64 _ = None"

fun as_u64 :: "'f jvalue \<Rightarrow> int option" where
  "as_u64 (JInt n) = (if 0 \<le> n \<and> n < 2 ^ 64 then Some n else None)"
| "as_u64 _ = None"

fun as_f64 :: "'f float_ops \<Rightarrow> 'f jvalue \<Rightarrow> 'f option" where
  "as_f64 fo (JInt n) = Some (ff_of_int fo n)"
| "as_f64 fo (JFloat x) = Some x"
| "as_f64 fo _ = None"

fun as_str :: "'f jvalue \<Rightarrow> string option" where
  "as_str (JString s) = Some s"
| "as_str _ = None"

fun as_bool :: "'f jvalue \<Rightarrow> bool option" where
  "as_bool (JBool b) = Some b"
| "as_bool _ = None"

definition value_valid :: "'f float_ops \<Rightarrow> column_kind \<Rightarrow> 'f jvalue \<Rightarrow> bool" where
  "value_valid fo kind v =
     (case kind of
        KString \<Rightarrow> (case as_str v of
          Some s \<Rightarrow> CHR 0x0A \<notin> set s \<and> CHR 0x0D \<notin> set s \<and> CHR 0x00 \<notin> set s | None \<Rightarrow> False)
      | KInt \<Rightarrow> as_i64 v \<noteq> None
      | KTimestamp \<Rightarrow> as_i64 v \<noteq> None
      | KEnum \<Rightarrow> (case as_i64 v of Some n \<Rightarrow> - (2 ^ 31) \<le> n \<and> n < 2 ^ 31 | None \<Rightarrow> False)
      | KUint \<Rightarrow> as_u64 v \<noteq> None
      | KFloat \<Rightarrow> (case as_f64 fo v of Some x \<Rightarrow> ff_finite fo x | None \<Rightarrow> False)
      | KBool \<Rightarrow> as_bool v \<noteq> None)"

text \<open>\<open>dbg\<close> renders the kind and the value for the message.\<close>

definition validate_value ::
  "'f float_ops \<Rightarrow> (column_kind \<Rightarrow> 'f jvalue \<Rightarrow> string) \<Rightarrow> column_kind \<Rightarrow> 'f jvalue \<Rightarrow> unit db_result" where
  "validate_value fo dbg kind v = (if value_valid fo kind v then Inr () else Inl (Invalid (dbg kind v)))"

fun validate_columns ::
  "'f float_ops \<Rightarrow> (column_kind \<Rightarrow> 'f jvalue \<Rightarrow> string) \<Rightarrow> column list \<Rightarrow> 'f db_record \<Rightarrow> unit db_result" where
  "validate_columns fo dbg [] r = Inr ()"
| "validate_columns fo dbg (col # cols) r =
     (case map_of r (col_name col) of
        None \<Rightarrow> Inl (Invalid (''missing column '' @ col_name col))
      | Some v \<Rightarrow>
          (case validate_value fo dbg (col_kind col) v of
             Inl e \<Rightarrow> Inl e
           | Inr _ \<Rightarrow>
               if (col_role col = RoleTag \<or> col_role col = RoleKey) \<and> as_str v = Some ''''
               then Inl (Invalid (''empty identity column '' @ col_name col))
               else validate_columns fo dbg cols r))"

definition validate_record ::
  "'f float_ops \<Rightarrow> (column_kind \<Rightarrow> 'f jvalue \<Rightarrow> string) \<Rightarrow> resource \<Rightarrow> 'f db_record \<Rightarrow> unit db_result" where
  "validate_record fo dbg res r =
     (if length r \<noteq> length (res_columns res) then Inl (Invalid ''record must contain every declared column only'')
      else validate_columns fo dbg (res_columns res) r)"

subsection \<open>Windows\<close>

datatype comparison = CmpEq | CmpNe | CmpLt | CmpLe | CmpGt | CmpGe

record 'f predicate =
  pr_column :: string
  pr_comparison :: comparison
  pr_value :: "'f jvalue"

record 'f window =
  wn_start :: int
  wn_end :: int
  wn_limit :: nat
  wn_descending :: bool
  wn_predicates :: "'f predicate list"

definition window_validate :: "'f window \<Rightarrow> unit db_result" where
  "window_validate wn =
     (if wn_start wn \<ge> wn_end wn \<or> \<not> (1 \<le> wn_limit wn \<and> wn_limit wn \<le> 10000)
      then Inl (Invalid ''range needs start < end and a page size of at most 10000'') else Inr ())"

definition default_page_size :: int where
  "default_page_size = 50"

definition page_size :: "int \<Rightarrow> nat db_result" where
  "page_size requested =
     (if requested \<le> 0 then Inr (nat default_page_size)
      else if requested \<le> 10000 then Inr (nat requested)
      else Inl (Invalid ''page_size must be at most 10000''))"

text \<open>The check of a caller-named time column.\<close>

definition check_time_column :: "resource \<Rightarrow> string \<Rightarrow> unit db_result" where
  "check_time_column res named =
     (case time_column res of
        Inl e \<Rightarrow> Inl e
      | Inr time \<Rightarrow>
          if named = '''' \<or> named = time then Inr ()
          else case resource_column res named of
            Inl e \<Rightarrow> Inl e
          | Inr col \<Rightarrow>
              if col_role col = RoleTimestamp \<and> col_kind col = KTimestamp then Inr ()
              else Inl (Invalid (named @ '' is not the timestamp column '' @ time)))"

record range_options =
  ro_time_column :: string
  ro_start :: int
  ro_end :: int
  ro_descending :: bool
  ro_filter :: string
  ro_page_size :: int
  ro_page_token :: string

definition window_of ::
  "(resource \<Rightarrow> string \<Rightarrow> 'f predicate list db_result) \<Rightarrow> resource \<Rightarrow> range_options \<Rightarrow> 'f window db_result" where
  "window_of parse res opts =
     (case check_time_column res (ro_time_column opts) of
        Inl e \<Rightarrow> Inl e
      | Inr _ \<Rightarrow>
          (case page_size (ro_page_size opts) of
             Inl e \<Rightarrow> Inl e
           | Inr limit \<Rightarrow>
               (case parse res (ro_filter opts) of
                  Inl e \<Rightarrow> Inl e
                | Inr ps \<Rightarrow>
                    let wn = \<lparr>wn_start = ro_start opts, wn_end = ro_end opts, wn_limit = limit,
                                 wn_descending = ro_descending opts, wn_predicates = ps\<rparr>
                    in case window_validate wn of Inl e \<Rightarrow> Inl e | Inr _ \<Rightarrow> Inr wn)))"

subsection \<open>Evaluating a window\<close>

text \<open>\<open>let (Some a, Some b) = ...\<close> followed by a comparison.\<close>

definition both :: "('a \<Rightarrow> 'a \<Rightarrow> 'b option) \<Rightarrow> 'a option \<Rightarrow> 'a option \<Rightarrow> 'b option" where
  "both f a b = (case a of Some x \<Rightarrow> (case b of Some y \<Rightarrow> f x y | None \<Rightarrow> None) | None \<Rightarrow> None)"

definition compare_values :: "'f float_ops \<Rightarrow> column_kind \<Rightarrow> 'f jvalue \<Rightarrow> 'f jvalue \<Rightarrow> ordering option" where
  "compare_values fo kind left right =
     (case kind of
        KString \<Rightarrow> both (\<lambda>a b. Some (cmp a b)) (as_str left) (as_str right)
      | KUint \<Rightarrow> both (\<lambda>a b. Some (cmp a b)) (as_u64 left) (as_u64 right)
      | KFloat \<Rightarrow> both (ff_cmp fo) (as_f64 fo left) (as_f64 fo right)
      | KBool \<Rightarrow> both (\<lambda>a b. Some (cmp a b)) (as_bool left) (as_bool right)
      | _ \<Rightarrow> both (\<lambda>a b. Some (cmp a b)) (as_i64 left) (as_i64 right))"

definition predicate_holds :: "'f float_ops \<Rightarrow> resource \<Rightarrow> 'f db_record \<Rightarrow> 'f predicate \<Rightarrow> bool" where
  "predicate_holds fo res r p =
     (case (resource_column res (pr_column p), map_of r (pr_column p)) of
        (Inr col, Some v) \<Rightarrow>
          (case compare_values fo (col_kind col) v (pr_value p) of
             None \<Rightarrow> False
           | Some order \<Rightarrow>
               (case pr_comparison p of
                  CmpEq \<Rightarrow> order = OEqual | CmpNe \<Rightarrow> order \<noteq> OEqual | CmpLt \<Rightarrow> order = OLess
                | CmpLe \<Rightarrow> order \<noteq> OGreater | CmpGt \<Rightarrow> order = OGreater | CmpGe \<Rightarrow> order \<noteq> OLess))
      | _ \<Rightarrow> False)"

text \<open>The time of a row, as its time column holds it.\<close>

definition row_time :: "resource \<Rightarrow> 'f db_record \<Rightarrow> int option" where
  "row_time res r =
     (case time_column res of
        Inr time \<Rightarrow> (case map_of r time of Some v \<Rightarrow> as_i64 v | None \<Rightarrow> None)
      | Inl _ \<Rightarrow> None)"

definition in_window :: "'f window \<Rightarrow> int \<Rightarrow> bool" where
  "in_window wn t \<longleftrightarrow> wn_start wn \<le> t \<and> t < wn_end wn"

definition keep_row :: "'f float_ops \<Rightarrow> resource \<Rightarrow> 'f window \<Rightarrow> 'f db_record \<Rightarrow> bool" where
  "keep_row fo res wn r \<longleftrightarrow>
     (case row_time res r of Some t \<Rightarrow> in_window wn t | None \<Rightarrow> False) \<and>
     list_all (predicate_holds fo res r) (wn_predicates wn)"

subsection \<open>The page of an offset\<close>

record 'f top =
  tp_resource :: resource
  tp_window :: "'f window"
  tp_offset :: nat
  tp_kept :: "'f db_record list"
  tp_matched :: int

definition top_new :: "resource \<Rightarrow> 'f window \<Rightarrow> nat \<Rightarrow> 'f top db_result" where
  "top_new res wn offset =
     (case time_column res of
        Inl e \<Rightarrow> Inl e
      | Inr _ \<Rightarrow> Inr \<lparr>tp_resource = res, tp_window = wn, tp_offset = offset, tp_kept = [], tp_matched = 0\<rparr>)"

definition keep_count :: "'f top \<Rightarrow> nat" where
  "keep_count t = min (tp_offset t + wn_limit (tp_window t)) (2 ^ 64 - 1)"

text \<open>The sort key: a row without a time sorts as the least integer; descending order is \<open>Reverse\<close>.\<close>

definition time_key :: "resource \<Rightarrow> bool \<Rightarrow> 'f db_record \<Rightarrow> int" where
  "time_key res descending r =
     (let t = (case row_time res r of Some t \<Rightarrow> t | None \<Rightarrow> - (2 ^ 63)) in if descending then - t else t)"

definition top_compact :: "'f top \<Rightarrow> 'f top" where
  "top_compact t =
     t\<lparr>tp_kept := take (keep_count t) (sort_key (time_key (tp_resource t) (wn_descending (tp_window t))) (tp_kept t))\<rparr>"

definition top_push :: "'f float_ops \<Rightarrow> 'f db_record list \<Rightarrow> 'f top \<Rightarrow> 'f top" where
  "top_push fo rows t =
     (let found = filter (keep_row fo (tp_resource t) (tp_window t)) rows;
          t1 = t\<lparr>tp_kept := tp_kept t @ found, tp_matched := tp_matched t + int (length found)\<rparr>
      in if length (tp_kept t1) > (2 * keep_count t1) mod 2 ^ 64 then top_compact t1 else t1)"

definition top_finish :: "'f top \<Rightarrow> 'f db_record list \<times> int" where
  "top_finish t =
     (let c = top_compact t in (drop (min (tp_offset t) (length (tp_kept c))) (tp_kept c), tp_matched c))"

subsection \<open>Lemmas\<close>

lemma resource_scan_names:
  "resource_scan dbg cols names stamps ks fds = Inr n \<Longrightarrow>
     distinct (map col_name cols) \<and> set (map col_name cols) \<inter> set names = {}"
  by (induction dbg cols names stamps ks fds rule: resource_scan.induct) (auto split: sum.splits if_splits)

lemma resource_new_columns:
  "resource_new dbg table cols = Inr res \<Longrightarrow> res_columns res = cols \<and> distinct (map col_name cols)"
  using resource_scan_names by (auto simp: resource_new_def split: sum.splits if_splits)

lemma validate_columns_Ok:
  "validate_columns fo dbg cols r = Inr () \<longleftrightarrow>
     (\<forall>col\<in>set cols. \<exists>v. map_of r (col_name col) = Some v \<and> value_valid fo (col_kind col) v \<and>
        \<not> ((col_role col = RoleTag \<or> col_role col = RoleKey) \<and> as_str v = Some ''''))"
  by (induction cols) (auto simp: validate_value_def split: option.splits sum.splits)

text \<open>Keeping only the first \<open>k\<close> of a sorted prefix does not change the first \<open>k\<close> of the whole.\<close>

lemma insort_key_before: "f a \<le> f d \<Longrightarrow> insort_key f a (P @ d # Q) = insort_key f a P @ d # Q"
  by (induction P) auto

lemma insort_key_front: "Q = [] \<or> f a \<le> f (hd Q) \<Longrightarrow> insort_key f a (P @ Q) = insort_key f a P @ Q"
  by (induction P) (auto, cases Q, auto)

lemma foldr_insort_split:
  assumes "\<forall>a\<in>set A. f a \<le> f d" "sorted (map f zs)"
  shows "\<exists>P Q. foldr (insort_key f) A (insort_key f d zs) = P @ d # Q \<and> foldr (insort_key f) A zs = P @ Q \<and>
    length A \<le> length P \<and> sorted (map f (P @ d # Q))"
  using assms(1)
proof (induction A)
  case Nil
  have "insort_key f d zs = takeWhile (\<lambda>z. f z < f d) zs @ d # dropWhile (\<lambda>z. f z < f d) zs"
    by (induction zs) auto
  moreover have "sorted (map f (insort_key f d zs))" using assms(2) by (simp add: sorted_insort_key)
  ultimately show ?case by (intro exI [of _ "takeWhile (\<lambda>z. f z < f d) zs"] exI [of _ "dropWhile (\<lambda>z. f z < f d) zs"]) simp
next
  case (Cons a A)
  then obtain P Q where IH: "foldr (insort_key f) A (insort_key f d zs) = P @ d # Q" "foldr (insort_key f) A zs = P @ Q"
    "length A \<le> length P" "sorted (map f (P @ d # Q))"
    by auto
  have a: "f a \<le> f d" using Cons.prems by simp
  then have "Q = [] \<or> f a \<le> f (hd Q)" using IH(4) by (cases Q) (auto simp: sorted_append)
  with a IH have "foldr (insort_key f) (a # A) (insort_key f d zs) = insort_key f a P @ d # Q"
    "foldr (insort_key f) (a # A) zs = insort_key f a P @ Q"
    by (simp_all add: insort_key_before insort_key_front)
  moreover have "sorted (map f (insort_key f a P @ d # Q))"
    using IH(4) a sorted_insort_key [of f a "P @ d # Q"] by (simp add: insort_key_before)
  ultimately show ?case using IH(3) by (intro exI [of _ "insort_key f a P"] exI [of _ Q]) simp
qed

lemma take_sort_drop_last:
  assumes "sorted (map f (A @ [d]))" "k \<le> length A"
  shows "take k (sort_key f (A @ d # ys)) = take k (sort_key f (A @ ys))"
proof -
  have le: "\<forall>a\<in>set A. f a \<le> f d" using assms(1) by (auto simp: sorted_append)
  have "sort_key f (A @ xs) = foldr (insort_key f) A (sort_key f xs)" for xs
    by (simp add: sort_key_def)
  moreover have "sort_key f (d # ys) = insort_key f d (sort_key f ys)" by (simp add: sort_key_def)
  ultimately show ?thesis
    using foldr_insort_split [OF le, of "sort_key f ys"] assms(2) by (auto simp: sorted_sort_key)
qed

lemma take_sort_take:
  assumes "sorted (map f (A @ B))" "k \<le> length A"
  shows "take k (sort_key f (A @ B @ ys)) = take k (sort_key f (A @ ys))"
  using assms
proof (induction B rule: rev_induct)
  case (snoc d B)
  have "take k (sort_key f ((A @ B) @ d # ys)) = take k (sort_key f ((A @ B) @ ys))"
    by (rule take_sort_drop_last) (use snoc.prems in auto)
  moreover have "sorted (map f (A @ B))" using snoc.prems(1) by (simp add: sorted_append)
  ultimately show ?case using snoc by simp
qed simp

lemma sort_sort_append: "sort_key f (sort_key f xs @ ys) = sort_key f (xs @ ys)"
proof (rule properties_for_sort_key)
  show "filter (\<lambda>x. f k = f x) (sort_key f (xs @ ys)) = filter (\<lambda>x. f k = f x) (sort_key f xs @ ys)" for k
    using sort_key_stable [of f "f k"] by (simp add: eq_commute [of "f k"])
qed simp_all

lemma take_sort_bounded: "take k (sort_key f (take k (sort_key f xs) @ ys)) = take k (sort_key f (xs @ ys))"
proof (cases "length xs \<le> k")
  case True
  then show ?thesis by (simp add: sort_sort_append)
next
  case False
  let ?s = "sort_key f xs"
  have "sort_key f (xs @ ys) = sort_key f (take k ?s @ drop k ?s @ ys)"
    using sort_sort_append [of f xs ys] by (simp add: append_assoc [symmetric] del: append_assoc)
  moreover have "take k (sort_key f (take k ?s @ drop k ?s @ ys)) = take k (sort_key f (take k ?s @ ys))"
    by (rule take_sort_take) (use False in \<open>simp_all add: sorted_sort_key\<close>)
  ultimately show ?thesis by simp
qed

text \<open>What a \<open>Top\<close> has kept, whatever has been compacted on the way.\<close>

definition top_inv :: "'f float_ops \<Rightarrow> resource \<Rightarrow> 'f window \<Rightarrow> nat \<Rightarrow> 'f db_record list \<Rightarrow> 'f top \<Rightarrow> bool" where
  "top_inv fo res wn offset rows t \<longleftrightarrow> tp_resource t = res \<and> tp_window t = wn \<and> tp_offset t = offset \<and>
     tp_matched t = int (length (filter (keep_row fo res wn) rows)) \<and>
     take (keep_count t) (sort_key (time_key res (wn_descending wn)) (tp_kept t)) =
     take (keep_count t) (sort_key (time_key res (wn_descending wn)) (filter (keep_row fo res wn) rows))"

lemma keep_count_update [simp]:
  "keep_count (t\<lparr>tp_kept := zs\<rparr>) = keep_count t" "keep_count (t\<lparr>tp_matched := n\<rparr>) = keep_count t"
  by (simp_all add: keep_count_def)

lemma top_inv_push:
  assumes "top_inv fo res wn offset rows t"
  shows "top_inv fo res wn offset (rows @ extra) (top_push fo extra t)"
proof -
  let ?f = "time_key res (wn_descending wn)" and ?k = "keep_count t"
  let ?new = "filter (keep_row fo res wn) extra"
  have "take ?k (sort_key ?f (tp_kept t @ ?new)) = take ?k (sort_key ?f (filter (keep_row fo res wn) rows @ ?new))"
    using assms take_sort_bounded [of ?k ?f "tp_kept t" ?new] take_sort_bounded [of ?k ?f "filter (keep_row fo res wn) rows" ?new]
    by (simp add: top_inv_def)
  moreover have "take ?k (sort_key ?f (take ?k (sort_key ?f zs))) = take ?k (sort_key ?f zs)" for zs
    using take_sort_bounded [of ?k ?f zs "[]"] by simp
  ultimately show ?thesis
    using assms by (auto simp: top_inv_def top_push_def top_compact_def Let_def simp del: take_all)
qed

lemma top_inv_fold:
  "top_inv fo res wn offset rows t \<Longrightarrow> top_inv fo res wn offset (rows @ concat batches) (fold (top_push fo) batches t)"
proof (induction batches arbitrary: rows t)
  case (Cons b batches)
  from Cons.IH [OF top_inv_push [OF Cons.prems, of b]] show ?case by simp
qed simp

text \<open>Streaming batches through the bounded buffer, compacted whenever it grows past twice the page, gives the
  slice of the stably sorted matches that sorting everything would give, and counts every match.\<close>

lemma top_is_sorted_slice:
  assumes "top_new res wn offset = Inr t" "offset + wn_limit wn < 2 ^ 64"
  shows "top_finish (fold (top_push fo) batches t) =
    (let matches = filter (keep_row fo res wn) (concat batches)
     in (take (wn_limit wn) (drop offset (sort_key (time_key res (wn_descending wn)) matches)), int (length matches)))"
proof -
  let ?t = "fold (top_push fo) batches t" and ?m = "filter (keep_row fo res wn) (concat batches)"
  let ?s = "sort_key (time_key res (wn_descending wn)) ?m"
  have "top_inv fo res wn offset [] t" using assms(1) by (auto simp: top_new_def top_inv_def split: sum.splits)
  from top_inv_fold [OF this, of batches] have inv: "top_inv fo res wn offset (concat batches) ?t" by simp
  then have k: "keep_count ?t = offset + wn_limit wn" using assms(2) by (simp add: top_inv_def keep_count_def)
  have "tp_kept (top_compact ?t) = take (offset + wn_limit wn) ?s"
    using inv k by (simp add: top_inv_def top_compact_def)
  moreover have "drop (min offset (length xs)) xs = drop offset xs" for xs :: "'a db_record list" by (simp add: min_def)
  ultimately have "top_finish ?t = (drop offset (take (offset + wn_limit wn) ?s), int (length ?m))"
    using inv by (simp add: top_finish_def top_inv_def top_compact_def Let_def)
  then show ?thesis by (simp add: drop_take Let_def)
qed

subsection \<open>Properties\<close>


definition sample_columns :: "column list" where
  "sample_columns = [\<lparr>col_name = ''at'', col_kind = KTimestamp, col_role = RoleTimestamp\<rparr>,
     \<lparr>col_name = ''device'', col_kind = KString, col_role = RoleTag\<rparr>, \<lparr>col_name = ''n'', col_kind = KInt, col_role = RoleField\<rparr>]"

definition sample_resource :: resource where
  "sample_resource = \<lparr>res_name = ''points'', res_table = ''points'', res_columns = sample_columns\<rparr>"

lemma sample_resource_new: "resource_new (\<lambda>s. s) ''points'' sample_columns = Inr sample_resource"
  by code_simp

definition no_floats :: "unit float_ops" where
  "no_floats = \<lparr>ff_of_int = (\<lambda>_. ()), ff_cmp = (\<lambda>_ _. None), ff_finite = (\<lambda>_. False)\<rparr>"

definition sample_row :: "int \<Rightarrow> string \<Rightarrow> unit db_record" where
  "sample_row t d = [(''at'', JInt t), (''device'', JString d), (''n'', JInt 1)]"


definition sample_window :: "unit window" where
  "sample_window = \<lparr>wn_start = 0, wn_end = 10, wn_limit = 1, wn_descending = False, wn_predicates = []\<rparr>"

end
