(* ===== verification/Ingest.thy ===== *)
theory Ingest
  imports Store
begin

text \<open>
  Background ingestion of the database crate: bounds (\<open>src/database/src/ingest/config.rs\<close>), admission
  (\<open>admission.rs\<close>, \<open>writer.rs\<close>), one batch write (\<open>batch.rs\<close>) and the worker (\<open>worker.rs\<close>).

  The worker is a transition system. Each branch of its \<open>select!\<close>, each completion of a batch in flight and
  each return is one step; producers, the timer and the backend take steps in any order between them. The
  fields \<open>ig_log\<close>, \<open>ig_taken\<close>, \<open>ig_launched\<close>, \<open>ig_written\<close>, \<open>ig_refused\<close> and \<open>ig_lost\<close> are a history the code does
  not keep: what was admitted, what the worker took from the queue, which batches it launched, how they ended
  and what was dropped with the queue. Spans and queue-depth counters are left out.
\<close>

subsection \<open>Bounds\<close>

record ingest_config =
  batch_size :: nat
  queue_capacity :: nat
  flush_interval :: nat
  write_timeout :: nat
  max_record_bytes :: nat
  max_inflight :: nat

definition ingest_default :: ingest_config where
  "ingest_default = \<lparr>batch_size = 500, queue_capacity = 1024, flush_interval = 1000000000,
     write_timeout = 30000000000, max_record_bytes = 65536, max_inflight = 1\<rparr>"

definition ingest_bounds_message :: string where
  "ingest_bounds_message =
     ''ingestion needs positive capacities, batch <=10000, 1..=64 in flight, and deadlines <=24h''"

definition ingest_validate :: "ingest_config \<Rightarrow> unit db_result" where
  "ingest_validate cfg =
     (if \<not> (1 \<le> batch_size cfg \<and> batch_size cfg \<le> 10000) \<or> queue_capacity cfg = 0 \<or> max_record_bytes cfg = 0 \<or>
         \<not> (1 \<le> max_inflight cfg \<and> max_inflight cfg \<le> 64) \<or> flush_interval cfg = 0 \<or> write_timeout cfg = 0 \<or>
         flush_interval cfg > 86400 * 1000000000 \<or> write_timeout cfg > 86400 * 1000000000
      then Inl (Invalid ingest_bounds_message) else Inr ())"

subsection \<open>State\<close>

datatype 'r command = CmdAppend 'r | CmdFlush nat

text \<open>Where the worker is: in its loop; draining after a failed batch, for a flush, or because every sender is
  gone; returned from \<open>run\<close>; or past the recording of its failure in \<open>start\<close>.\<close>

datatype worker_phase =
    Looping
  | DrainFailed db_error
  | DrainFlush nat "unit db_result"
  | DrainClose "unit db_result"
  | Returned "unit db_result"
  | Finished "unit db_result"

record 'r ingest =
  ig_queue :: "'r command list"
  ig_senders :: bool
  ig_receiver :: bool
  ig_pending :: "'r list"
  ig_inflight :: "'r list list"
  ig_phase :: worker_phase
  ig_failure :: "db_error option"
  ig_replies :: "(nat \<times> unit db_result) list"
  ig_log :: "'r command list"
  ig_taken :: "'r command list"
  ig_launched :: "'r list list"
  ig_written :: "'r list list"
  ig_refused :: "'r list list"
  ig_lost :: "'r command list"

definition ingest_idle :: "'r ingest" where
  "ingest_idle = \<lparr>ig_queue = [], ig_senders = True, ig_receiver = True, ig_pending = [], ig_inflight = [],
     ig_phase = Looping, ig_failure = None, ig_replies = [], ig_log = [], ig_taken = [], ig_launched = [],
     ig_written = [], ig_refused = [], ig_lost = []\<rparr>"

text \<open>\<open>BatchWriter::observed\<close>: the configuration is checked, a runtime is required, then the worker starts.\<close>

definition ingest_new :: "bool \<Rightarrow> ingest_config \<Rightarrow> 'r ingest db_result" where
  "ingest_new runtime cfg =
     (case ingest_validate cfg of
        Inl e \<Rightarrow> Inl e
      | Inr _ \<Rightarrow> if runtime then Inr ingest_idle else Inl (Invalid ''batch writer needs a Tokio runtime''))"

subsection \<open>Producers\<close>

datatype 'a admission = Rejected db_error | Waiting | Admitted 'a

definition ingest_stopped :: "'r ingest \<Rightarrow> db_error" where
  "ingest_stopped st = (case ig_failure st of Some e \<Rightarrow> Ingestion e | None \<Rightarrow> Closed)"

text \<open>Sending to the bounded channel: refused once the receiver is gone, waiting while the queue is full.\<close>

definition ingest_send :: "ingest_config \<Rightarrow> 'r command \<Rightarrow> 'r ingest \<Rightarrow> 'r ingest admission" where
  "ingest_send cfg c st =
     (if \<not> ig_receiver st then Rejected (ingest_stopped st)
      else if length (ig_queue st) \<ge> queue_capacity cfg then Waiting
      else Admitted (st\<lparr>ig_queue := ig_queue st @ [c], ig_log := ig_log st @ [c]\<rparr>))"

definition ingest_write ::
  "ingest_config \<Rightarrow> ('r \<Rightarrow> unit db_result) \<Rightarrow> ('r \<Rightarrow> nat db_result) \<Rightarrow> 'r \<Rightarrow> 'r ingest \<Rightarrow> 'r ingest admission" where
  "ingest_write cfg validate json_size r st =
     (case validate r of
        Inl e \<Rightarrow> Rejected e
      | Inr _ \<Rightarrow>
          (case json_size r of
             Inl e \<Rightarrow> Rejected e
           | Inr n \<Rightarrow>
               if n > max_record_bytes cfg then Rejected (Invalid ''point exceeds ingestion byte limit'')
               else ingest_send cfg (CmdAppend r) st))"

definition ingest_flush :: "ingest_config \<Rightarrow> nat \<Rightarrow> 'r ingest \<Rightarrow> 'r ingest admission" where
  "ingest_flush cfg k st = ingest_send cfg (CmdFlush k) st"

text \<open>What a flush that was sent returns: its reply, or \<open>stopped\<close> once the reply channel is dropped.\<close>

definition flush_result :: "'r ingest \<Rightarrow> nat \<Rightarrow> unit db_result option" where
  "flush_result st k =
     (case map_of (ig_replies st) k of
        Some (Inl e) \<Rightarrow> Some (Inl (Ingestion e))
      | Some (Inr _) \<Rightarrow> Some (Inr ())
      | None \<Rightarrow> if ig_receiver st then None else Some (Inl (ingest_stopped st)))"

definition ingest_close :: "'r ingest \<Rightarrow> 'r ingest" where
  "ingest_close st = st\<lparr>ig_senders := False\<rparr>"

definition close_result :: "'r ingest \<Rightarrow> unit db_result option" where
  "close_result st =
     (case ig_phase st of
        Finished (Inl e) \<Rightarrow> Some (Inl (Ingestion e)) | Finished (Inr _) \<Rightarrow> Some (Inr ()) | _ \<Rightarrow> None)"

subsection \<open>The worker\<close>

datatype backend_reply = Accepted | Refused db_error | TimedOut

text \<open>One batch write: an empty batch makes no call.\<close>

definition batch_outcome :: "'r list \<Rightarrow> backend_reply \<Rightarrow> unit db_result" where
  "batch_outcome entries reply =
     (if entries = [] then Inr ()
      else case reply of Accepted \<Rightarrow> Inr () | Refused e \<Rightarrow> Inl e | TimedOut \<Rightarrow> Inl Timeout)"

definition launch :: "'r ingest \<Rightarrow> 'r ingest" where
  "launch st = st\<lparr>ig_pending := [], ig_inflight := ig_inflight st @ [ig_pending st],
     ig_launched := ig_launched st @ [ig_pending st]\<rparr>"

definition room :: "ingest_config \<Rightarrow> 'r ingest \<Rightarrow> bool" where
  "room cfg st \<longleftrightarrow> ig_phase st = Looping \<and> length (ig_inflight st) < max_inflight cfg"

definition worker_append :: "ingest_config \<Rightarrow> 'r \<Rightarrow> 'r ingest \<Rightarrow> 'r ingest" where
  "worker_append cfg r st =
     (let st1 = st\<lparr>ig_pending := ig_pending st @ [r]\<rparr>
      in if length (ig_pending st1) \<ge> batch_size cfg then launch st1 else st1)"

text \<open>The branch that receives a command.\<close>

definition worker_receive :: "ingest_config \<Rightarrow> 'r ingest \<Rightarrow> 'r ingest option" where
  "worker_receive cfg st =
     (if \<not> room cfg st then None
      else case ig_queue st of
        c # q \<Rightarrow>
          let st1 = st\<lparr>ig_queue := q, ig_taken := ig_taken st @ [c]\<rparr>
          in (case c of
                CmdAppend r \<Rightarrow> Some (worker_append cfg r st1)
              | CmdFlush k \<Rightarrow> Some ((launch st1)\<lparr>ig_phase := DrainFlush k (Inr ())\<rparr>))
      | [] \<Rightarrow> if ig_senders st then None else Some ((launch st)\<lparr>ig_phase := DrainClose (Inr ())\<rparr>))"

definition worker_tick :: "ingest_config \<Rightarrow> 'r ingest \<Rightarrow> 'r ingest option" where
  "worker_tick cfg st = (if room cfg st \<and> ig_pending st \<noteq> [] then Some (launch st) else None)"

definition keep_first :: "unit db_result \<Rightarrow> unit db_result \<Rightarrow> unit db_result" where
  "keep_first first done1 = (if first = Inr () then done1 else first)"

text \<open>The batch at position \<open>i\<close> of those in flight completes.\<close>

definition settle :: "nat \<Rightarrow> unit db_result \<Rightarrow> 'r ingest \<Rightarrow> 'r ingest" where
  "settle i out st =
     (let st1 = st\<lparr>ig_inflight := take i (ig_inflight st) @ drop (Suc i) (ig_inflight st)\<rparr>
      in if out = Inr () then st1\<lparr>ig_written := ig_written st @ [ig_inflight st ! i]\<rparr>
         else st1\<lparr>ig_refused := ig_refused st @ [ig_inflight st ! i]\<rparr>)"

definition worker_done :: "nat \<Rightarrow> backend_reply \<Rightarrow> 'r ingest \<Rightarrow> 'r ingest option" where
  "worker_done i reply st =
     (if i \<ge> length (ig_inflight st) then None
      else let out = batch_outcome (ig_inflight st ! i) reply; st1 = settle i out st
           in case ig_phase st of
                Looping \<Rightarrow> Some (case out of Inr _ \<Rightarrow> st1 | Inl e \<Rightarrow> st1\<lparr>ig_phase := DrainFailed e\<rparr>)
              | DrainFailed e \<Rightarrow> Some st1
              | DrainFlush k first \<Rightarrow> Some (st1\<lparr>ig_phase := DrainFlush k (keep_first first out)\<rparr>)
              | DrainClose first \<Rightarrow> Some (st1\<lparr>ig_phase := DrainClose (keep_first first out)\<rparr>)
              | _ \<Rightarrow> None)"

text \<open>Nothing left in flight: the drain ends.\<close>

definition worker_drained :: "'r ingest \<Rightarrow> 'r ingest option" where
  "worker_drained st =
     (if ig_inflight st \<noteq> [] then None
      else case ig_phase st of
          DrainFailed e \<Rightarrow> Some (st\<lparr>ig_phase := Returned (Inl e)\<rparr>)
        | DrainFlush k first \<Rightarrow>
            Some (st\<lparr>ig_replies := ig_replies st @ [(k, first)],
              ig_phase := (case first of Inr _ \<Rightarrow> Looping | Inl e \<Rightarrow> Returned (Inl e))\<rparr>)
        | DrainClose first \<Rightarrow> Some (st\<lparr>ig_phase := Returned first\<rparr>)
        | _ \<Rightarrow> None)"

text \<open>\<open>start\<close> records a failure before its own end drops the receiver and what is still queued.\<close>

definition worker_record :: "'r ingest \<Rightarrow> 'r ingest option" where
  "worker_record st =
     (case ig_phase st of
        Returned out \<Rightarrow>
          Some (st\<lparr>ig_failure := (case out of Inl e \<Rightarrow> Some e | Inr _ \<Rightarrow> ig_failure st), ig_phase := Finished out\<rparr>)
      | _ \<Rightarrow> None)"

definition worker_drop :: "'r ingest \<Rightarrow> 'r ingest option" where
  "worker_drop st =
     (case ig_phase st of
        Finished _ \<Rightarrow>
          if ig_receiver st then Some (st\<lparr>ig_receiver := False, ig_lost := ig_queue st, ig_queue := []\<rparr>) else None
      | _ \<Rightarrow> None)"

inductive worker_step :: "ingest_config \<Rightarrow> 'r ingest \<Rightarrow> 'r ingest \<Rightarrow> bool" for cfg where
  ws_receive: "worker_receive cfg st = Some st' \<Longrightarrow> worker_step cfg st st'"
| ws_tick: "worker_tick cfg st = Some st' \<Longrightarrow> worker_step cfg st st'"
| ws_done: "worker_done i reply st = Some st' \<Longrightarrow> worker_step cfg st st'"
| ws_drained: "worker_drained st = Some st' \<Longrightarrow> worker_step cfg st st'"
| ws_record: "worker_record st = Some st' \<Longrightarrow> worker_step cfg st st'"
| ws_drop: "worker_drop st = Some st' \<Longrightarrow> worker_step cfg st st'"

text \<open>A whole system: a producer sends (each flush has a reply channel of its own), the owner closes, or the
  worker moves.\<close>

inductive ingest_step :: "ingest_config \<Rightarrow> 'r ingest \<Rightarrow> 'r ingest \<Rightarrow> bool" for cfg where
  is_append: "ig_senders st \<Longrightarrow> ingest_send cfg (CmdAppend r) st = Admitted st' \<Longrightarrow> ingest_step cfg st st'"
| is_flush: "ig_senders st \<Longrightarrow> CmdFlush k \<notin> set (ig_log st) \<Longrightarrow> ingest_flush cfg k st = Admitted st' \<Longrightarrow>
    ingest_step cfg st st'"
| is_close: "ingest_step cfg st (ingest_close st)"
| is_worker: "worker_step cfg st st' \<Longrightarrow> ingest_step cfg st st'"

definition ingest_reachable :: "ingest_config \<Rightarrow> 'r ingest \<Rightarrow> bool" where
  "ingest_reachable cfg st \<longleftrightarrow> (ingest_step cfg)\<^sup>*\<^sup>* ingest_idle st"

inductive_cases worker_stepE: "worker_step cfg st st'"
inductive_cases ingest_stepE: "ingest_step cfg st st'"

subsection \<open>Invariants\<close>

fun appends :: "'r command list \<Rightarrow> 'r list" where
  "appends [] = []"
| "appends (CmdAppend r # cs) = r # appends cs"
| "appends (CmdFlush k # cs) = appends cs"

lemma appends_append [simp]: "appends (cs @ ds) = appends cs @ appends ds"
  by (induction cs rule: appends.induct) auto

lemma mset_settle: "i < length xs \<Longrightarrow> mset (take i xs) + mset (drop (Suc i) xs) + {#xs ! i#} = mset xs"
  using id_take_nth_drop [of i xs] by (metis (no_types) add_mset_add_single mset.simps(2) mset_append union_mset_add_mset_right)

lemma mset_concat_cong: "mset xs = mset ys \<Longrightarrow> mset (concat xs) = mset (concat ys)"
proof -
  assume "mset xs = mset ys"
  then have "mset (map mset xs) = mset (map mset ys)" by simp
  then show ?thesis by (metis mset_concat sum_mset_sum_list)
qed

lemmas worker_defs = worker_receive_def worker_append_def worker_tick_def worker_done_def worker_drained_def
  worker_record_def worker_drop_def settle_def launch_def room_def batch_outcome_def keep_first_def

lemmas worker_splits = if_splits list.splits command.splits option.splits sum.splits worker_phase.splits
  backend_reply.splits

text \<open>Where every record is.\<close>

definition records_inv :: "'r ingest \<Rightarrow> bool" where
  "records_inv st \<longleftrightarrow> ig_log st = ig_taken st @ ig_queue st @ ig_lost st \<and>
     appends (ig_taken st) = concat (ig_launched st) @ ig_pending st \<and>
     mset (ig_launched st) = mset (ig_inflight st) + mset (ig_written st) + mset (ig_refused st) \<and>
     (ig_receiver st \<longrightarrow> ig_lost st = [])"

text \<open>What each phase of the worker guarantees.\<close>

definition ended_inv :: "unit db_result \<Rightarrow> 'r ingest \<Rightarrow> bool" where
  "ended_inv out st \<longleftrightarrow> ig_inflight st = [] \<and>
     (if out = Inr () then ig_refused st = [] \<and> ig_pending st = [] \<and> ig_queue st = [] \<and> ig_lost st = [] \<and> \<not> ig_senders st
      else ig_refused st \<noteq> [])"

definition phase_inv :: "ingest_config \<Rightarrow> 'r ingest \<Rightarrow> bool" where
  "phase_inv cfg st \<longleftrightarrow>
     (case ig_phase st of
        Looping \<Rightarrow> ig_refused st = [] \<and> length (ig_pending st) < batch_size cfg
      | DrainFailed e \<Rightarrow> ig_refused st \<noteq> []
      | DrainFlush k first \<Rightarrow> ig_pending st = [] \<and> (first = Inr () \<longleftrightarrow> ig_refused st = []) \<and>
          (\<exists>ts. ig_taken st = ts @ [CmdFlush k])
      | DrainClose first \<Rightarrow> ig_pending st = [] \<and> ig_queue st = [] \<and> \<not> ig_senders st \<and>
          (first = Inr () \<longleftrightarrow> ig_refused st = [])
      | Returned out \<Rightarrow> ended_inv out st
      | Finished out \<Rightarrow> ended_inv out st) \<and>
     ig_failure st = (case ig_phase st of Finished (Inl e) \<Rightarrow> Some e | _ \<Rightarrow> None) \<and>
     (\<not> ig_receiver st \<longrightarrow> (\<exists>out. ig_phase st = Finished out)) \<and>
     (ig_receiver st \<longrightarrow> ig_lost st = [])"

definition bounds_inv :: "ingest_config \<Rightarrow> 'r ingest \<Rightarrow> bool" where
  "bounds_inv cfg st \<longleftrightarrow> length (ig_queue st) \<le> queue_capacity cfg \<and>
     length (ig_inflight st) \<le> max_inflight cfg \<and>
     (\<forall>b\<in>set (ig_launched st). length b \<le> batch_size cfg) \<and> length (ig_pending st) \<le> batch_size cfg"

text \<open>A flush answered with success covers every record admitted before it.\<close>

definition flush_inv :: "'r ingest \<Rightarrow> bool" where
  "flush_inv st \<longleftrightarrow> (\<forall>k. (k, Inr ()) \<in> set (ig_replies st) \<longrightarrow>
     (\<exists>ts us. ig_taken st = ts @ CmdFlush k # us \<and> mset (appends ts) \<subseteq># mset (concat (ig_written st))))"

lemma inv_phase [simp]:
  "records_inv (st\<lparr>ig_phase := p\<rparr>) = records_inv st" "records_inv (st\<lparr>ig_replies := rs\<rparr>) = records_inv st"
  "records_inv (st\<lparr>ig_failure := f\<rparr>) = records_inv st" "bounds_inv cfg (st\<lparr>ig_phase := p\<rparr>) = bounds_inv cfg st"
  "bounds_inv cfg (st\<lparr>ig_replies := rs\<rparr>) = bounds_inv cfg st" "bounds_inv cfg (st\<lparr>ig_failure := f\<rparr>) = bounds_inv cfg st"
  "flush_inv (st\<lparr>ig_phase := p\<rparr>) = flush_inv st" "flush_inv (st\<lparr>ig_failure := f\<rparr>) = flush_inv st"
  by (simp_all add: records_inv_def bounds_inv_def flush_inv_def)

lemma worker_receiveE:
  assumes "worker_receive cfg st = Some st'"
  obtains (append) r q where "room cfg st" "ig_queue st = CmdAppend r # q"
      "st' = worker_append cfg r (st\<lparr>ig_queue := q, ig_taken := ig_taken st @ [CmdAppend r]\<rparr>)"
    | (flush) k q where "room cfg st" "ig_queue st = CmdFlush k # q"
      "st' = (launch (st\<lparr>ig_queue := q, ig_taken := ig_taken st @ [CmdFlush k]\<rparr>))\<lparr>ig_phase := DrainFlush k (Inr ())\<rparr>"
    | (close) "room cfg st" "ig_queue st = []" "\<not> ig_senders st" "st' = (launch st)\<lparr>ig_phase := DrainClose (Inr ())\<rparr>"
  using assms by (auto simp: worker_receive_def Let_def split: if_splits list.splits command.splits)

lemma worker_doneE:
  assumes "worker_done i reply st = Some st'"
  obtains p where "i < length (ig_inflight st)" "st' = (settle i (batch_outcome (ig_inflight st ! i) reply) st)\<lparr>ig_phase := p\<rparr>"
proof -
  let ?st1 = "settle i (batch_outcome (ig_inflight st ! i) reply) st"
  have p: "?st1\<lparr>ig_phase := ig_phase st\<rparr> = ?st1" by (simp add: settle_def Let_def)
  have "\<exists>p. st' = ?st1\<lparr>ig_phase := p\<rparr>"
    using assms p by (auto simp: worker_done_def Let_def split: if_splits worker_phase.splits sum.splits) metis+
  moreover have "i < length (ig_inflight st)" using assms by (simp add: worker_done_def split: if_splits)
  ultimately show ?thesis using that by blast
qed

lemma records_inv_launch [simp]: "records_inv st \<Longrightarrow> records_inv (launch st)"
  by (simp add: records_inv_def launch_def)

lemma records_inv_settle: "i < length (ig_inflight st) \<Longrightarrow> records_inv st \<Longrightarrow> records_inv (settle i out st)"
  using mset_settle [of i "ig_inflight st"] by (auto simp: records_inv_def settle_def Let_def)

lemma records_inv_worker: "worker_step cfg st st' \<Longrightarrow> records_inv st \<Longrightarrow> records_inv st'"
proof (erule worker_stepE)
  assume "worker_receive cfg st = Some st'" "records_inv st"
  then show "records_inv st'"
    by (elim worker_receiveE) (auto simp: records_inv_def worker_append_def launch_def Let_def)
next
  fix i reply assume "worker_done i reply st = Some st'" "records_inv st"
  then show "records_inv st'" by (elim worker_doneE) (simp add: records_inv_settle)
qed (auto simp: worker_tick_def worker_drained_def worker_record_def worker_drop_def records_inv_def launch_def
    split: if_splits worker_phase.splits)

lemma validate_positive: "ingest_validate cfg = Inr () \<Longrightarrow> 0 < batch_size cfg \<and> 0 < max_inflight cfg \<and> 0 < queue_capacity cfg"
  by (auto simp: ingest_validate_def split: if_splits)

lemma phase_inv_receive:
  assumes "worker_receive cfg st = Some st'" "ingest_validate cfg = Inr ()" "phase_inv cfg st"
  shows "phase_inv cfg st'"
  using assms validate_positive [OF assms(2)]
  by (elim worker_receiveE) (auto simp: phase_inv_def room_def worker_append_def launch_def Let_def)

lemma phase_inv_done:
  assumes "worker_done i reply st = Some st'" "phase_inv cfg st"
  shows "phase_inv cfg st'"
  using assms
  by (cases "batch_outcome (ig_inflight st ! i) reply"; cases "ig_phase st")
    (auto simp: worker_done_def phase_inv_def settle_def keep_first_def Let_def ended_inv_def split: if_splits)

lemma phase_inv_worker:
  assumes "worker_step cfg st st'" "ingest_validate cfg = Inr ()" "phase_inv cfg st"
  shows "phase_inv cfg st'"
  using assms(1)
proof cases
  case ws_receive then show ?thesis using assms phase_inv_receive by blast
next
  case (ws_done i reply) then show ?thesis using assms phase_inv_done by blast
next
  case ws_tick then show ?thesis
    using assms validate_positive [OF assms(2)] by (auto simp: worker_tick_def phase_inv_def launch_def room_def split: if_splits)
next
  case ws_drained then show ?thesis
    using assms(3) validate_positive [OF assms(2)]
    by (cases "ig_phase st")
      (auto simp: worker_drained_def phase_inv_def ended_inv_def split: if_splits sum.splits worker_phase.splits)
next
  case ws_record then show ?thesis
    using assms(3) by (cases "ig_phase st")
      (auto simp: worker_record_def phase_inv_def ended_inv_def split: sum.splits if_splits)
next
  case ws_drop then show ?thesis
    using assms(3) by (cases "ig_phase st") (auto simp: worker_drop_def phase_inv_def ended_inv_def split: if_splits)
qed

lemma bounds_inv_worker:
  assumes "worker_step cfg st st'" "phase_inv cfg st" "bounds_inv cfg st"
  shows "bounds_inv cfg st'"
  using assms(1)
proof cases
  case ws_receive then show ?thesis using assms(2,3)
    by (elim worker_receiveE) (auto simp: bounds_inv_def phase_inv_def room_def worker_append_def launch_def Let_def)
next
  case (ws_done i reply) then show ?thesis using assms(3)
    by (elim worker_doneE) (auto simp: bounds_inv_def settle_def Let_def)
next
  case ws_tick then show ?thesis using assms(3) by (auto simp: worker_tick_def bounds_inv_def launch_def room_def split: if_splits)
next
  case ws_drained then show ?thesis using assms(3)
    by (auto simp: worker_drained_def bounds_inv_def split: if_splits worker_phase.splits)
next
  case ws_record then show ?thesis using assms(3) by (auto simp: worker_record_def bounds_inv_def split: worker_phase.splits)
next
  case ws_drop then show ?thesis using assms(3) by (auto simp: worker_drop_def bounds_inv_def split: if_splits worker_phase.splits)
qed

text \<open>Taking more commands and writing more batches keeps what was acknowledged.\<close>

lemma flush_inv_grow:
  assumes "flush_inv st" "ig_replies st' = ig_replies st" "\<exists>cs. ig_taken st' = ig_taken st @ cs" "\<exists>bs. ig_written st' = ig_written st @ bs"
  shows "flush_inv st'"
proof -
  obtain cs bs where g: "ig_taken st' = ig_taken st @ cs" "ig_written st' = ig_written st @ bs" using assms by blast
  have "\<exists>ts us. ig_taken st' = ts @ CmdFlush k # us \<and> mset (appends ts) \<subseteq># mset (concat (ig_written st'))"
    if k: "(k, Inr ()) \<in> set (ig_replies st)" for k
  proof -
    obtain ts us where "ig_taken st = ts @ CmdFlush k # us" "mset (appends ts) \<subseteq># mset (concat (ig_written st))"
      using assms(1) k unfolding flush_inv_def by blast
    with g show ?thesis
      by (intro exI [of _ ts] exI [of _ "us @ cs"]) (simp add: subset_mset.add_increasing2)
  qed
  then show ?thesis using assms(2) by (simp add: flush_inv_def)
qed

lemma flush_inv_drained:
  assumes "worker_drained st = Some st'" "phase_inv cfg st" "records_inv st" "flush_inv st"
  shows "flush_inv st'"
proof (cases "\<exists>k. ig_phase st = DrainFlush k (Inr ())")
  case True
  then obtain k where ph: "ig_phase st = DrainFlush k (Inr ())" by blast
  with assms(2) obtain ts where k: "ig_phase st = DrainFlush k (Inr ())" "ig_taken st = ts @ [CmdFlush k]"
    "ig_pending st = []" "ig_refused st = []"
    by (auto simp: phase_inv_def)
  have st: "ig_inflight st = []" "st' = st\<lparr>ig_replies := ig_replies st @ [(k, Inr ())], ig_phase := Looping\<rparr>"
    using assms(1) k(1) by (auto simp: worker_drained_def split: if_splits)
  have "mset (ig_launched st) = mset (ig_written st)" "appends ts = concat (ig_launched st)"
    using assms(3) k st(1) by (auto simp: records_inv_def)
  then have "mset (appends ts) = mset (concat (ig_written st))" using mset_concat_cong by metis
  then show ?thesis using assms(4) k(2) st(2) by (auto simp: flush_inv_def)
next
  case False
  then show ?thesis using assms(1,4)
    by (cases "ig_phase st") (auto simp: worker_drained_def flush_inv_def split: if_splits sum.splits)
qed

lemma flush_inv_worker:
  assumes "worker_step cfg st st'" "phase_inv cfg st" "records_inv st" "flush_inv st"
  shows "flush_inv st'"
  using assms(1)
proof cases
  case ws_receive
  then show ?thesis by (elim worker_receiveE) (auto intro!: flush_inv_grow [OF assms(4)] simp: worker_append_def launch_def Let_def)
next
  case (ws_done i reply)
  then show ?thesis by (elim worker_doneE) (auto intro!: flush_inv_grow [OF assms(4)] simp: settle_def Let_def)
next
  case ws_drained then show ?thesis using assms flush_inv_drained by blast
qed (auto intro!: flush_inv_grow [OF assms(4)] simp: worker_tick_def worker_record_def worker_drop_def launch_def
    split: if_splits worker_phase.splits)

lemma ingest_send_cases:
  assumes "ingest_send cfg c st = Admitted st'"
  shows "ig_receiver st \<and> length (ig_queue st) < queue_capacity cfg \<and>
    st' = st\<lparr>ig_queue := ig_queue st @ [c], ig_log := ig_log st @ [c]\<rparr>"
  using assms by (auto simp: ingest_send_def split: if_splits)

definition ingest_inv :: "ingest_config \<Rightarrow> 'r ingest \<Rightarrow> bool" where
  "ingest_inv cfg st \<longleftrightarrow> records_inv st \<and> phase_inv cfg st \<and> bounds_inv cfg st \<and> flush_inv st"

lemma ingest_inv_send:
  assumes "ig_senders st" "ingest_send cfg c st = Admitted st'" "ingest_inv cfg st"
  shows "ingest_inv cfg st'"
proof -
  note s = ingest_send_cases [OF assms(2)]
  have "records_inv st'" "bounds_inv cfg st'" "flush_inv st'"
    using s assms(3) by (auto simp: ingest_inv_def records_inv_def bounds_inv_def flush_inv_def)
  moreover have "phase_inv cfg st'"
    using s assms(1,3) by (auto simp: ingest_inv_def phase_inv_def ended_inv_def split: worker_phase.splits if_splits)
  ultimately show ?thesis by (simp add: ingest_inv_def)
qed

lemma ingest_inv_step:
  assumes "ingest_step cfg st st'" "ingest_validate cfg = Inr ()" "ingest_inv cfg st"
  shows "ingest_inv cfg st'"
  using assms(1)
proof cases
  case is_close
  then show ?thesis using assms(3)
    by (auto simp: ingest_inv_def ingest_close_def records_inv_def bounds_inv_def flush_inv_def phase_inv_def ended_inv_def
        split: worker_phase.splits if_splits)
next
  case is_worker
  then show ?thesis
    using assms(2,3) records_inv_worker phase_inv_worker bounds_inv_worker flush_inv_worker unfolding ingest_inv_def by blast
qed (use assms(3) ingest_inv_send in \<open>auto simp: ingest_flush_def\<close>)

lemma ingest_inv_idle: "ingest_validate cfg = Inr () \<Longrightarrow> ingest_inv cfg ingest_idle"
  using validate_positive [of cfg]
  by (simp add: ingest_inv_def ingest_idle_def records_inv_def bounds_inv_def flush_inv_def phase_inv_def)

lemma reachable_inv:
  assumes "ingest_reachable cfg st" "ingest_validate cfg = Inr ()"
  shows "ingest_inv cfg st"
  using assms(1) unfolding ingest_reachable_def
  by (induction rule: rtranclp_induct) (use assms(2) ingest_inv_idle ingest_inv_step in blast)+

subsection \<open>Termination\<close>

fun phase_weight :: "worker_phase \<Rightarrow> nat" where
  "phase_weight (Finished _) = 0"
| "phase_weight (Returned _) = 1"
| "phase_weight (DrainFailed _) = 2"
| "phase_weight (DrainClose _) = 2"
| "phase_weight Looping = 4"
| "phase_weight (DrainFlush _ _) = 5"

definition ingest_weight :: "'r ingest \<Rightarrow> nat" where
  "ingest_weight st = 4 * length (ig_queue st) + 2 * length (ig_pending st) + length (ig_inflight st) +
     phase_weight (ig_phase st) + (if ig_receiver st then 1 else 0)"

lemma worker_step_weight:
  assumes "worker_step cfg st st'"
  shows "ingest_weight st' < ingest_weight st"
  using assms
proof cases
  case ws_receive then show ?thesis
    by (elim worker_receiveE) (auto simp: ingest_weight_def room_def worker_append_def launch_def Let_def)
next
  case (ws_done i reply) then show ?thesis
    by (cases "ig_phase st") (auto simp: worker_done_def ingest_weight_def settle_def Let_def split: if_splits sum.splits)
next
  case ws_tick then show ?thesis
    by (cases "ig_pending st") (auto simp: worker_tick_def ingest_weight_def launch_def split: if_splits)
next
  case ws_drained then show ?thesis
    by (auto simp: worker_drained_def ingest_weight_def split: if_splits worker_phase.splits sum.splits)
qed (auto simp: worker_record_def worker_drop_def ingest_weight_def split: if_splits worker_phase.splits)

text \<open>With every sender gone the worker is never stuck before its end.\<close>

lemma worker_progress:
  assumes "ingest_validate cfg = Inr ()" "\<not> ig_senders st" "\<nexists>st'. worker_step cfg st st'"
  shows "\<exists>out. ig_phase st = Finished out"
proof -
  have no: "worker_receive cfg st = None" "worker_done 0 Accepted st = None" "worker_drained st = None" "worker_record st = None"
    using assms(3) worker_step.intros by (metis not_Some_eq)+
  have inflight: "ig_inflight st = []" if "\<And>out. ig_phase st \<noteq> Finished out" "\<And>out. ig_phase st \<noteq> Returned out"
    using no(2) that by (cases "ig_phase st") (auto simp: worker_done_def Let_def split: if_splits)
  show ?thesis
  proof (cases "ig_phase st")
    case Looping
    then have "room cfg st" using inflight validate_positive [OF assms(1)] by (simp add: room_def)
    then show ?thesis using no(1) assms(2) by (auto simp: worker_receive_def Let_def split: list.splits command.splits)
  qed (use no inflight in \<open>auto simp: worker_drained_def worker_record_def split: if_splits\<close>)
qed

lemma worker_senders: "worker_step cfg st st' \<Longrightarrow> ig_senders st' = ig_senders st"
proof (erule worker_stepE)
  assume "worker_receive cfg st = Some st'"
  then show ?thesis by (elim worker_receiveE) (auto simp: worker_append_def launch_def Let_def)
next
  fix i reply assume "worker_done i reply st = Some st'"
  then show ?thesis by (elim worker_doneE) (auto simp: settle_def Let_def)
qed (auto simp: worker_tick_def worker_drained_def worker_record_def worker_drop_def launch_def
    split: if_splits worker_phase.splits)

lemma worker_steps_reachable:
  assumes "(worker_step cfg)\<^sup>*\<^sup>* st st'" "ingest_reachable cfg st"
  shows "ingest_reachable cfg st' \<and> ig_senders st' = ig_senders st"
  using assms
proof (induction rule: rtranclp_induct)
  case (step a b)
  then show ?case using is_worker worker_senders unfolding ingest_reachable_def by (metis rtranclp.rtrancl_into_rtrancl)
qed simp

subsection \<open>Runs\<close>

text \<open>A list of moves, executed.\<close>

datatype 'r move =
    MAppend 'r | MFlush nat | MClose | MReceive | MTick | MDone nat backend_reply | MDrained | MRecord | MDrop

fun ingest_move :: "ingest_config \<Rightarrow> 'r move \<Rightarrow> 'r ingest \<Rightarrow> 'r ingest option" where
  "ingest_move cfg (MAppend r) st =
     (if ig_senders st then (case ingest_send cfg (CmdAppend r) st of Admitted st' \<Rightarrow> Some st' | _ \<Rightarrow> None) else None)"
| "ingest_move cfg (MFlush k) st =
     (if ig_senders st \<and> (\<forall>c\<in>set (ig_log st). case c of CmdFlush j \<Rightarrow> j \<noteq> k | CmdAppend _ \<Rightarrow> True)
      then (case ingest_flush cfg k st of Admitted st' \<Rightarrow> Some st' | _ \<Rightarrow> None) else None)"
| "ingest_move cfg MClose st = Some (ingest_close st)"
| "ingest_move cfg MReceive st = worker_receive cfg st"
| "ingest_move cfg MTick st = worker_tick cfg st"
| "ingest_move cfg (MDone i reply) st = worker_done i reply st"
| "ingest_move cfg MDrained st = worker_drained st"
| "ingest_move cfg MRecord st = worker_record st"
| "ingest_move cfg MDrop st = worker_drop st"

fun ingest_run :: "ingest_config \<Rightarrow> 'r move list \<Rightarrow> 'r ingest \<Rightarrow> 'r ingest option" where
  "ingest_run cfg [] st = Some st"
| "ingest_run cfg (m # ms) st = (case ingest_move cfg m st of Some st' \<Rightarrow> ingest_run cfg ms st' | None \<Rightarrow> None)"

lemma ingest_move_step:
  assumes "ingest_move cfg m st = Some st'"
  shows "ingest_step cfg st st'"
proof (cases m)
  case (MAppend r)
  then show ?thesis using assms by (auto intro: is_append split: if_splits admission.splits)
next
  case (MFlush k)
  then have "CmdFlush k \<notin> set (ig_log st)" using assms by (fastforce split: if_splits)
  then show ?thesis using assms MFlush by (auto intro: is_flush split: if_splits admission.splits)
qed (use assms in \<open>auto intro: is_close is_worker worker_step.intros\<close>)

lemma ingest_run_reachable: "ingest_run cfg ms st = Some st' \<Longrightarrow> ingest_reachable cfg st \<Longrightarrow> ingest_reachable cfg st'"
  unfolding ingest_reachable_def
  by (induction ms arbitrary: st) (auto split: option.splits dest!: ingest_move_step intro: rtranclp.rtrancl_into_rtrancl)

subsection \<open>Properties\<close>

text \<open>C6: nothing lost, nothing twice. In every reachable state the admitted records, in the order of their
  admission, are those of the launched batches, then the pending ones, then those queued or dropped with the
  queue; each launched batch is in flight, written or refused, exactly once; and nothing is dropped unless a
  batch was refused.\<close>

theorem ingest_records_accounted:
  assumes "ingest_validate cfg = Inr ()" "ingest_reachable cfg st"
  shows "appends (ig_log st) = concat (ig_launched st) @ ig_pending st @ appends (ig_queue st @ ig_lost st) \<and>
    mset (ig_launched st) = mset (ig_inflight st) + mset (ig_written st) + mset (ig_refused st) \<and>
    (ig_refused st = [] \<longrightarrow> ig_lost st = [])"
proof -
  have inv: "records_inv st" "phase_inv cfg st" using reachable_inv [OF assms(2,1)] by (auto simp: ingest_inv_def)
  have "ig_lost st = []" if "ig_refused st = []"
    using inv(2) that by (cases "ig_receiver st") (auto simp: phase_inv_def ended_inv_def split: if_splits)
  then show ?thesis using inv(1) by (auto simp: records_inv_def)
qed

definition pairs_config :: ingest_config where
  "pairs_config = \<lparr>batch_size = 2, queue_capacity = 3, flush_interval = 1, write_timeout = 1, max_record_bytes = 9,
     max_inflight = 1\<rparr>"

lemma pairs_valid: "ingest_validate pairs_config = Inr ()"
  by (simp add: ingest_validate_def pairs_config_def)

definition refused_moves :: "nat move list" where
  "refused_moves = [MAppend 1, MAppend 2, MReceive, MReceive, MAppend 3, MDone 0 TimedOut, MDrained, MRecord, MDrop]"

definition flushed_moves :: "nat move list" where
  "flushed_moves = [MAppend 1, MReceive, MAppend 2, MFlush 0, MReceive, MAppend 3, MDone 0 Accepted, MReceive, MDone 0 Accepted, MDrained]"

definition run_state :: "nat move list \<Rightarrow> nat ingest" where
  "run_state ms = the (ingest_run pairs_config ms ingest_idle)"

lemma run_state_reachable:
  "ingest_run pairs_config ms ingest_idle \<noteq> None \<Longrightarrow> ingest_reachable pairs_config (run_state ms)"
  unfolding run_state_def by (rule ingest_run_reachable) (auto simp: ingest_reachable_def)

lemma refused_reachable: "ingest_reachable pairs_config (run_state refused_moves)"
  by (rule run_state_reachable) code_simp

lemma flushed_reachable: "ingest_reachable pairs_config (run_state flushed_moves)"
  by (rule run_state_reachable) code_simp

theorem ingest_records_accounted_witness:
  "appends (ig_log (run_state refused_moves)) = [1, 2, 3] \<and> ig_refused (run_state refused_moves) = [[1, 2]] \<and>
   appends (ig_log (run_state refused_moves)) = concat (ig_launched (run_state refused_moves)) @
     ig_pending (run_state refused_moves) @ appends (ig_queue (run_state refused_moves) @ ig_lost (run_state refused_moves))"
proof -
  have "appends (ig_log (run_state refused_moves)) = [1, 2, 3]" "ig_refused (run_state refused_moves) = [[1, 2]]" by code_simp+
  with ingest_records_accounted [OF pairs_valid refused_reachable] show ?thesis by blast
qed

text \<open>bounded. The queue holds at most its capacity, at most the configured number of batches is in flight
  (also while draining), and no batch is longer than the configured size.\<close>

theorem ingest_bounded:
  assumes "ingest_validate cfg = Inr ()" "ingest_reachable cfg st"
  shows "length (ig_queue st) \<le> queue_capacity cfg \<and> length (ig_inflight st) \<le> max_inflight cfg \<and>
    (\<forall>b\<in>set (ig_launched st). length b \<le> batch_size cfg)"
  using reachable_inv [OF assms(2,1)] by (auto simp: ingest_inv_def bounds_inv_def)

theorem ingest_bounded_witness:
  "ig_launched (run_state refused_moves) = [[1, 2]] \<and> (\<forall>b\<in>set (ig_launched (run_state refused_moves)). length b \<le> 2)"
proof -
  have "ig_launched (run_state refused_moves) = [[1, 2]]" "batch_size pairs_config = 2" by code_simp+
  with ingest_bounded [OF pairs_valid refused_reachable] show ?thesis by simp
qed

text \<open>C14: a flush is a barrier. When a flush returns success, every record admitted before it is in a batch the
  backend accepted, as often as it was admitted.\<close>

theorem ingest_flush_durable:
  assumes "ingest_validate cfg = Inr ()" "ingest_reachable cfg st" "flush_result st k = Some (Inr ())"
  shows "\<exists>before after. ig_log st = before @ CmdFlush k # after \<and>
    mset (appends before) \<subseteq># mset (concat (ig_written st))"
proof -
  have inv: "records_inv st" "flush_inv st" using reachable_inv [OF assms(2,1)] by (auto simp: ingest_inv_def)
  have "(k, Inr ()) \<in> set (ig_replies st)"
    using assms(3) by (auto simp: flush_result_def split: option.splits sum.splits if_splits dest: map_of_SomeD)
  then obtain ts us where "ig_taken st = ts @ CmdFlush k # us" "mset (appends ts) \<subseteq># mset (concat (ig_written st))"
    using inv(2) unfolding flush_inv_def by blast
  then show ?thesis using inv(1) by (auto simp: records_inv_def)
qed

theorem ingest_flush_durable_witness:
  "\<exists>before after. ig_log (run_state flushed_moves) = before @ CmdFlush 0 # after \<and>
     mset (appends before) \<subseteq># mset (concat (ig_written (run_state flushed_moves)))"
  by (rule ingest_flush_durable [OF pairs_valid flushed_reachable]) code_simp

text \<open>C15: closing drains. The worker makes finitely many steps on its own; once every sender is gone it stops only
  at its end, and an end without failure means that exactly the admitted records were written.\<close>

theorem ingest_close_drains:
  assumes "ingest_validate cfg = Inr ()" "ingest_reachable cfg st" "\<not> ig_senders st"
  shows "(\<nexists>f. f 0 = st \<and> (\<forall>i. worker_step cfg (f i) (f (Suc i)))) \<and>
    (\<forall>st'. (worker_step cfg)\<^sup>*\<^sup>* st st' \<and> (\<nexists>st''. worker_step cfg st' st'') \<longrightarrow>
       (\<exists>out. ig_phase st' = Finished out \<and> (close_result st' = Some (Inr ()) \<longrightarrow>
          mset (concat (ig_written st')) = mset (appends (ig_log st')))))"
proof -
  have "\<nexists>f. f 0 = st \<and> (\<forall>i. worker_step cfg (f i) (f (Suc i)))"
    using wf_no_infinite_down_chainE [OF wf_measure [of ingest_weight]] worker_step_weight by (metis in_measure)
  moreover have "\<exists>out. ig_phase st' = Finished out \<and> (close_result st' = Some (Inr ()) \<longrightarrow>
      mset (concat (ig_written st')) = mset (appends (ig_log st')))"
    if steps: "(worker_step cfg)\<^sup>*\<^sup>* st st'" and stuck: "\<nexists>st''. worker_step cfg st' st''" for st'
  proof -
    have r: "ingest_reachable cfg st'" "\<not> ig_senders st'" using worker_steps_reachable [OF steps] assms(2,3) by blast+
    then obtain out where fin: "ig_phase st' = Finished out" using worker_progress assms(1) stuck by blast
    have inv: "records_inv st'" "phase_inv cfg st'" using reachable_inv [OF r(1) assms(1)] by (auto simp: ingest_inv_def)
    have "mset (ig_launched st') = mset (ig_written st')" "appends (ig_log st') = concat (ig_launched st')" if "out = Inr ()"
      using inv fin that by (auto simp: records_inv_def phase_inv_def ended_inv_def)
    with fin show ?thesis by (auto simp: close_result_def split: sum.splits dest!: mset_concat_cong)
  qed
  ultimately show ?thesis by blast
qed

lemma closed_reachable: "ingest_reachable pairs_config (run_state [MAppend 1, MClose])"
  by (rule run_state_reachable) code_simp

theorem ingest_close_drains_witness:
  "\<not> ig_senders (run_state [MAppend 1, MClose]) \<and>
   (\<nexists>f. f 0 = run_state [MAppend 1, MClose] \<and> (\<forall>i. worker_step pairs_config (f i) (f (Suc i))))"
proof -
  have s: "\<not> ig_senders (run_state [MAppend 1, MClose])" by code_simp
  with ingest_close_drains [OF pairs_valid closed_reachable] show ?thesis by blast
qed

text \<open>C16: a failure is reported. Once the worker has gone after a refused batch, the same error answers every
  later send, every unanswered flush and the close: none of them says merely closed.\<close>

theorem ingest_failure_reported:
  assumes "ingest_validate cfg = Inr ()" "ingest_reachable cfg st" "ig_refused st \<noteq> []" "\<not> ig_receiver st"
  shows "\<exists>e. close_result st = Some (Inl (Ingestion e)) \<and>
    (\<forall>r. ingest_send cfg (CmdAppend r) st = Rejected (Ingestion e)) \<and>
    (\<forall>k. k \<notin> fst ` set (ig_replies st) \<longrightarrow> flush_result st k = Some (Inl (Ingestion e)))"
proof -
  have inv: "phase_inv cfg st" using reachable_inv [OF assms(2,1)] by (auto simp: ingest_inv_def)
  then obtain out where "ig_phase st = Finished out" "ended_inv out st"
    using assms(4) by (auto simp: phase_inv_def)
  then obtain e where e: "ig_phase st = Finished (Inl e)" using assms(3) by (cases out) (auto simp: ended_inv_def)
  then have f: "ig_failure st = Some e" using inv by (simp add: phase_inv_def)
  have "map_of (ig_replies st) k = None" if "k \<notin> fst ` set (ig_replies st)" for k using that by (simp add: map_of_eq_None_iff)
  with e f assms(4) show ?thesis by (auto simp: close_result_def ingest_send_def ingest_stopped_def flush_result_def)
qed

theorem ingest_failure_reported_witness:
  "\<exists>e. close_result (run_state refused_moves) = Some (Inl (Ingestion e)) \<and>
     (\<forall>r. ingest_send pairs_config (CmdAppend r) (run_state refused_moves) = Rejected (Ingestion e))"
proof -
  have "ig_refused (run_state refused_moves) \<noteq> []" "\<not> ig_receiver (run_state refused_moves)" by code_simp+
  from ingest_failure_reported [OF pairs_valid refused_reachable this] show ?thesis by blast
qed

end
