(* ===== verification/Seek.thy ===== *)
theory Seek
  imports Store "HOL-Library.Product_Lexorder"
begin

text \<open>
  Paging over Arrow captures (\<open>src/database/src/arrow\<close>): read order and page tokens (\<open>key.rs\<close>), blocks
  (\<open>block.rs\<close>), time bounds of closed segments (\<open>bounds.rs\<close>, \<open>segment.rs\<close>), the incremental index of a segment
  (\<open>index.rs\<close>), one page's search (\<open>search.rs\<close>), keyset paging (\<open>seek.rs\<close>) and the offset pages of earlier
  versions (\<open>pages.rs\<close>, \<open>load.rs\<close>).

  A segment file is a value: its name, the descriptor of its header, the header's length, its complete batches
  with the offset each ends at, its length (a truncated tail may follow the last batch), and its sidecar. A row is
  its decoded record. Reading from the offset of a batch yields that batch and those after it: the behaviour
  of the IPC reader that \<open>resume.rs\<close> relies on. A binary heap is the ascending list of its entries. The token
  codec (base64 over JSON) and the digest of a query are parameters.
\<close>

subsection \<open>Keys\<close>

type_synonym key_tuple = "int \<times> string \<times> nat"

record row_key =
  rk_time :: int
  rk_segment :: string
  rk_row :: nat

definition key_order :: "key_tuple \<Rightarrow> key_tuple \<Rightarrow> bool \<Rightarrow> ordering" where
  "key_order a b descending =
     (let time = cmp (fst a) (fst b); time1 = (if descending then ordering_reverse time else time)
      in ordering_then (ordering_then time1 (cmp (fst (snd a)) (fst (snd b)))) (cmp (snd (snd a)) (snd (snd b))))"

definition key_parts :: "row_key \<Rightarrow> key_tuple" where
  "key_parts k = (rk_time k, rk_segment k, rk_row k)"

definition key_owned :: "key_tuple \<Rightarrow> row_key" where
  "key_owned p = \<lparr>rk_time = fst p, rk_segment = fst (snd p), rk_row = snd (snd p)\<rparr>"

record cursor =
  cu_scope :: string
  cu_total :: int
  cu_after :: row_key

record token_codec =
  tc_encode :: "cursor \<Rightarrow> string db_result"
  tc_decode :: "string \<Rightarrow> cursor option"

definition cursor_decode :: "token_codec \<Rightarrow> string \<Rightarrow> string \<Rightarrow> cursor db_result" where
  "cursor_decode tc token scope =
     (case tc_decode tc token of
        None \<Rightarrow> Inl (Invalid ''page_token is not from this backend'')
      | Some c \<Rightarrow>
          if cu_scope c = scope then Inr c else Inl (Invalid ''page_token belongs to another query''))"

subsection \<open>Segments\<close>

record time_bounds =
  tb_min :: int
  tb_max :: int
  tb_rows :: nat

definition bounds_outside :: "time_bounds \<Rightarrow> int \<Rightarrow> int \<Rightarrow> bool" where
  "bounds_outside b start stop \<longleftrightarrow> tb_max b < start \<or> tb_min b \<ge> stop"

type_synonym 'f batch = "'f db_record list"

record 'f segment =
  sg_name :: string
  sg_resource :: resource
  sg_header :: nat
  sg_batches :: "(nat \<times> 'f batch) list"
  sg_len :: nat
  sg_bounds :: "time_bounds option"

text \<open>The batches a reader placed at \<open>offset\<close> yields, with the offsets they end at.\<close>

fun batches_from :: "nat \<Rightarrow> (nat \<times> 'f batch) list \<Rightarrow> nat \<Rightarrow> (nat \<times> 'f batch) list" where
  "batches_from pos [] offset = []"
| "batches_from pos ((stop, rows) # bs) offset =
     (if pos < offset then batches_from stop bs offset else (stop, rows) # bs)"

definition resource_matches :: "resource \<Rightarrow> resource \<Rightarrow> bool" where
  "resource_matches stored wanted \<longleftrightarrow>
     res_table stored = res_table wanted \<and> length (res_columns stored) = length (res_columns wanted) \<and>
     list_all (\<lambda>(a, b). col_name a = col_name b \<and> col_kind a = col_kind b \<and> col_role a = col_role b)
       (zip (res_columns stored) (res_columns wanted))"

subsection \<open>Blocks and the index\<close>

record block =
  bl_offset :: nat
  bl_end :: nat
  bl_first_row :: nat
  bl_rows :: nat
  bl_valid :: nat
  bl_min :: int
  bl_max :: int

definition block_new :: "nat \<Rightarrow> nat \<Rightarrow> block" where
  "block_new offset first_row = \<lparr>bl_offset = offset, bl_end = offset, bl_first_row = first_row, bl_rows = 0,
     bl_valid = 0, bl_min = 2 ^ 63 - 1, bl_max = - (2 ^ 63)\<rparr>"

definition last_row :: "block \<Rightarrow> nat" where
  "last_row b = bl_first_row b + (bl_rows b - 1)"

definition block_inside :: "block \<Rightarrow> int \<Rightarrow> int \<Rightarrow> bool" where
  "block_inside b start stop \<longleftrightarrow> bl_valid b > 0 \<and> bl_min b \<ge> start \<and> bl_max b < stop"

definition block_outside :: "block \<Rightarrow> int \<Rightarrow> int \<Rightarrow> bool" where
  "block_outside b start stop \<longleftrightarrow> bl_valid b = 0 \<or> bl_max b < start \<or> bl_min b \<ge> stop"

definition block_rows :: nat where
  "block_rows = 8192"

record segment_index =
  ix_resource :: resource
  ix_header :: nat
  ix_blocks :: "block list"
  ix_indexed :: nat
  ix_seen :: nat

definition batch_times :: "resource \<Rightarrow> 'f batch \<Rightarrow> int list" where
  "batch_times res rows = List.map_filter (row_time res) rows"

definition block_time :: "int \<Rightarrow> block \<Rightarrow> block" where
  "block_time t b = b\<lparr>bl_valid := bl_valid b + 1, bl_min := min (bl_min b) t, bl_max := max (bl_max b) t\<rparr>"

definition block_add :: "resource \<Rightarrow> nat \<times> 'f batch \<Rightarrow> block \<Rightarrow> block" where
  "block_add res b blk =
     fold block_time (batch_times res (snd b)) (blk\<lparr>bl_rows := bl_rows blk + length (snd b), bl_end := fst b\<rparr>)"

text \<open>The visitor of \<open>extended\<close>: the blocks closed so far and the block being filled.\<close>

definition index_batch :: "resource \<Rightarrow> nat \<times> 'f batch \<Rightarrow> block list \<times> block \<Rightarrow> block list \<times> block" where
  "index_batch res b s =
     (let blk = block_add res b (snd s)
      in if bl_rows blk \<ge> block_rows then (fst s @ [blk], block_new (fst b) (bl_first_row blk + bl_rows blk))
         else (fst s, blk))"

definition index_start :: "'f segment \<Rightarrow> segment_index option \<Rightarrow> segment_index" where
  "index_start sg known =
     (case known of
        Some ix \<Rightarrow>
          if ix_indexed ix \<le> sg_len sg then ix\<lparr>ix_seen := sg_len sg\<rparr>
          else \<lparr>ix_resource = sg_resource sg, ix_header = sg_header sg, ix_blocks = [], ix_indexed = sg_header sg,
                   ix_seen = sg_len sg\<rparr>
      | None \<Rightarrow> \<lparr>ix_resource = sg_resource sg, ix_header = sg_header sg, ix_blocks = [], ix_indexed = sg_header sg,
                    ix_seen = sg_len sg\<rparr>)"

definition next_row :: "block list \<Rightarrow> nat" where
  "next_row blocks = (if blocks = [] then 0 else bl_first_row (last blocks) + bl_rows (last blocks))"

text \<open>A short last block goes on filling; otherwise a new block starts where the index ended.\<close>

definition index_resume :: "segment_index \<Rightarrow> block list \<times> block" where
  "index_resume ix =
     (if ix_blocks ix \<noteq> [] \<and> bl_rows (last (ix_blocks ix)) < block_rows
      then (butlast (ix_blocks ix), last (ix_blocks ix))
      else (ix_blocks ix, block_new (ix_indexed ix) (next_row (ix_blocks ix))))"

definition extended :: "'f segment \<Rightarrow> segment_index option \<Rightarrow> segment_index db_result" where
  "extended sg known =
     (let ix = index_start sg known
      in case time_column (ix_resource ix) of
           Inl e \<Rightarrow> Inl e
         | Inr _ \<Rightarrow>
             let (kept, cur) = index_resume ix;
                 (fresh, blk) = fold (index_batch (ix_resource ix))
                   (batches_from (sg_header sg) (sg_batches sg) (ix_indexed ix)) ([], cur);
                 blocks = (if bl_rows blk > 0 then fresh @ [blk] else fresh)
             in Inr (ix\<lparr>ix_indexed := (if blocks = [] then ix_indexed ix else bl_end (last blocks)),
                       ix_blocks := kept @ blocks\<rparr>))"

type_synonym indexes = "string \<Rightarrow> segment_index option"

definition indexes_get :: "'f segment \<Rightarrow> indexes \<Rightarrow> (segment_index \<times> indexes) db_result" where
  "indexes_get sg idx =
     (case idx (sg_name sg) of
        Some ix \<Rightarrow>
          if ix_seen ix = sg_len sg then Inr (ix, idx)
          else (case extended sg (Some ix) of Inl e \<Rightarrow> Inl e | Inr ix' \<Rightarrow> Inr (ix', idx(sg_name sg \<mapsto> ix')))
      | None \<Rightarrow> (case extended sg None of Inl e \<Rightarrow> Inl e | Inr ix' \<Rightarrow> Inr (ix', idx(sg_name sg \<mapsto> ix'))))"

text \<open>The batches of a block, each with the ordinal of its first row.\<close>

fun read_upto :: "nat \<Rightarrow> nat \<Rightarrow> (nat \<times> 'f batch) list \<Rightarrow> (nat \<times> 'f batch) list" where
  "read_upto stop row [] = []"
| "read_upto stop row ((e, rows) # bs) =
     (row, rows) # (if e < stop then read_upto stop (row + length rows) bs else [])"

definition index_read :: "'f segment \<Rightarrow> block \<Rightarrow> (nat \<times> 'f batch) list" where
  "index_read sg blk =
     read_upto (bl_end blk) (bl_first_row blk) (batches_from (sg_header sg) (sg_batches sg) (bl_offset blk))"

subsection \<open>Searching\<close>

record 'f page_entry =
  en_key :: row_key
  en_record :: "'f db_record"

definition rank :: "bool \<Rightarrow> key_tuple \<Rightarrow> key_tuple" where
  "rank descending k = (if descending then - fst k else fst k, snd k)"

record 'f search =
  se_resource :: resource
  se_window :: "'f window"
  se_after :: "row_key option"
  se_capacity :: nat
  se_best :: "'f page_entry list"
  se_matched :: "int option"

definition search_new :: "resource \<Rightarrow> 'f window \<Rightarrow> row_key option \<Rightarrow> bool \<Rightarrow> 'f search db_result" where
  "search_new res wn after counting =
     (case time_column res of
        Inl e \<Rightarrow> Inl e
      | Inr _ \<Rightarrow> Inr \<lparr>se_resource = res, se_window = wn, se_after = after, se_capacity = wn_limit wn + 1, se_best = [],
                        se_matched = (if counting then Some 0 else None)\<rparr>)"

definition after_cursor :: "'f search \<Rightarrow> key_tuple \<Rightarrow> bool" where
  "after_cursor s key =
     (case se_after s of
        None \<Rightarrow> True
      | Some after \<Rightarrow> key_order key (key_parts after) (wn_descending (se_window s)) = OGreater)"

text \<open>There is room in the page, or the key beats the worst entry.\<close>

definition beats_worst :: "'f search \<Rightarrow> key_tuple \<Rightarrow> bool" where
  "beats_worst s key \<longleftrightarrow>
     length (se_best s) < se_capacity s \<or> se_best s = [] \<or>
     key_order key (key_parts (en_key (last (se_best s)))) (wn_descending (se_window s)) = OLess"

definition wanted :: "'f search \<Rightarrow> key_tuple \<Rightarrow> bool" where
  "wanted s key \<longleftrightarrow> after_cursor s key \<and> beats_worst s key"

definition needs_block :: "'f search \<Rightarrow> block \<Rightarrow> string \<Rightarrow> bool" where
  "needs_block s blk seg \<longleftrightarrow>
     (let (first, final) = (if wn_descending (se_window s) then (bl_max blk, bl_min blk) else (bl_min blk, bl_max blk))
      in after_cursor s (final, seg, last_row blk) \<and> beats_worst s (first, seg, bl_first_row blk))"

text \<open>A push onto the heap of entries, then a pop of the worst one when it is over capacity.\<close>

definition search_push :: "row_key \<Rightarrow> 'f db_record \<Rightarrow> 'f search \<Rightarrow> 'f search" where
  "search_push key r s =
     (let best = sort_key (\<lambda>e. rank (wn_descending (se_window s)) (key_parts (en_key e)))
            (se_best s @ [\<lparr>en_key = key, en_record = r\<rparr>])
      in s\<lparr>se_best := (if length best > se_capacity s then butlast best else best)\<rparr>)"

text \<open>The rows of a batch with a time inside the window, with their keys.\<close>

fun inside_rows :: "resource \<Rightarrow> 'f window \<Rightarrow> string \<Rightarrow> nat \<Rightarrow> 'f batch \<Rightarrow> (key_tuple \<times> 'f db_record) list" where
  "inside_rows res wn seg first [] = []"
| "inside_rows res wn seg first (r # rows) =
     (case row_time res r of
        Some t \<Rightarrow> if in_window wn t then [((t, seg, first), r)] else []
      | None \<Rightarrow> []) @ inside_rows res wn seg (Suc first) rows"

definition take_row :: "'f float_ops \<Rightarrow> key_tuple \<times> 'f db_record \<Rightarrow> 'f search \<Rightarrow> 'f search" where
  "take_row fo x s =
     (if keep_row fo (se_resource s) (se_window s) (snd x) \<and> wanted s (fst x)
      then search_push (key_owned (fst x)) (snd x) s else s)"

fun search_chunks :: "'f float_ops \<Rightarrow> (key_tuple \<times> 'f db_record) list list \<Rightarrow> 'f search \<Rightarrow> 'f search" where
  "search_chunks fo [] s = s"
| "search_chunks fo (c # cs) s =
     (if c \<noteq> [] \<and> \<not> wanted s (fst (hd c)) then s else search_chunks fo cs (fold (take_row fo) c s))"

definition search_count :: "nat \<Rightarrow> 'f search \<Rightarrow> 'f search" where
  "search_count n s = s\<lparr>se_matched := map_option (\<lambda>m. m + int n) (se_matched s)\<rparr>"

definition search_batch ::
  "'f float_ops \<Rightarrow> string \<Rightarrow> bool \<Rightarrow> nat \<times> 'f batch \<Rightarrow> 'f search \<Rightarrow> 'f search" where
  "search_batch fo seg counting b s =
     (let inside = inside_rows (se_resource s) (se_window s) seg (fst b) (snd b)
      in if counting \<and> wn_predicates (se_window s) \<noteq> []
         then search_count (length (filter (\<lambda>x. keep_row fo (se_resource s) (se_window s) (snd x)) inside))
                (fold (take_row fo) inside s)
         else
           let s1 = (if counting then search_count (length inside) s else s);
               ordered = sort_key (\<lambda>x. rank (wn_descending (se_window s)) (fst x)) (filter (\<lambda>x. after_cursor s (fst x)) inside)
           in search_chunks fo (chunks (max (se_capacity s) 256) ordered) s1)"

definition search_block :: "'f float_ops \<Rightarrow> 'f segment \<Rightarrow> block \<Rightarrow> 'f search \<Rightarrow> 'f search" where
  "search_block fo sg blk s =
     (let wn = se_window s
      in if block_outside blk (wn_start wn) (wn_end wn) then s
         else
           let whole = se_matched s \<noteq> None \<and> wn_predicates wn = [] \<and> block_inside blk (wn_start wn) (wn_end wn);
               s1 = (if whole then search_count (bl_valid blk) s else s);
               counting = (se_matched s \<noteq> None \<and> \<not> whole)
           in if counting \<or> needs_block s1 blk (sg_name sg)
              then fold (search_batch fo (sg_name sg) counting) (index_read sg blk) s1 else s1)"

subsection \<open>Pages\<close>

record 'f list_result =
  lr_items :: "'f db_record list"
  lr_next_page_token :: string
  lr_total :: int

fun search_segments ::
  "'f float_ops \<Rightarrow> resource \<Rightarrow> 'f window \<Rightarrow> 'f segment list \<Rightarrow> indexes \<Rightarrow> 'f search \<Rightarrow> 'f search db_result \<times> indexes" where
  "search_segments fo res wn [] idx s = (Inr s, idx)"
| "search_segments fo res wn (sg # sgs) idx s =
     (if (case sg_bounds sg of Some b \<Rightarrow> bounds_outside b (wn_start wn) (wn_end wn) | None \<Rightarrow> False)
      then search_segments fo res wn sgs idx s
      else case indexes_get sg idx of
        Inl e \<Rightarrow> (Inl e, idx)
      | Inr (ix, idx') \<Rightarrow>
          if \<not> resource_matches (ix_resource ix) res
          then (Inl (Invalid (sg_name sg @ '' was written with other columns'')), idx')
          else search_segments fo res wn sgs idx' (fold (search_block fo sg) (ix_blocks ix) s))"

text \<open>The page of what a search found.\<close>

definition page_result ::
  "token_codec \<Rightarrow> string \<Rightarrow> 'f window \<Rightarrow> int option \<Rightarrow> 'f search \<Rightarrow> 'f list_result db_result" where
  "page_result tc scope wn carried s =
     (let total = (case carried of Some n \<Rightarrow> n | None \<Rightarrow> (case se_matched s of Some n \<Rightarrow> n | None \<Rightarrow> -1));
          kept = take (wn_limit wn) (se_best s);
          token = (if length (se_best s) > wn_limit wn \<and> kept \<noteq> []
                   then tc_encode tc \<lparr>cu_scope = scope, cu_total = total, cu_after = en_key (last kept)\<rparr> else Inr '''')
      in case token of
           Inl e \<Rightarrow> Inl e
         | Inr t \<Rightarrow> Inr \<lparr>lr_items = map en_record kept, lr_next_page_token = t, lr_total = total\<rparr>)"

definition page_cursor :: "token_codec \<Rightarrow> string \<Rightarrow> string \<Rightarrow> cursor option db_result" where
  "page_cursor tc scope token =
     (if token = '''' then Inr None
      else case cursor_decode tc token scope of Inl e \<Rightarrow> Inl e | Inr c \<Rightarrow> Inr (Some c))"

definition seek_page ::
  "'f float_ops \<Rightarrow> token_codec \<Rightarrow> (resource \<Rightarrow> 'f window \<Rightarrow> string) \<Rightarrow> resource \<Rightarrow> 'f window \<Rightarrow> string \<Rightarrow> bool \<Rightarrow>
   'f segment list \<Rightarrow> indexes \<Rightarrow> 'f list_result db_result \<times> indexes" where
  "seek_page fo tc scope_of res wn token want_total sgs idx =
     (let scope = scope_of res wn
      in case page_cursor tc scope token of
           Inl e \<Rightarrow> (Inl e, idx)
         | Inr cur \<Rightarrow>
             let carried = map_option cu_total cur
             in case search_new res wn (map_option cu_after cur) (carried = None \<and> want_total) of
                  Inl e \<Rightarrow> (Inl e, idx)
                | Inr s0 \<Rightarrow>
                    case search_segments fo res wn sgs idx s0 of
                      (Inl e, idx') \<Rightarrow> (Inl e, idx')
                    | (Inr s, idx') \<Rightarrow> (page_result tc scope wn carried s, idx'))"

text \<open>Pages by offset: every row of the window is streamed through the bounded buffer.\<close>

definition scan_segment :: "resource \<Rightarrow> 'f window \<Rightarrow> 'f segment \<Rightarrow> 'f batch list db_result" where
  "scan_segment res wn sg =
     (if (case sg_bounds sg of Some b \<Rightarrow> bounds_outside b (wn_start wn) (wn_end wn) | None \<Rightarrow> False) then Inr []
      else if \<not> resource_matches (sg_resource sg) res
        then Inl (Invalid (sg_name sg @ '' was written with other columns''))
      else case time_column res of
        Inl e \<Rightarrow> Inl e
      | Inr _ \<Rightarrow>
          Inr (filter (\<lambda>rows. rows \<noteq> [])
            (map (filter (\<lambda>r. case row_time res r of Some t \<Rightarrow> in_window wn t | None \<Rightarrow> False) \<circ> snd) (sg_batches sg))))"

fun scan_segments :: "resource \<Rightarrow> 'f window \<Rightarrow> 'f segment list \<Rightarrow> 'f batch list db_result" where
  "scan_segments res wn [] = Inr []"
| "scan_segments res wn (sg # sgs) =
     (case scan_segment res wn sg of
        Inl e \<Rightarrow> Inl e
      | Inr bs \<Rightarrow> (case scan_segments res wn sgs of Inl e \<Rightarrow> Inl e | Inr bs' \<Rightarrow> Inr (bs @ bs')))"

definition page_at_offset ::
  "'f float_ops \<Rightarrow> resource \<Rightarrow> 'f window \<Rightarrow> nat \<Rightarrow> 'f segment list \<Rightarrow> 'f list_result db_result" where
  "page_at_offset fo res wn offset sgs =
     (case top_new res wn offset of
        Inl e \<Rightarrow> Inl e
      | Inr t \<Rightarrow>
          (case scan_segments res wn sgs of
             Inl e \<Rightarrow> Inl e
           | Inr bs \<Rightarrow>
               let (items, total) = top_finish (fold (top_push fo) bs t); after = offset + length items
               in Inr \<lparr>lr_items = items, lr_next_page_token = (if int after < total then show_nat after else ''''),
                         lr_total = total\<rparr>))"

text \<open>The window of a listing (\<open>crud.rs\<close>): every row ever captured, ordered by time. Words are separated by ASCII white
  space.\<close>

definition white_space :: "char \<Rightarrow> bool" where
  "white_space c \<longleftrightarrow> c = CHR '' '' \<or> (9 \<le> (of_char c :: nat) \<and> (of_char c :: nat) \<le> 13)"

function split_words :: "string \<Rightarrow> string list" where
  "split_words s =
     (let rest = dropWhile white_space s
      in if rest = [] then [] else takeWhile (\<lambda>c. \<not> white_space c) rest # split_words (dropWhile (\<lambda>c. \<not> white_space c) rest))"
  by auto
termination
proof (relation "measure length")
  fix s :: string and rest
  assume r: "rest = dropWhile white_space s" "rest \<noteq> []"
  then have "\<not> white_space (hd rest)" using hd_dropWhile [of white_space s] by simp
  then have "length (dropWhile (\<lambda>c. \<not> white_space c) rest) < length rest"
    using r(2) length_dropWhile_le [of "\<lambda>c. \<not> white_space c" "tl rest"] by (cases rest) (auto simp: less_Suc_eq_le)
  also have "\<dots> \<le> length s" using r(1) length_dropWhile_le by simp
  finally show "(dropWhile (\<lambda>c. \<not> white_space c) rest, s) \<in> measure length" by simp
qed simp

declare split_words.simps [simp del]

definition all_time ::
  "(resource \<Rightarrow> string \<Rightarrow> 'f predicate list db_result) \<Rightarrow> resource \<Rightarrow> string \<Rightarrow> int \<Rightarrow> string \<Rightarrow> 'f window db_result" where
  "all_time parse res order_by requested filt =
     (case time_column res of
        Inl e \<Rightarrow> Inl e
      | Inr time \<Rightarrow>
          (case (case split_words order_by of
                   [] \<Rightarrow> Some False
                 | [c] \<Rightarrow> if c = time then Some False else None
                 | [c, dir] \<Rightarrow> if c = time \<and> dir = ''asc'' then Some False
                              else if c = time \<and> dir = ''desc'' then Some True else None
                 | _ \<Rightarrow> None) of
             None \<Rightarrow> Inl (Invalid (''arrow captures order only by '' @ time))
           | Some descending \<Rightarrow>
               (case page_size requested of
                  Inl e \<Rightarrow> Inl e
                | Inr limit \<Rightarrow>
                    (case parse res filt of
                       Inl e \<Rightarrow> Inl e
                     | Inr ps \<Rightarrow>
                         let wn = \<lparr>wn_start = - (2 ^ 63), wn_end = 2 ^ 63 - 1, wn_limit = limit, wn_descending = descending,
                                      wn_predicates = ps\<rparr>
                         in case window_validate wn of Inl e \<Rightarrow> Inl e | Inr _ \<Rightarrow> Inr wn))))"

subsection \<open>The read order\<close>

lemma key_order_rank: "key_order a b descending = cmp (rank descending a) (rank descending b)"
  by (cases a; cases b; cases descending)
    (auto simp: key_order_def rank_def cmp_def ordering_then_def less_prod_def' Let_def)

lemma key_parts_owned [simp]: "key_parts (key_owned p) = p" "key_owned (key_parts k) = k"
  by (simp_all add: key_parts_def key_owned_def)

lemma rank_inject [simp]: "rank d a = rank d b \<longleftrightarrow> a = b"
  by (cases a; cases b) (auto simp: rank_def)

text \<open>Two keys of one segment are ordered when their times and rows are.\<close>

lemma rank_le:
  assumes "if d then t2 \<le> t1 else t1 \<le> t2" "i \<le> j"
  shows "rank d (t1, seg, i) \<le> rank d (t2, seg, j)"
  using assms by (auto simp: rank_def less_eq_prod_def split: if_splits)

subsection \<open>The best rows\<close>

definition entry_rank :: "bool \<Rightarrow> 'f page_entry \<Rightarrow> key_tuple" where
  "entry_rank d e = rank d (key_parts (en_key e))"

definition entry_of :: "key_tuple \<times> 'f db_record \<Rightarrow> 'f page_entry" where
  "entry_of x = \<lparr>en_key = key_owned (fst x), en_record = snd x\<rparr>"

lemma entry_rank_of [simp]: "entry_rank d (entry_of x) = rank d (fst x)"
  by (simp add: entry_rank_def entry_of_def)

abbreviation se_desc :: "'f search \<Rightarrow> bool" where
  "se_desc s \<equiv> wn_descending (se_window s)"

definition same_query :: "'f search \<Rightarrow> 'f search \<Rightarrow> bool" where
  "same_query s s' \<longleftrightarrow> se_resource s' = se_resource s \<and> se_window s' = se_window s \<and> se_after s' = se_after s \<and>
     se_capacity s' = se_capacity s"

lemma same_query_refl [simp]: "same_query s s"
  by (simp add: same_query_def)

lemma same_query_trans: "same_query s s' \<Longrightarrow> same_query s' s'' \<Longrightarrow> same_query s s''"
  by (simp add: same_query_def)

lemma after_cursor_rank:
  "after_cursor s k \<longleftrightarrow> (case se_after s of None \<Rightarrow> True | Some a \<Rightarrow> rank (se_desc s) (key_parts a) < rank (se_desc s) k)"
  by (simp add: after_cursor_def key_order_rank split: option.splits)

lemma after_cursor_same: "same_query s s' \<Longrightarrow> after_cursor s' k = after_cursor s k"
  by (auto simp: after_cursor_def same_query_def split: option.splits)

lemma after_cursor_mono: "after_cursor s k \<Longrightarrow> rank (se_desc s) k \<le> rank (se_desc s) k' \<Longrightarrow> after_cursor s k'"
  by (auto simp: after_cursor_rank split: option.splits)

lemma beats_worst_rank:
  "beats_worst s k \<longleftrightarrow> length (se_best s) < se_capacity s \<or> se_best s = [] \<or> rank (se_desc s) k < entry_rank (se_desc s) (last (se_best s))"
  by (simp add: beats_worst_def key_order_rank entry_rank_def)

lemma beats_worst_mono: "beats_worst s k' \<Longrightarrow> rank (se_desc s) k \<le> rank (se_desc s) k' \<Longrightarrow> beats_worst s k"
  by (auto simp: beats_worst_rank)

lemma search_push_best:
  "se_best (search_push (key_owned (fst x)) (snd x) s) =
     (let b = sort_key (entry_rank (se_desc s)) (se_best s @ [entry_of x]) in if length b > se_capacity s then butlast b else b)"
  by (simp add: search_push_def entry_of_def entry_rank_def [abs_def] Let_def)

lemma search_push_keeps [simp]:
  "same_query s (search_push k r s)" "se_matched (search_push k r s) = se_matched s"
  by (simp_all add: search_push_def same_query_def Let_def)

text \<open>Considering one more row keeps the best of all rows considered.\<close>

lemma best_consider:
  assumes best: "se_best s = take (se_capacity s) (sort_key (entry_rank (se_desc s)) G)" and cap: "0 < se_capacity s"
  shows "se_best (if beats_worst s (fst x) then search_push (key_owned (fst x)) (snd x) s else s) =
    take (se_capacity s) (sort_key (entry_rank (se_desc s)) (G @ [entry_of x]))"
proof -
  let ?e = "entry_rank (se_desc s)" and ?k = "se_capacity s"
  have all: "take ?k (sort_key ?e (se_best s @ [entry_of x])) = take ?k (sort_key ?e (G @ [entry_of x]))"
    using take_sort_bounded [of ?k ?e G] best by metis
  have len: "length (se_best s) \<le> ?k" using best by simp
  show ?thesis
  proof (cases "beats_worst s (fst x)")
    case True
    let ?b = "sort_key ?e (se_best s @ [entry_of x])"
    have "(if length ?b > ?k then butlast ?b else ?b) = take ?k ?b"
      using len by (cases "length (se_best s) = ?k") (simp_all add: butlast_conv_take)
    then show ?thesis using True all by (simp add: search_push_best Let_def)
  next
    case False
    have "sorted (map ?e (se_best s))" using best by (simp add: sorted_sort_key take_map [symmetric] sorted_wrt_take)
    moreover have "se_best s \<noteq> []" "?e (last (se_best s)) \<le> ?e (entry_of x)" using False by (auto simp: beats_worst_rank)
    ultimately have "sorted (map ?e (se_best s @ [entry_of x]))"
      by (cases "se_best s" rule: rev_cases) (auto simp: sorted_append intro: order_trans)
    then have "sort_key ?e (se_best s @ [entry_of x]) = se_best s @ [entry_of x]" by (rule sort_key_id_if_sorted)
    moreover have "length (se_best s) = ?k" using False len by (simp add: beats_worst_rank)
    ultimately show ?thesis using all False by simp
  qed
qed

definition best_inv :: "(key_tuple \<times> 'f db_record) list \<Rightarrow> 'f search \<Rightarrow> bool" where
  "best_inv F s \<longleftrightarrow> 0 < se_capacity s \<and>
     (\<exists>G. mset G = mset (filter (\<lambda>x. after_cursor s (fst x)) F) \<and>
        se_best s = take (se_capacity s) (sort_key (entry_rank (se_desc s)) (map entry_of G)))"

lemma best_inv_perm: "best_inv F s \<Longrightarrow> mset F = mset F' \<Longrightarrow> best_inv F' s"
  by (simp add: best_inv_def)

lemma take_row_keeps [simp]: "same_query s (take_row fo x s)" "se_matched (take_row fo x s) = se_matched s"
  by (simp_all add: take_row_def)

lemma fold_take_row_keeps [simp]:
  "same_query s (fold (take_row fo) X s)" "se_matched (fold (take_row fo) X s) = se_matched s"
  by (induction X arbitrary: s) (simp_all, use same_query_trans take_row_keeps(1) in blast)

abbreviation kept_by :: "'f float_ops \<Rightarrow> 'f search \<Rightarrow> (key_tuple \<times> 'f db_record) list \<Rightarrow> (key_tuple \<times> 'f db_record) list" where
  "kept_by fo s X \<equiv> filter (\<lambda>x. keep_row fo (se_resource s) (se_window s) (snd x)) X"

lemma best_inv_take_row:
  assumes "best_inv F s"
  shows "best_inv (F @ kept_by fo s [x]) (take_row fo x s)"
proof (cases "keep_row fo (se_resource s) (se_window s) (snd x) \<and> after_cursor s (fst x)")
  case True
  let ?s = "if beats_worst s (fst x) then search_push (key_owned (fst x)) (snd x) s else s"
  have step: "take_row fo x s = ?s" using True by (simp add: take_row_def wanted_def)
  have sq: "same_query s ?s" by simp
  obtain G where G: "mset G = mset (filter (\<lambda>x. after_cursor s (fst x)) F)"
    "se_best s = take (se_capacity s) (sort_key (entry_rank (se_desc s)) (map entry_of G))" "0 < se_capacity s"
    using assms by (auto simp: best_inv_def)
  have "se_best ?s = take (se_capacity s) (sort_key (entry_rank (se_desc s)) (map entry_of (G @ [x])))"
    using best_consider [OF G(2,3), of x] by simp
  moreover have "mset (G @ [x]) = mset (filter (\<lambda>x. after_cursor ?s (fst x)) (F @ [x]))"
    using G(1) True by (simp add: after_cursor_same [OF sq])
  ultimately show ?thesis unfolding step best_inv_def using True sq G(3)
    by (simp only: same_query_def) (auto intro!: exI [of _ "G @ [x]"])
next
  case False
  then show ?thesis using assms by (auto simp: best_inv_def take_row_def wanted_def)
qed

lemma best_inv_fold:
  "best_inv F s \<Longrightarrow> best_inv (F @ kept_by fo s X) (fold (take_row fo) X s)"
proof (induction X arbitrary: F s)
  case (Cons x X)
  have sq: "same_query s (take_row fo x s)" by simp
  have "best_inv ((F @ kept_by fo s [x]) @ kept_by fo (take_row fo x s) X) (fold (take_row fo) X (take_row fo x s))"
    by (rule Cons.IH) (rule best_inv_take_row [OF Cons.prems])
  then show ?case using sq by (auto simp: same_query_def split: if_splits)
qed simp

text \<open>Rows that are not wanted can be skipped.\<close>

lemma fold_take_row_skip:
  "(\<And>x. x \<in> set X \<Longrightarrow> keep_row fo (se_resource s) (se_window s) (snd x) \<Longrightarrow> \<not> wanted s (fst x)) \<Longrightarrow> fold (take_row fo) X s = s"
  by (induction X) (auto simp: take_row_def)

lemma search_chunks_fold:
  assumes "sorted (map (\<lambda>x. rank (se_desc s) (fst x)) (concat cs))" "\<forall>x\<in>set (concat cs). after_cursor s (fst x)"
  shows "search_chunks fo cs s = fold (take_row fo) (concat cs) s"
  using assms
proof (induction cs arbitrary: s)
  case (Cons c cs)
  show ?case
  proof (cases "c \<noteq> [] \<and> \<not> wanted s (fst (hd c))")
    case True
    then have no: "\<not> beats_worst s (fst (hd c))" using Cons.prems(2) by (cases c) (auto simp: wanted_def)
    have "\<not> wanted s (fst x)" if x: "x \<in> set (concat (c # cs))" for x
    proof -
      have "rank (se_desc s) (fst (hd c)) \<le> rank (se_desc s) (fst x)"
        using Cons.prems(1) True x by (cases c) (auto simp: sorted_append)
      then show ?thesis using no beats_worst_mono [of s "fst x" "fst (hd c)"] by (auto simp: wanted_def)
    qed
    then have "fold (take_row fo) (concat (c # cs)) s = s" by (intro fold_take_row_skip) blast
    then show ?thesis using True by simp
  next
    case False
    have sq: "same_query s (fold (take_row fo) c s)" by simp
    have "search_chunks fo cs (fold (take_row fo) c s) = fold (take_row fo) (concat cs) (fold (take_row fo) c s)"
      by (rule Cons.IH) (use Cons.prems sq after_cursor_same [OF sq] in \<open>auto simp: sorted_append same_query_def\<close>)
    then show ?thesis using False by auto
  qed
qed simp

lemma search_count_keeps [simp]:
  "same_query s (search_count n s)" "se_best (search_count n s) = se_best s"
  "se_matched (search_count n s) = map_option (\<lambda>m. m + int n) (se_matched s)"
  by (simp_all add: search_count_def same_query_def)

lemma best_inv_count [simp]: "best_inv F (search_count n s) = best_inv F s"
  using after_cursor_same [of s "search_count n s"] by (simp add: best_inv_def) (simp add: search_count_def)

subsection \<open>A batch\<close>

text \<open>The matches of a batch.\<close>

definition matching :: "'f float_ops \<Rightarrow> resource \<Rightarrow> 'f window \<Rightarrow> string \<Rightarrow> nat \<times> 'f batch \<Rightarrow> (key_tuple \<times> 'f db_record) list" where
  "matching fo res wn seg b = filter (\<lambda>x. keep_row fo res wn (snd x)) (inside_rows res wn seg (fst b) (snd b))"

lemma inside_rows_in:
  "x \<in> set (inside_rows res wn seg first rows) \<Longrightarrow>
     \<exists>t i. x = ((t, seg, first + i), rows ! i) \<and> i < length rows \<and> row_time res (rows ! i) = Some t \<and> in_window wn t"
proof (induction rows arbitrary: first)
  case (Cons r rows)
  show ?case
  proof (cases "x \<in> set (inside_rows res wn seg (Suc first) rows)")
    case True
    from Cons.IH [OF this] obtain t i where "x = ((t, seg, Suc first + i), rows ! i)" "i < length rows"
      "row_time res (rows ! i) = Some t" "in_window wn t" by blast
    then show ?thesis by (intro exI [of _ t] exI [of _ "Suc i"]) simp
  next
    case False
    then obtain t where "row_time res r = Some t" "in_window wn t" "x = ((t, seg, first), r)"
      using Cons.prems by (cases "row_time res r") (auto split: if_splits)
    then show ?thesis by (intro exI [of _ t] exI [of _ 0]) simp
  qed
qed simp

lemma matching_unfiltered: "wn_predicates wn = [] \<Longrightarrow> matching fo res wn seg b = inside_rows res wn seg (fst b) (snd b)"
  by (auto simp: matching_def keep_row_def filter_id_conv dest!: inside_rows_in)

lemma best_inv_batch:
  assumes "best_inv F s"
  shows "best_inv (F @ matching fo (se_resource s) (se_window s) seg b) (search_batch fo seg counting b s) \<and>
    same_query s (search_batch fo seg counting b s) \<and>
    se_matched (search_batch fo seg counting b s) =
      (if counting then map_option (\<lambda>m. m + int (length (matching fo (se_resource s) (se_window s) seg b))) (se_matched s)
       else se_matched s)"
proof (cases "counting \<and> wn_predicates (se_window s) \<noteq> []")
  case True
  let ?X = "inside_rows (se_resource s) (se_window s) seg (fst b) (snd b)"
  have eq: "search_batch fo seg counting b s = search_count (length (kept_by fo s ?X)) (fold (take_row fo) ?X s)"
    using True by (simp add: search_batch_def Let_def)
  have "same_query s (search_count (length (kept_by fo s ?X)) (fold (take_row fo) ?X s))"
    using same_query_trans [OF fold_take_row_keeps(1) search_count_keeps(1)] .
  then show ?thesis unfolding eq using best_inv_fold [OF assms, of fo ?X] True by (simp add: matching_def)
next
  case False
  let ?X = "inside_rows (se_resource s) (se_window s) seg (fst b) (snd b)"
  let ?A = "filter (\<lambda>x. after_cursor s (fst x)) ?X"
  let ?O = "sort_key (\<lambda>x. rank (se_desc s) (fst x)) ?A"
  let ?s1 = "if counting then search_count (length ?X) s else s"
  have sq: "same_query s ?s1" by simp
  have cs: "concat (chunks (max (se_capacity s) 256) ?O) = ?O" by (rule concat_chunks) simp
  have eq: "search_batch fo seg counting b s = fold (take_row fo) ?O ?s1"
  proof -
    have "search_chunks fo (chunks (max (se_capacity s) 256) ?O) ?s1 = fold (take_row fo) ?O ?s1"
      using search_chunks_fold [of ?s1 "chunks (max (se_capacity s) 256) ?O" fo] sq after_cursor_same [OF sq]
      by (simp add: cs same_query_def sorted_sort_key)
    then show ?thesis using False unfolding search_batch_def Let_def by (simp only: if_False simp_thms)
  qed
  have "best_inv F ?s1" "se_resource ?s1 = se_resource s" "se_window ?s1 = se_window s"
    using assms sq by (simp_all add: same_query_def)
  then have "best_inv (F @ kept_by fo s ?O) (fold (take_row fo) ?O ?s1)"
    using best_inv_fold [of F ?s1 fo ?O] by (simp only: )
  then have "best_inv (F @ kept_by fo s ?A) (fold (take_row fo) ?O ?s1)"
    by (rule best_inv_perm) (simp add: filter_filter_mset conj_commute)
  moreover have sq': "same_query s (fold (take_row fo) ?O ?s1)"
    using same_query_trans [OF sq fold_take_row_keeps(1)] .
  ultimately have "best_inv (F @ kept_by fo s ?X) (fold (take_row fo) ?O ?s1)"
    by (auto simp: best_inv_def after_cursor_same [OF sq'] filter_filter_mset conj_commute cong: conj_cong)
  moreover have "counting \<Longrightarrow> length ?X = length (kept_by fo s ?X)"
    using False matching_unfiltered [of "se_window s" fo "se_resource s" seg b] by (simp add: matching_def)
  ultimately show ?thesis unfolding eq using sq' by (simp add: matching_def)
qed

subsection \<open>A block\<close>

text \<open>The batches of a group with the ordinals of their first rows, and the matches in them.\<close>

fun numbered :: "nat \<Rightarrow> (nat \<times> 'f batch) list \<Rightarrow> (nat \<times> 'f batch) list" where
  "numbered fr [] = []"
| "numbered fr ((e, rows) # g) = (fr, rows) # numbered (fr + length rows) g"

definition group_rows :: "(nat \<times> 'f batch) list \<Rightarrow> nat" where
  "group_rows g = sum_list (map (length \<circ> snd) g)"

definition group_times :: "resource \<Rightarrow> (nat \<times> 'f batch) list \<Rightarrow> int list" where
  "group_times res g = concat (map (batch_times res \<circ> snd) g)"

definition matches_of ::
  "'f float_ops \<Rightarrow> resource \<Rightarrow> 'f window \<Rightarrow> string \<Rightarrow> (nat \<times> 'f batch) list \<Rightarrow> (key_tuple \<times> 'f db_record) list" where
  "matches_of fo res wn seg bs = concat (map (matching fo res wn seg) bs)"

lemma group_simps [simp]:
  "group_rows [] = 0" "group_rows (b # g) = length (snd b) + group_rows g" "group_rows (g @ g') = group_rows g + group_rows g'"
  "group_times res [] = []" "group_times res (b # g) = batch_times res (snd b) @ group_times res g"
  "group_times res (g @ g') = group_times res g @ group_times res g'"
  by (simp_all add: group_rows_def group_times_def)

lemma numbered_append: "numbered fr (g @ g') = numbered fr g @ numbered (fr + group_rows g) g'"
  by (induction g arbitrary: fr) (auto simp: add.assoc)

lemma matches_of_simps [simp]:
  "matches_of fo res wn seg [] = []" "matches_of fo res wn seg (b # bs) = matching fo res wn seg b @ matches_of fo res wn seg bs"
  "matches_of fo res wn seg (bs @ bs') = matches_of fo res wn seg bs @ matches_of fo res wn seg bs'"
  by (simp_all add: matches_of_def)

lemma matching_in:
  assumes "x \<in> set (matches_of fo res wn seg (numbered fr g))"
  shows "\<exists>t i. fst x = (t, seg, i) \<and> t \<in> set (group_times res g) \<and> in_window wn t \<and> fr \<le> i \<and> i < fr + group_rows g"
  using assms
proof (induction g arbitrary: fr)
  case (Cons b g)
  obtain e rows where b: "b = (e, rows)" by (cases b)
  show ?case
  proof (cases "x \<in> set (matching fo res wn seg (fr, rows))")
    case True
    then have "x \<in> set (inside_rows res wn seg fr rows)" by (simp add: matching_def)
    from inside_rows_in [OF this] obtain t i where x: "fst x = (t, seg, fr + i)" "i < length rows"
      "row_time res (rows ! i) = Some t" "in_window wn t" by auto
    then have "t \<in> set (batch_times res rows)"
      using nth_mem [OF x(2)] by (force simp: batch_times_def List.map_filter_def image_iff)
    then show ?thesis using x by (auto simp: b)
  next
    case False
    then have "x \<in> set (matches_of fo res wn seg (numbered (fr + length rows) g))" using Cons.prems by (simp add: b)
    from Cons.IH [OF this] obtain t i where x: "fst x = (t, seg, i)" "t \<in> set (group_times res g)" "in_window wn t"
      "fr + length rows \<le> i" "i < fr + length rows + group_rows g" by blast
    then show ?thesis by (intro exI [of _ t] exI [of _ i]) (simp add: b)
  qed
qed simp

lemma inside_rows_all: "(\<forall>t\<in>set (batch_times res rows). in_window wn t) \<Longrightarrow> length (inside_rows res wn seg fr rows) = length (batch_times res rows)"
  by (induction rows arbitrary: fr) (auto simp: batch_times_def List.map_filter_def split: option.splits)

lemma matches_all:
  assumes "wn_predicates wn = []" "\<forall>t\<in>set (group_times res g). in_window wn t"
  shows "length (matches_of fo res wn seg (numbered fr g)) = length (group_times res g)"
  using assms(2)
proof (induction g arbitrary: fr)
  case (Cons b g)
  then show ?case using inside_rows_all [of res "snd b" wn seg fr] by (cases b) (simp add: matching_unfiltered [OF assms(1)])
qed simp

text \<open>What a block records of its group.\<close>

definition summary :: "resource \<Rightarrow> nat \<Rightarrow> nat \<Rightarrow> (nat \<times> 'f batch) list \<Rightarrow> block" where
  "summary res offset fr g = fold (block_add res) g (block_new offset fr)"

lemma block_times_fold:
  "bl_valid (fold block_time ts b) = bl_valid b + length ts \<and> bl_min (fold block_time ts b) \<le> bl_min b \<and>
   bl_max b \<le> bl_max (fold block_time ts b) \<and>
   (\<forall>t\<in>set ts. bl_min (fold block_time ts b) \<le> t \<and> t \<le> bl_max (fold block_time ts b)) \<and>
   bl_offset (fold block_time ts b) = bl_offset b \<and> bl_end (fold block_time ts b) = bl_end b \<and>
   bl_first_row (fold block_time ts b) = bl_first_row b \<and> bl_rows (fold block_time ts b) = bl_rows b"
proof (induction ts arbitrary: b)
  case (Cons t ts)
  from Cons.IH [of "block_time t b"] show ?case by (auto simp: block_time_def)
qed simp

lemma block_add_fold:
  "bl_valid (fold (block_add res) g b) = bl_valid b + length (group_times res g) \<and>
   bl_min (fold (block_add res) g b) \<le> bl_min b \<and> bl_max b \<le> bl_max (fold (block_add res) g b) \<and>
   (\<forall>t\<in>set (group_times res g). bl_min (fold (block_add res) g b) \<le> t \<and> t \<le> bl_max (fold (block_add res) g b)) \<and>
   bl_offset (fold (block_add res) g b) = bl_offset b \<and> bl_first_row (fold (block_add res) g b) = bl_first_row b \<and>
   bl_rows (fold (block_add res) g b) = bl_rows b + group_rows g \<and>
   bl_end (fold (block_add res) g b) = (if g = [] then bl_end b else fst (last g))"
proof (induction g arbitrary: b)
  case (Cons x g)
  show ?case
    using Cons.IH [of "block_add res x b"] block_times_fold [of "batch_times res (snd x)" "b\<lparr>bl_rows := bl_rows b + length (snd x), bl_end := fst x\<rparr>"]
    by (fastforce simp: block_add_def)
qed simp

lemma summary_facts:
  "bl_valid (summary res o1 fr g) = length (group_times res g)"
  "t \<in> set (group_times res g) \<Longrightarrow> bl_min (summary res o1 fr g) \<le> t \<and> t \<le> bl_max (summary res o1 fr g)"
  "bl_offset (summary res o1 fr g) = o1" "bl_first_row (summary res o1 fr g) = fr"
  "bl_rows (summary res o1 fr g) = group_rows g"
  "bl_end (summary res o1 fr g) = (if g = [] then o1 else fst (last g))"
  using block_add_fold [of res g "block_new o1 fr"] by (auto simp: summary_def block_new_def)

lemma best_inv_batches:
  assumes "best_inv F s"
  shows "best_inv (F @ matches_of fo (se_resource s) (se_window s) seg bs) (fold (search_batch fo seg counting) bs s) \<and>
    same_query s (fold (search_batch fo seg counting) bs s) \<and>
    se_matched (fold (search_batch fo seg counting) bs s) =
      (if counting then map_option (\<lambda>m. m + int (length (matches_of fo (se_resource s) (se_window s) seg bs))) (se_matched s)
       else se_matched s)"
  using assms
proof (induction bs arbitrary: F s)
  case Nil
  then show ?case by (simp add: option.map_ident)
next
  case (Cons b bs)
  let ?s = "search_batch fo seg counting b s"
  note b = best_inv_batch [OF Cons.prems, of fo seg b counting]
  have q: "se_resource ?s = se_resource s" "se_window ?s = se_window s" using b by (simp_all add: same_query_def)
  note bs = Cons.IH [OF conjunct1 [OF b], unfolded q]
  have "same_query s (fold (search_batch fo seg counting) bs ?s)" using b bs same_query_trans by blast
  with b bs show ?case by (auto simp: option.map_comp comp_def add.assoc)
qed

text \<open>A block that is skipped holds no wanted row.\<close>

lemma unneeded_block:
  assumes "\<not> needs_block s (summary (se_resource s) o1 fr g) seg"
    "x \<in> set (matches_of fo (se_resource s) (se_window s) seg (numbered fr g))"
  shows "\<not> wanted s (fst x)"
proof -
  let ?b = "summary (se_resource s) o1 fr g"
  obtain t i where x: "fst x = (t, seg, i)" "t \<in> set (group_times (se_resource s) g)" "fr \<le> i" "i < fr + group_rows g"
    using matching_in [OF assms(2)] by blast
  have t: "bl_min ?b \<le> t" "t \<le> bl_max ?b" using summary_facts(2) [OF x(2)] by auto
  have i: "bl_first_row ?b \<le> i" "i \<le> last_row ?b" using x(3,4) by (simp_all add: summary_facts last_row_def)
  have lo: "rank (se_desc s) (if se_desc s then bl_max ?b else bl_min ?b, seg, bl_first_row ?b) \<le> rank (se_desc s) (fst x)"
    and hi: "rank (se_desc s) (fst x) \<le> rank (se_desc s) (if se_desc s then bl_min ?b else bl_max ?b, seg, last_row ?b)"
    unfolding x(1) using t i by (auto intro!: rank_le)
  show ?thesis
    using assms(1) after_cursor_mono [OF _ hi] beats_worst_mono [OF _ lo]
    by (auto simp: wanted_def needs_block_def split: if_splits)
qed

lemma best_inv_skip:
  assumes "best_inv F s" "\<And>x. x \<in> set X \<Longrightarrow> keep_row fo (se_resource s) (se_window s) (snd x) \<and> \<not> wanted s (fst x)"
  shows "best_inv (F @ X) s"
proof -
  have "fold (take_row fo) X s = s" by (rule fold_take_row_skip) (use assms(2) in blast)
  moreover have "kept_by fo s X = X" using assms(2) by (simp add: filter_id_conv)
  ultimately show ?thesis using best_inv_fold [OF assms(1), of fo X] by simp
qed

lemma matches_of_kept: "x \<in> set (matches_of fo res wn seg bs) \<Longrightarrow> keep_row fo res wn (snd x)"
  by (auto simp: matches_of_def matching_def)

lemma best_inv_block:
  assumes inv: "best_inv F s" and blk: "blk = summary (se_resource s) o1 fr g" and read: "index_read sg blk = numbered fr g"
  shows "best_inv (F @ matches_of fo (se_resource s) (se_window s) (sg_name sg) (numbered fr g)) (search_block fo sg blk s) \<and>
    same_query s (search_block fo sg blk s) \<and>
    se_matched (search_block fo sg blk s) =
      map_option (\<lambda>m. m + int (length (matches_of fo (se_resource s) (se_window s) (sg_name sg) (numbered fr g)))) (se_matched s)"
proof -
  let ?wn = "se_window s" and ?res = "se_resource s"
  let ?M = "matches_of fo ?res ?wn (sg_name sg) (numbered fr g)"
  let ?whole = "se_matched s \<noteq> None \<and> wn_predicates ?wn = [] \<and> block_inside blk (wn_start ?wn) (wn_end ?wn)"
  define s1 where "s1 = (if ?whole then search_count (bl_valid blk) s else s)"
  let ?counting = "se_matched s \<noteq> None \<and> \<not> ?whole"
  show ?thesis
  proof (cases "block_outside blk (wn_start ?wn) (wn_end ?wn)")
    case True
    have "?M = []"
    proof (rule ccontr)
      assume "?M \<noteq> []"
      then obtain x where "x \<in> set ?M" by (cases ?M) auto
      from matching_in [OF this] obtain t where t: "t \<in> set (group_times ?res g)" "in_window ?wn t" by blast
      then show False using True summary_facts(2) [OF t(1), of o1 fr]
        by (auto simp: blk block_outside_def in_window_def summary_facts(1))
    qed
    then show ?thesis using True inv by (simp add: search_block_def option.map_ident)
  next
    case False
    have s1: "same_query s s1" "best_inv F s1" using inv by (simp_all add: s1_def)
    then have q: "se_resource s1 = ?res" "se_window s1 = ?wn" by (simp_all only: same_query_def)
    have whole: "length ?M = bl_valid blk" if w: "?whole"
    proof -
      have "in_window ?wn t" if t: "t \<in> set (group_times ?res g)" for t
        using w summary_facts(2) [OF t, of o1 fr] by (auto simp: blk block_inside_def in_window_def)
      then show ?thesis using matches_all [of ?wn ?res g fo] w by (simp add: blk summary_facts(1))
    qed
    have eq: "search_block fo sg blk s =
        (if ?counting \<or> needs_block s1 blk (sg_name sg) then fold (search_batch fo (sg_name sg) ?counting) (numbered fr g) s1 else s1)"
      using False by (simp only: search_block_def Let_def if_False read s1_def)
    have m: "se_matched s1 = (if ?whole then map_option (\<lambda>m. m + int (length ?M)) (se_matched s) else se_matched s)"
      using whole by (simp add: s1_def)
    show ?thesis
    proof (cases "?counting \<or> needs_block s1 blk (sg_name sg)")
      case True
      note bs = best_inv_batches [OF s1(2), of fo "sg_name sg" "numbered fr g" ?counting, unfolded q]
      have "search_block fo sg blk s = fold (search_batch fo (sg_name sg) ?counting) (numbered fr g) s1"
        using True eq by (simp only: if_True)
      then show ?thesis using bs same_query_trans [OF s1(1)] m by (cases "se_matched s") (auto split: if_splits)
    next
      case skip: False
      then have "search_block fo sg blk s = s1" using eq by (simp only: if_False)
      moreover have "\<not> needs_block s1 (summary (se_resource s1) o1 fr g) (sg_name sg)" using skip by (simp add: q flip: blk)
      then have "best_inv (F @ ?M) s1"
        by (intro best_inv_skip [OF s1(2), where fo = fo])
          (use unneeded_block [of s1 o1 fr g "sg_name sg" _ fo, unfolded q] matches_of_kept q in metis)
      ultimately show ?thesis using s1(1) m skip by (cases "se_matched s") auto
    qed
  qed
qed

subsection \<open>The index of a segment\<close>

fun ends_ok :: "nat \<Rightarrow> (nat \<times> 'f batch) list \<Rightarrow> bool" where
  "ends_ok pos [] = True"
| "ends_ok pos ((e, rows) # bs) = (pos < e \<and> ends_ok e bs)"

definition end_pos :: "nat \<Rightarrow> (nat \<times> 'f batch) list \<Rightarrow> nat" where
  "end_pos pos bs = (if bs = [] then pos else fst (last bs))"

lemma end_pos_simps [simp]:
  "end_pos pos [] = pos" "end_pos pos (b # bs) = end_pos (fst b) bs" "end_pos pos (as @ bs) = end_pos (end_pos pos as) bs"
  by (auto simp: end_pos_def)

lemma end_pos_ge: "ends_ok pos bs \<Longrightarrow> pos \<le> end_pos pos bs"
  by (induction pos bs rule: ends_ok.induct) auto

lemma ends_ok_append [simp]: "ends_ok pos (as @ bs) \<longleftrightarrow> ends_ok pos as \<and> ends_ok (end_pos pos as) bs"
  by (induction pos as rule: ends_ok.induct) auto

lemma batches_from_end: "ends_ok pos (as @ bs) \<Longrightarrow> batches_from pos (as @ bs) (end_pos pos as) = bs"
proof (induction pos as rule: ends_ok.induct)
  case (1 pos)
  then show ?case by (cases bs) auto
next
  case (2 pos e rows as)
  have "pos < end_pos e as" using "2.prems" end_pos_ge [of e as] by simp
  then show ?case using 2 by simp
qed

lemma read_upto_group: "ends_ok pos g \<Longrightarrow> g \<noteq> [] \<Longrightarrow> read_upto (end_pos pos g) row (g @ rest) = numbered row g"
proof (induction pos g arbitrary: row rule: ends_ok.induct)
  case (2 pos e rows g)
  show ?case
  proof (cases g)
    case (Cons b g')
    then have "e < end_pos e g" using "2.prems"(1) end_pos_ge [of "fst b" g'] by (cases b) auto
    then show ?thesis using 2 Cons by simp
  qed simp
qed simp

text \<open>A segment as a sequence of groups: the blocks are their summaries. A group is closed by the batch that
  brings it to a block's rows.\<close>

fun grouped :: "resource \<Rightarrow> nat \<Rightarrow> nat \<Rightarrow> (nat \<times> 'f batch) list list \<Rightarrow> block list" where
  "grouped res o1 fr [] = []"
| "grouped res o1 fr (g # gs) = summary res o1 fr g # grouped res (end_pos o1 g) (fr + group_rows g) gs"

definition closed_group :: "(nat \<times> 'f batch) list \<Rightarrow> bool" where
  "closed_group g \<longleftrightarrow> block_rows \<le> group_rows g \<and> group_rows (butlast g) < block_rows"

lemma closed_group_rows: "closed_group g \<Longrightarrow> 0 < group_rows g \<and> g \<noteq> []"
  by (auto simp: closed_group_def block_rows_def)

lemma grouped_append:
  "grouped res o1 fr (gs @ hs) = grouped res o1 fr gs @ grouped res (end_pos o1 (concat gs)) (fr + group_rows (concat gs)) hs"
  by (induction gs arbitrary: o1 fr) (auto simp: add.assoc)

lemma grouped_Nil [simp]: "grouped res o1 fr gs = [] \<longleftrightarrow> gs = []"
  by (cases gs) auto

lemma last_grouped:
  assumes "gs \<noteq> []"
  shows "\<exists>o2 fr2. last (grouped res o1 fr gs) = summary res o2 fr2 (last gs) \<and> fr2 + group_rows (last gs) = fr + group_rows (concat gs)"
  using assms
proof (induction gs arbitrary: o1 fr)
  case (Cons g gs)
  then show ?case
  proof (cases "gs = []")
    case False
    from Cons.IH [OF this, of "end_pos o1 g" "fr + group_rows g"] False show ?thesis by (auto simp: add.assoc)
  qed auto
qed simp

lemma summary_Nil [simp]: "summary res o1 fr [] = block_new o1 fr"
  by (simp add: summary_def)

lemma index_batch_fold:
  assumes "group_rows g < block_rows"
  shows "\<exists>ds tl. g @ bs = concat ds @ tl \<and> (\<forall>x\<in>set ds. closed_group x) \<and> group_rows tl < block_rows \<and>
    fold (index_batch res) bs (done1, summary res o1 fr g) =
      (done1 @ grouped res o1 fr ds, summary res (end_pos o1 (concat ds)) (fr + group_rows (concat ds)) tl)"
  using assms
proof (induction bs arbitrary: done1 o1 fr g)
  case Nil
  then show ?case by (intro exI [of _ "[]"] exI [of _ g]) simp
next
  case (Cons b bs)
  have add: "block_add res b (summary res o1 fr g) = summary res o1 fr (g @ [b])" by (simp add: summary_def)
  show ?case
  proof (cases "block_rows \<le> group_rows (g @ [b])")
    case True
    have step: "index_batch res b (done1, summary res o1 fr g) =
        (done1 @ [summary res o1 fr (g @ [b])], block_new (fst b) (fr + group_rows (g @ [b])))"
      using True by (simp add: index_batch_def add summary_facts Let_def)
    have "group_rows [] < block_rows" by (simp add: block_rows_def)
    note IH = Cons.IH [OF this, of "done1 @ [summary res o1 fr (g @ [b])]" "fst b" "fr + group_rows (g @ [b])", unfolded append_Nil summary_Nil]
    show ?thesis
    proof (insert IH, elim exE conjE)
      fix ds tl
      assume *: "bs = concat ds @ tl" "\<forall>x\<in>set ds. closed_group x" "group_rows tl < block_rows"
        "fold (index_batch res) bs (done1 @ [summary res o1 fr (g @ [b])], block_new (fst b) (fr + group_rows (g @ [b]))) =
         ((done1 @ [summary res o1 fr (g @ [b])]) @ grouped res (fst b) (fr + group_rows (g @ [b])) ds,
          summary res (end_pos (fst b) (concat ds)) (fr + group_rows (g @ [b]) + group_rows (concat ds)) tl)"
      have "closed_group (g @ [b])" using True Cons.prems by (simp add: closed_group_def)
      moreover have "g @ b # bs = concat ((g @ [b]) # ds) @ tl" using *(1) by simp
      moreover have "fold (index_batch res) (b # bs) (done1, summary res o1 fr g) =
          (done1 @ grouped res o1 fr ((g @ [b]) # ds),
           summary res (end_pos o1 (concat ((g @ [b]) # ds))) (fr + group_rows (concat ((g @ [b]) # ds))) tl)"
        using *(4) step by (simp add: add.assoc)
      ultimately show ?thesis using *(2,3) by (intro exI [of _ "(g @ [b]) # ds"] exI [of _ tl]) simp
    qed
  next
    case False
    have "index_batch res b (done1, summary res o1 fr g) = (done1, summary res o1 fr (g @ [b]))"
      using False by (simp add: index_batch_def add summary_facts Let_def)
    then show ?thesis using Cons.IH [of "g @ [b]" done1 o1 fr] False by auto
  qed
qed

text \<open>An index of a prefix of the segment, and one that leaves no row out.\<close>

definition index_groups ::
  "'f segment \<Rightarrow> segment_index \<Rightarrow> (nat \<times> 'f batch) list list \<Rightarrow> (nat \<times> 'f batch) list \<Rightarrow> (nat \<times> 'f batch) list \<Rightarrow> bool" where
  "index_groups sg ix gs g rest \<longleftrightarrow> sg_batches sg = concat gs @ g @ rest \<and> (\<forall>x\<in>set gs. closed_group x) \<and>
     group_rows g < block_rows \<and> (g = [] \<or> 0 < group_rows g) \<and>
     ix_resource ix = sg_resource sg \<and> ix_header ix = sg_header sg \<and> ix_indexed ix = end_pos (sg_header sg) (concat gs @ g) \<and>
     ix_blocks ix = grouped (sg_resource sg) (sg_header sg) 0 gs @
       (if g = [] then [] else [summary (sg_resource sg) (end_pos (sg_header sg) (concat gs)) (group_rows (concat gs)) g])"

definition seg_ok :: "'f segment \<Rightarrow> bool" where
  "seg_ok sg \<longleftrightarrow> ends_ok (sg_header sg) (sg_batches sg) \<and> end_pos (sg_header sg) (sg_batches sg) \<le> sg_len sg \<and>
     (case sg_bounds sg of None \<Rightarrow> True
      | Some b \<Rightarrow> \<forall>t\<in>set (group_times (sg_resource sg) (sg_batches sg)). tb_min b \<le> t \<and> t \<le> tb_max b)"

definition valid_index :: "'f segment \<Rightarrow> segment_index \<Rightarrow> bool" where
  "valid_index sg ix \<longleftrightarrow> ix_seen ix \<le> sg_len sg \<and>
     (\<exists>gs g rest. index_groups sg ix gs g rest \<and> (ix_seen ix = sg_len sg \<longrightarrow> group_rows rest = 0))"

lemma index_resume_groups:
  assumes "index_groups sg ix gs g rest"
  shows "index_resume ix = (grouped (sg_resource sg) (sg_header sg) 0 gs,
    summary (sg_resource sg) (end_pos (sg_header sg) (concat gs)) (group_rows (concat gs)) g)"
proof (cases "g = []")
  case False
  then show ?thesis using assms by (simp add: index_groups_def index_resume_def summary_facts)
next
  case True
  note a = assms [unfolded index_groups_def True, simplified]
  show ?thesis
  proof (cases "gs = []")
    case True
    then show ?thesis using a \<open>g = []\<close> by (simp add: index_resume_def next_row_def summary_def)
  next
    case False
    obtain o2 fr2 where l: "last (ix_blocks ix) = summary (sg_resource sg) o2 fr2 (last gs)" "fr2 + group_rows (last gs) = group_rows (concat gs)"
      using last_grouped [OF False, of "sg_resource sg" "sg_header sg" 0] a by auto
    have "block_rows \<le> group_rows (last gs)" using a last_in_set [OF False] by (simp add: closed_group_def)
    then show ?thesis using a l False \<open>g = []\<close>
      by (simp add: index_resume_def next_row_def summary_facts)
  qed
qed

lemma extended_groups:
  assumes ok: "seg_ok sg" and ix0: "index_groups sg ix0 gs g rest" "index_start sg known = ix0" "ix_seen ix0 = sg_len sg"
    and tc: "time_column (sg_resource sg) = Inr tcol"
  shows "\<exists>ix gs' g' rest'. extended sg known = Inr ix \<and> ix_seen ix = sg_len sg \<and> index_groups sg ix gs' g' rest' \<and> group_rows rest' = 0 \<and>
    (g' = [] \<or> rest' = [])"
proof -
  let ?res = "sg_resource sg" and ?h = "sg_header sg"
  note g0 = ix0(1) [unfolded index_groups_def]
  have rest: "batches_from ?h (sg_batches sg) (ix_indexed ix0) = rest"
    using batches_from_end [of ?h "concat gs @ g" rest] ok g0 by (simp add: seg_ok_def)
  obtain ds tl where f: "g @ rest = concat ds @ tl" "\<forall>x\<in>set ds. closed_group x" "group_rows tl < block_rows"
    "fold (index_batch ?res) rest ([], summary ?res (end_pos ?h (concat gs)) (group_rows (concat gs)) g) =
      (grouped ?res (end_pos ?h (concat gs)) (group_rows (concat gs)) ds,
       summary ?res (end_pos ?h (concat (gs @ ds))) (group_rows (concat (gs @ ds))) tl)"
    using index_batch_fold [of g rest ?res "[]" "end_pos ?h (concat gs)" "group_rows (concat gs)"] g0 by auto
  let ?new = "grouped ?res (end_pos ?h (concat gs)) (group_rows (concat gs)) ds @
    (if 0 < group_rows tl then [summary ?res (end_pos ?h (concat (gs @ ds))) (group_rows (concat (gs @ ds))) tl] else [])"
  let ?ix = "ix0\<lparr>ix_indexed := (if ?new = [] then ix_indexed ix0 else bl_end (last ?new)),
    ix_blocks := grouped ?res ?h 0 gs @ ?new\<rparr>"
  have eq: "extended sg known = Inr ?ix"
  proof -
    have r: "ix_resource ix0 = ?res" using g0 by simp
    show ?thesis
      by (simp only: extended_def Let_def ix0(2) r tc sum.case rest index_resume_groups [OF ix0(1)] f(4) prod.case summary_facts(5))
        (cases "0 < group_rows tl", simp_all only: if_True if_False append_Nil2 simp_thms)
  qed
  let ?g = "if 0 < group_rows tl then tl else []" and ?rest = "if 0 < group_rows tl then [] else tl"
  have end1: "bl_end (last (grouped ?res o1 fr ds)) = end_pos o1 (concat ds)" if "ds \<noteq> []" for o1 fr
    using that f(2)
  proof (induction ds arbitrary: o1 fr)
    case (Cons d ds)
    then show ?case using closed_group_rows [of d] by (cases "ds = []") (auto simp: summary_facts end_pos_def)
  qed simp
  have "(if ?new = [] then ix_indexed ix0 else bl_end (last ?new)) = end_pos ?h (concat (gs @ ds) @ ?g)"
  proof (cases "0 < group_rows tl")
    case True
    then have "tl \<noteq> []" by auto
    with True show ?thesis by (simp add: summary_facts end_pos_def)
  next
    case False
    have "g = []" if "ds = []" using f(1) False g0 that by (metis append_self_conv2 concat.simps(1) group_simps(3) add_is_0 neq0_conv)
    with False show ?thesis using g0 end1 by (cases "ds = []") auto
  qed
  moreover have "sg_batches sg = concat (gs @ ds) @ ?g @ ?rest" using g0 f(1) by simp
  ultimately have "index_groups sg ?ix (gs @ ds) ?g ?rest"
    using g0 f(2,3) by (auto simp: index_groups_def grouped_append)
  moreover have "group_rows ?rest = 0" "ix_seen ?ix = sg_len sg" "?g = [] \<or> ?rest = []" using ix0(3) by auto
  ultimately show ?thesis using eq by blast
qed

lemma index_start_groups:
  assumes "seg_ok sg" "\<And>ix. known = Some ix \<Longrightarrow> valid_index sg ix"
  shows "\<exists>gs g rest. index_groups sg (index_start sg known) gs g rest \<and> ix_seen (index_start sg known) = sg_len sg"
proof (cases known)
  case None
  then show ?thesis
    by (intro exI [of _ "[]"] exI [of _ "[]"] exI [of _ "sg_batches sg"]) (simp add: index_start_def index_groups_def block_rows_def)
next
  case (Some ix)
  then obtain gs g rest where i: "index_groups sg ix gs g rest" using assms(2) by (auto simp: valid_index_def)
  have "ix_indexed ix \<le> end_pos (sg_header sg) (sg_batches sg)"
    using i assms(1) end_pos_ge [of "end_pos (sg_header sg) (concat gs @ g)" rest] by (simp add: index_groups_def seg_ok_def)
  also have "\<dots> \<le> sg_len sg" using assms(1) by (simp add: seg_ok_def)
  finally show ?thesis using i Some
    by (intro exI [of _ gs] exI [of _ g] exI [of _ rest]) (simp add: index_start_def index_groups_def)
qed

lemma extended_valid:
  assumes "seg_ok sg" "\<And>ix. known = Some ix \<Longrightarrow> valid_index sg ix" "time_column (sg_resource sg) = Inr tcol"
  shows "\<exists>ix. extended sg known = Inr ix \<and> ix_seen ix = sg_len sg \<and> valid_index sg ix"
proof -
  obtain gs g rest where i: "index_groups sg (index_start sg known) gs g rest" "ix_seen (index_start sg known) = sg_len sg"
    using index_start_groups [OF assms(1,2)] by blast
  from extended_groups [OF assms(1) i(1) refl i(2) assms(3)] obtain ix gs' g' rest' where
    "extended sg known = Inr ix" "ix_seen ix = sg_len sg" "index_groups sg ix gs' g' rest'" "group_rows rest' = 0" by blast
  then show ?thesis by (intro exI [of _ ix]) (auto simp: valid_index_def)
qed

subsection \<open>A table\<close>

lemma resource_matches_columns: "resource_matches a b \<Longrightarrow> res_columns a = res_columns b"
  by (auto simp: resource_matches_def list_all_length intro!: nth_equalityI column.equality)

lemma resource_matches_time:
  "resource_matches a b \<Longrightarrow> time_column a = time_column b" "resource_matches a b \<Longrightarrow> row_time a r = row_time b r"
  by (drule resource_matches_columns, simp add: time_column_def row_time_def)+

lemma matched_times: "resource_matches a b \<Longrightarrow> batch_times a rows = batch_times b rows"
  by (simp add: batch_times_def List.map_filter_def resource_matches_time [of a b] comp_def)

lemma matched_group_times: "resource_matches a b \<Longrightarrow> group_times a g = group_times b g"
  by (simp add: group_times_def matched_times [of a b] comp_def)

lemma matched_summary: "resource_matches a b \<Longrightarrow> summary a o1 fr g = summary b o1 fr g"
  by (simp add: summary_def block_add_def [abs_def] matched_times [of a b])

lemma matched_grouped: "resource_matches a b \<Longrightarrow> grouped a o1 fr gs = grouped b o1 fr gs"
  by (induction gs arbitrary: o1 fr) (auto simp: matched_summary)

lemma index_read_group:
  assumes "seg_ok sg" "sg_batches sg = P @ g @ R" "g \<noteq> []"
  shows "index_read sg (summary res (end_pos (sg_header sg) P) fr g) = numbered fr g"
proof -
  have "batches_from (sg_header sg) (P @ g @ R) (end_pos (sg_header sg) P) = g @ R"
    using batches_from_end [of "sg_header sg" P "g @ R"] assms(1,2) by (simp add: seg_ok_def)
  moreover have "ends_ok (end_pos (sg_header sg) P) g" using assms(1,2) by (simp add: seg_ok_def)
  ultimately show ?thesis
    using read_upto_group [of "end_pos (sg_header sg) P" g fr R] assms(2,3) by (simp add: index_read_def summary_facts end_pos_def)
qed

lemma search_groups:
  assumes "seg_ok sg" "sg_batches sg = P @ concat gs @ R" "\<forall>g\<in>set gs. g \<noteq> []" "best_inv F s"
  shows "best_inv (F @ matches_of fo (se_resource s) (se_window s) (sg_name sg) (numbered (group_rows P) (concat gs)))
      (fold (search_block fo sg) (grouped (se_resource s) (end_pos (sg_header sg) P) (group_rows P) gs) s) \<and>
    same_query s (fold (search_block fo sg) (grouped (se_resource s) (end_pos (sg_header sg) P) (group_rows P) gs) s) \<and>
    se_matched (fold (search_block fo sg) (grouped (se_resource s) (end_pos (sg_header sg) P) (group_rows P) gs) s) =
      map_option (\<lambda>m. m + int (length (matches_of fo (se_resource s) (se_window s) (sg_name sg) (numbered (group_rows P) (concat gs)))))
        (se_matched s)"
  using assms(2-)
proof (induction gs arbitrary: P F s)
  case Nil
  then show ?case by (simp add: option.map_ident)
next
  case (Cons g gs)
  let ?blk = "summary (se_resource s) (end_pos (sg_header sg) P) (group_rows P) g"
  let ?s = "search_block fo sg ?blk s"
  have "index_read sg ?blk = numbered (group_rows P) g"
    using index_read_group [OF assms(1), of P g "concat gs @ R"] Cons.prems(1,2) by simp
  note b = best_inv_block [OF Cons.prems(3) refl this, of fo]
  have q: "se_resource ?s = se_resource s" "se_window ?s = se_window s" using b by (simp_all add: same_query_def)
  have "sg_batches sg = (P @ g) @ concat gs @ R" "\<forall>g\<in>set gs. g \<noteq> []" using Cons.prems by auto
  note bs = Cons.IH [OF this conjunct1 [OF b], unfolded q]
  have "same_query s (fold (search_block fo sg) (grouped (se_resource s) (end_pos (sg_header sg) (P @ g)) (group_rows (P @ g)) gs) ?s)"
    using b bs same_query_trans by blast
  with b bs show ?case by (simp add: numbered_append option.map_comp comp_def add.assoc)
qed

definition seg_matches :: "'f float_ops \<Rightarrow> resource \<Rightarrow> 'f window \<Rightarrow> 'f segment \<Rightarrow> (key_tuple \<times> 'f db_record) list" where
  "seg_matches fo res wn sg = matches_of fo res wn (sg_name sg) (numbered 0 (sg_batches sg))"

definition table_matches :: "'f float_ops \<Rightarrow> resource \<Rightarrow> 'f window \<Rightarrow> 'f segment list \<Rightarrow> (key_tuple \<times> 'f db_record) list" where
  "table_matches fo res wn sgs = concat (map (seg_matches fo res wn) sgs)"

lemma rowless_matches: "group_rows g = 0 \<Longrightarrow> matches_of fo res wn seg (numbered fr g) = []"
proof (rule ccontr)
  assume g: "group_rows g = 0" "matches_of fo res wn seg (numbered fr g) \<noteq> []"
  then obtain x where "x \<in> set (matches_of fo res wn seg (numbered fr g))" by (meson last_in_set)
  from matching_in [OF this] g(1) show False by auto
qed

lemma search_segment:
  assumes "seg_ok sg" "index_groups sg ix gs g rest" "group_rows rest = 0" "resource_matches (sg_resource sg) (se_resource s)" "best_inv F s"
  shows "best_inv (F @ seg_matches fo (se_resource s) (se_window s) sg) (fold (search_block fo sg) (ix_blocks ix) s) \<and>
    same_query s (fold (search_block fo sg) (ix_blocks ix) s) \<and>
    se_matched (fold (search_block fo sg) (ix_blocks ix) s) =
      map_option (\<lambda>m. m + int (length (seg_matches fo (se_resource s) (se_window s) sg))) (se_matched s)"
proof -
  let ?gs = "gs @ (if g = [] then [] else [g])"
  have blocks: "ix_blocks ix = grouped (se_resource s) (sg_header sg) 0 ?gs"
    using assms(2) by (auto simp: index_groups_def grouped_append matched_grouped [OF assms(4)] matched_summary [OF assms(4)])
  have parts: "sg_batches sg = [] @ concat ?gs @ rest" "\<forall>x\<in>set ?gs. x \<noteq> []"
    using assms(2) closed_group_rows by (auto simp: index_groups_def)
  have "seg_matches fo (se_resource s) (se_window s) sg = matches_of fo (se_resource s) (se_window s) (sg_name sg) (numbered 0 (concat ?gs))"
    using parts(1) rowless_matches [OF assms(3)] by (simp add: seg_matches_def numbered_append del: concat_append)
  then show ?thesis using search_groups [OF assms(1) parts assms(5), of fo] blocks by simp
qed

definition table_ok :: "resource \<Rightarrow> 'f segment list \<Rightarrow> bool" where
  "table_ok res sgs \<longleftrightarrow> sorted_wrt (\<lambda>a b. sg_name a < sg_name b) sgs \<and>
     (\<forall>sg\<in>set sgs. seg_ok sg \<and> resource_matches (sg_resource sg) res)"

definition indexes_ok :: "'f segment list \<Rightarrow> indexes \<Rightarrow> bool" where
  "indexes_ok sgs idx \<longleftrightarrow> (\<forall>sg\<in>set sgs. \<forall>ix. idx (sg_name sg) = Some ix \<longrightarrow> valid_index sg ix)"

lemma indexes_get_ok:
  assumes "seg_ok sg" "sg \<in> set sgs" "inj_on sg_name (set sgs)" "indexes_ok sgs idx" "time_column (sg_resource sg) = Inr tcol"
  shows "\<exists>ix idx' gs g rest. indexes_get sg idx = Inr (ix, idx') \<and> ix_resource ix = sg_resource sg \<and>
    index_groups sg ix gs g rest \<and> group_rows rest = 0 \<and> indexes_ok sgs idx'"
proof -
  have known: "valid_index sg ix" if "idx (sg_name sg) = Some ix" for ix using assms(2,4) that by (auto simp: indexes_ok_def)
  have upd: "indexes_ok sgs (idx(sg_name sg \<mapsto> ix))" if "valid_index sg ix" for ix
    using assms(2,3,4) that by (auto simp: indexes_ok_def dest: inj_onD)
  obtain ix where ix: "extended sg (idx (sg_name sg)) = Inr ix" "ix_seen ix = sg_len sg" "valid_index sg ix"
    using extended_valid [OF assms(1) known assms(5)] by blast
  show ?thesis
  proof (cases "\<exists>ix0. idx (sg_name sg) = Some ix0 \<and> ix_seen ix0 = sg_len sg")
    case True
    then obtain ix0 where i: "idx (sg_name sg) = Some ix0" "ix_seen ix0 = sg_len sg" by blast
    then obtain gs g rest where v: "index_groups sg ix0 gs g rest" "group_rows rest = 0" using known by (auto simp: valid_index_def)
    have "indexes_get sg idx = Inr (ix0, idx)" "ix_resource ix0 = sg_resource sg" using i v by (auto simp: indexes_get_def index_groups_def)
    with v assms(4) show ?thesis by blast
  next
    case False
    then have "indexes_get sg idx = Inr (ix, idx(sg_name sg \<mapsto> ix))" using ix(1) by (auto simp: indexes_get_def split: option.splits)
    moreover obtain gs g rest where "index_groups sg ix gs g rest" "group_rows rest = 0" using ix(2,3) by (auto simp: valid_index_def)
    ultimately show ?thesis using upd [OF ix(3)] by (auto simp: index_groups_def)
  qed
qed

lemma bounds_skip:
  assumes "seg_ok sg" "resource_matches (sg_resource sg) res" "sg_bounds sg = Some b" "bounds_outside b (wn_start wn) (wn_end wn)"
  shows "seg_matches fo res wn sg = []"
proof (rule ccontr)
  assume "seg_matches fo res wn sg \<noteq> []"
  then obtain x where "x \<in> set (seg_matches fo res wn sg)" by (meson last_in_set)
  then obtain t where "t \<in> set (group_times res (sg_batches sg))" "in_window wn t"
    using matching_in unfolding seg_matches_def by blast
  then show False using assms by (auto simp: seg_ok_def bounds_outside_def in_window_def matched_group_times [OF assms(2)])
qed

lemma search_segments_ok:
  assumes "table_ok res all" "indexes_ok all idx" "set sgs \<subseteq> set all" "time_column res = Inr tcol"
    "best_inv F s" "se_resource s = res" "se_window s = wn"
  shows "\<exists>s' idx'. search_segments fo res wn sgs idx s = (Inr s', idx') \<and> indexes_ok all idx' \<and>
    best_inv (F @ table_matches fo res wn sgs) s' \<and> same_query s s' \<and>
    se_matched s' = map_option (\<lambda>m. m + int (length (table_matches fo res wn sgs))) (se_matched s)"
  using assms(2,3,5-)
proof (induction sgs arbitrary: idx F s)
  case Nil
  then show ?case by (simp add: table_matches_def option.map_ident)
next
  case (Cons sg sgs)
  have sg: "seg_ok sg" "resource_matches (sg_resource sg) res" "sg \<in> set all" using assms(1) Cons.prems(2) by (auto simp: table_ok_def)
  have inj: "inj_on sg_name (set all)"
  proof -
    have "sorted_wrt (<) (map sg_name all)" using assms(1) by (simp add: table_ok_def sorted_wrt_map)
    then have "distinct (map sg_name all)" using strict_sorted_iff by blast
    then show ?thesis by (simp add: distinct_map)
  qed
  show ?case
  proof (cases "case sg_bounds sg of Some b \<Rightarrow> bounds_outside b (wn_start wn) (wn_end wn) | None \<Rightarrow> False")
    case True
    then have "seg_matches fo res wn sg = []" using bounds_skip [OF sg(1,2)] by (auto split: option.splits)
    then show ?thesis using Cons.IH [of idx F s] Cons.prems True by (auto simp: table_matches_def)
  next
    case False
    have tc: "time_column (sg_resource sg) = Inr tcol" using assms(4) resource_matches_time(1) [OF sg(2)] by simp
    obtain ix idx' gs g rest where i: "indexes_get sg idx = Inr (ix, idx')" "ix_resource ix = sg_resource sg"
      "index_groups sg ix gs g rest" "group_rows rest = 0" "indexes_ok all idx'"
      using indexes_get_ok [OF sg(1,3) inj Cons.prems(1) tc] by blast
    let ?s = "fold (search_block fo sg) (ix_blocks ix) s"
    have "resource_matches (sg_resource sg) (se_resource s)" using sg(2) Cons.prems(4) by simp
    note b = search_segment [OF sg(1) i(3,4) this Cons.prems(3), of fo, unfolded Cons.prems(4,5)]
    have q: "se_resource ?s = res" "se_window ?s = wn" using b Cons.prems(4,5) by (simp_all add: same_query_def)
    have sub: "set sgs \<subseteq> set all" using Cons.prems(2) by simp
    obtain s' idx2 where r: "search_segments fo res wn sgs idx' ?s = (Inr s', idx2)" "indexes_ok all idx2"
      "best_inv ((F @ seg_matches fo res wn sg) @ table_matches fo res wn sgs) s'" "same_query ?s s'"
      "se_matched s' = map_option (\<lambda>m. m + int (length (table_matches fo res wn sgs))) (se_matched ?s)"
      using Cons.IH [OF i(5) sub conjunct1 [OF b] q] by blast
    have "search_segments fo res wn (sg # sgs) idx s = (Inr s', idx2)" using False i(1,2) sg(2) r(1) by simp
    moreover have "same_query s s'" using b r(4) same_query_trans by blast
    ultimately show ?thesis using r(2,3,5) b by (simp add: table_matches_def option.map_comp comp_def add.assoc)
  qed
qed

subsection \<open>The order of a table\<close>

abbreviation ascending :: "(key_tuple \<times> 'f db_record) list \<Rightarrow> bool" where
  "ascending \<equiv> sorted_wrt (\<lambda>a b. snd (fst a) < snd (fst b))"

lemma inside_ascending: "ascending (inside_rows res wn seg first rows)"
proof (induction rows arbitrary: first)
  case (Cons r rows)
  then show ?case by (auto simp: sorted_wrt_append less_prod_def split: option.splits dest!: inside_rows_in)
qed simp

lemma matches_ascending: "ascending (matches_of fo res wn seg (numbered fr g))"
proof (induction g arbitrary: fr)
  case (Cons b g)
  obtain e rows where b: "b = (e, rows)" by (cases b)
  have "snd (fst x) < snd (fst y)"
    if "x \<in> set (matching fo res wn seg (fr, rows))" "y \<in> set (matches_of fo res wn seg (numbered (fr + length rows) g))" for x y
    using that by (auto simp: matching_def less_prod_def dest!: inside_rows_in matching_in)
  then show ?case using Cons.IH by (simp add: b sorted_wrt_append matching_def inside_ascending sorted_wrt_filter)
qed simp

lemma table_ascending: "sorted_wrt (\<lambda>a b. sg_name a < sg_name b) sgs \<Longrightarrow> ascending (table_matches fo res wn sgs)"
proof (induction sgs)
  case (Cons sg sgs)
  have "snd (fst x) < snd (fst y)"
    if x: "x \<in> set (seg_matches fo res wn sg)" and y: "y \<in> set (table_matches fo res wn sgs)" for x y
  proof -
    obtain sg' where "sg' \<in> set sgs" "y \<in> set (seg_matches fo res wn sg')" using y by (auto simp: table_matches_def)
    then show ?thesis using x Cons.prems by (auto simp: seg_matches_def less_prod_def dest!: matching_in)
  qed
  then show ?case using Cons by (simp add: table_matches_def sorted_wrt_append seg_matches_def matches_ascending)
qed (simp add: table_matches_def)

lemma map_insort_key: "map f (insort_key (\<lambda>y. g (f y)) x xs) = insort_key g (f x) (map f xs)"
  by (induction xs) auto

lemma map_sort_key: "map f (sort_key (\<lambda>y. g (f y)) xs) = sort_key g (map f xs)"
  by (induction xs) (simp_all add: map_insort_key)

lemma sort_key_same: "(\<And>x. x \<in> set xs \<Longrightarrow> f x = g x) \<Longrightarrow> sort_key f xs = sort_key g xs"
proof (induction xs)
  case (Cons x xs)
  have "insort_key f x ys = insort_key g x ys" if "\<forall>y\<in>set (x # ys). f y = g y" for ys using that by (induction ys) auto
  then show ?case using Cons by simp
qed simp

lemma sort_key_unique:
  assumes "mset xs = mset ys" "inj_on f (set ys)"
  shows "sort_key f xs = sort_key f ys"
proof -
  have s: "set xs = set ys" using assms(1) by (rule mset_eq_setD)
  have "sort (map f (sort_key f ys)) = map f (sort_key f xs)"
    by (rule properties_for_sort) (use assms(1) in \<open>simp_all add: sorted_sort_key\<close>)
  moreover have "sort (map f (sort_key f ys)) = map f (sort_key f ys)" by (simp add: sorted_sort_id sorted_sort_key)
  ultimately have "map f (sort_key f xs) = map f (sort_key f ys)" by simp
  then show ?thesis by (rule map_inj_on) (use assms(2) s in simp)
qed

text \<open>Sorting by a first key keeps the order of a second one that the list already has.\<close>

lemma sort_key_refine:
  assumes "sorted_wrt (\<lambda>a b. g a < g b) xs"
  shows "sort_key f xs = sort_key (\<lambda>x. (f x, g x)) xs"
proof (rule properties_for_sort_key)
  let ?h = "\<lambda>x. (f x, g x)"
  have "sorted_wrt (\<lambda>a b. ?h a \<le> ?h b) (sort_key ?h xs)" using sorted_sort_key [of ?h xs] by (simp add: sorted_wrt_map)
  then have "sorted_wrt (\<lambda>a b. f a \<le> f b) (sort_key ?h xs)" by (rule sorted_wrt_mono_rel [rotated]) (auto simp: less_eq_prod_def)
  then show "sorted (map f (sort_key ?h xs))" by (simp add: sorted_wrt_map)
  show "filter (\<lambda>x. f k = f x) (sort_key ?h xs) = filter (\<lambda>x. f k = f x) xs" for k
  proof -
    have "sorted_wrt (\<lambda>a b. g a < g b) (filter (\<lambda>x. f k = f x) xs)" using assms by (rule sorted_wrt_filter)
    then have "sorted_wrt (\<lambda>a b. ?h a \<le> ?h b) (filter (\<lambda>x. f k = f x) xs)"
      by (rule sorted_wrt_mono_rel [rotated]) (auto simp: less_eq_prod_def)
    then have "sort_key ?h (filter (\<lambda>x. f k = f x) xs) = filter (\<lambda>x. f k = f x) xs"
      by (intro sort_key_id_if_sorted) (simp add: sorted_wrt_map)
    then show ?thesis by (simp add: filter_sort)
  qed
qed simp

definition table_rows :: "'f segment list \<Rightarrow> 'f db_record list" where
  "table_rows sgs = concat (map (\<lambda>sg. concat (map snd (sg_batches sg))) sgs)"

lemma matching_rows: "map snd (matching fo res wn seg (fr, rows)) = filter (keep_row fo res wn) rows"
  unfolding matching_def by (induction rows arbitrary: fr) (auto simp: keep_row_def split: option.splits)

lemma matches_rows: "map snd (matches_of fo res wn seg (numbered fr g)) = filter (keep_row fo res wn) (concat (map snd g))"
  by (induction g arbitrary: fr) (auto simp: matching_rows)

lemma table_matches_rows: "map snd (table_matches fo res wn sgs) = filter (keep_row fo res wn) (table_rows sgs)"
  by (induction sgs) (auto simp: table_matches_def table_rows_def seg_matches_def matches_rows)

definition in_order :: "bool \<Rightarrow> (key_tuple \<times> 'f db_record) list \<Rightarrow> (key_tuple \<times> 'f db_record) list" where
  "in_order d M = sort_key (\<lambda>x. rank d (fst x)) M"

lemma in_order_stable:
  assumes "table_ok res sgs"
  shows "map snd (in_order d (table_matches fo res wn sgs)) =
    sort_key (time_key res d) (filter (keep_row fo res wn) (table_rows sgs))"
proof -
  let ?M = "table_matches fo res wn sgs" and ?f = "\<lambda>x. if d then - fst (fst x) else fst (fst x)"
  have key: "time_key res d (snd x) = ?f x" if x: "x \<in> set ?M" for x
  proof -
    obtain seg fr rows where "x \<in> set (inside_rows res wn seg fr rows)"
      using x by (auto simp: table_matches_def seg_matches_def matches_of_def matching_def)
    from inside_rows_in [OF this] show ?thesis by (auto simp: time_key_def)
  qed
  have "in_order d ?M = sort_key ?f ?M"
    using sort_key_refine [of "\<lambda>x. snd (fst x)" ?M ?f] table_ascending [of sgs] assms
    by (simp add: in_order_def table_ok_def rank_def)
  also have "\<dots> = sort_key (\<lambda>y. time_key res d (snd y)) ?M" by (rule sort_key_same) (use key in auto)
  finally show ?thesis by (simp add: map_sort_key table_matches_rows)
qed

lemma in_order_strict:
  assumes "table_ok res sgs"
  shows "sorted_wrt (\<lambda>a b. rank d (fst a) < rank d (fst b)) (in_order d (table_matches fo res wn sgs))"
    "inj_on (\<lambda>x. rank d (fst x)) (set (table_matches fo res wn sgs))"
proof -
  let ?M = "table_matches fo res wn sgs" and ?r = "\<lambda>x. rank d (fst x)"
  have "sorted_wrt (<) (map (snd \<circ> fst) ?M)" using table_ascending [of sgs] assms by (simp add: table_ok_def sorted_wrt_map)
  then have "distinct (map (snd \<circ> fst) ?M)" using strict_sorted_iff by blast
  then have d: "inj_on (snd \<circ> fst) (set ?M)" "distinct ?M" by (simp_all add: distinct_map)
  show inj: "inj_on ?r (set ?M)" using d(1) by (auto simp: inj_on_def rank_def)
  have "distinct (map ?r (in_order d ?M))" using inj d(2) by (simp add: distinct_map in_order_def)
  moreover have "sorted (map ?r (in_order d ?M))" by (simp add: in_order_def sorted_sort_key)
  ultimately have "sorted_wrt (<) (map ?r (in_order d ?M))" by (simp add: strict_sorted_iff)
  then show "sorted_wrt (\<lambda>a b. ?r a < ?r b) (in_order d ?M)" by (simp add: sorted_wrt_map)
qed

lemma rows_after:
  assumes "sorted_wrt (\<lambda>a b. r a < (r b :: key_tuple)) S" "0 < m" "m \<le> length S"
  shows "filter (\<lambda>x. r (S ! (m - 1)) < r x) S = drop m S"
proof -
  have "\<not> r (S ! (m - 1)) < r x" if x: "x \<in> set (take m S)" for x
  proof -
    obtain i where i: "i < m" "x = S ! i" using x assms(3) by (auto simp: in_set_conv_nth)
    show ?thesis
    proof (cases "i = m - 1")
      case False
      then show ?thesis using sorted_wrt_nth_less [OF assms(1), of i "m - 1"] i assms(2,3) by (auto simp: not_less less_imp_le)
    qed (use i in simp)
  qed
  then have "filter (\<lambda>x. r (S ! (m - 1)) < r x) (take m S) = []" by (simp add: filter_empty_conv)
  moreover have "filter (\<lambda>x. r (S ! (m - 1)) < r x) (drop m S) = drop m S"
  proof (rule filter_True, rule ballI)
    fix x assume "x \<in> set (drop m S)"
    then obtain j where "j < length S - m" "x = S ! (m + j)" by (auto simp: in_set_conv_nth)
    then show "r (S ! (m - 1)) < r x" using sorted_wrt_nth_less [OF assms(1), of "m - 1" "m + j"] assms(2) by simp
  qed
  ultimately show ?thesis using filter_append [of _ "take m S" "drop m S"] by (metis append_Nil append_take_drop_id)
qed

subsection \<open>A page\<close>

text \<open>The page of the rows left after a cursor.\<close>

definition page_of ::
  "token_codec \<Rightarrow> string \<Rightarrow> nat \<Rightarrow> int \<Rightarrow> (key_tuple \<times> 'f db_record) list \<Rightarrow> 'f list_result db_result" where
  "page_of tc scope limit n R =
     (case (if length R > limit then tc_encode tc \<lparr>cu_scope = scope, cu_total = n, cu_after = key_owned (fst (R ! (limit - 1)))\<rparr>
            else Inr '''') of
        Inl e \<Rightarrow> Inl e
      | Inr t \<Rightarrow> Inr \<lparr>lr_items = map snd (take limit R), lr_next_page_token = t, lr_total = n\<rparr>)"

definition rows_left :: "bool \<Rightarrow> cursor option \<Rightarrow> (key_tuple \<times> 'f db_record) list \<Rightarrow> (key_tuple \<times> 'f db_record) list" where
  "rows_left d cur S =
     (case cur of None \<Rightarrow> S | Some c \<Rightarrow> filter (\<lambda>x. rank d (key_parts (cu_after c)) < rank d (fst x)) S)"

lemma page_result_of:
  assumes "0 < wn_limit wn" "se_best s = map entry_of (take (wn_limit wn + 1) R)"
    "n = (case carried of Some n \<Rightarrow> n | None \<Rightarrow> (case se_matched s of Some n \<Rightarrow> n | None \<Rightarrow> -1))"
  shows "page_result tc scope wn carried s = page_of tc scope (wn_limit wn) n R"
proof -
  have kept: "take (wn_limit wn) (se_best s) = map entry_of (take (wn_limit wn) R)" using assms(2) by (simp add: take_map min_def)
  have len: "length (se_best s) > wn_limit wn \<longleftrightarrow> length R > wn_limit wn" using assms(2) by auto
  have ne: "take (wn_limit wn) R \<noteq> []" if "length R > wn_limit wn" using that assms(1) by auto
  have last: "en_key (last (map entry_of (take (wn_limit wn) R))) = key_owned (fst (R ! (wn_limit wn - 1)))" if l: "length R > wn_limit wn"
    using l assms(1) last_map [OF ne [OF l], of entry_of] last_conv_nth [OF ne [OF l]] by (simp add: entry_of_def)
  have items: "map en_record (map entry_of xs) = map snd xs" for xs :: "(key_tuple \<times> 'a db_record) list"
    by (simp add: entry_of_def)
  show ?thesis
  proof (cases "length R > wn_limit wn")
    case True
    then show ?thesis using last [OF True] ne [OF True] assms(3) by (simp only: page_result_def page_of_def Let_def kept len items) simp
  next
    case False
    then show ?thesis using assms(3) by (simp only: page_result_def page_of_def Let_def kept len items) simp
  qed
qed

lemma seek_page_ok:
  assumes "table_ok res sgs" "indexes_ok sgs idx" "time_column res = Inr tcol" "0 < wn_limit wn"
    "page_cursor tc (scope_of res wn) token = Inr cur"
  shows "\<exists>idx'. indexes_ok sgs idx' \<and> seek_page fo tc scope_of res wn token want sgs idx =
    (page_of tc (scope_of res wn) (wn_limit wn)
       (case cur of Some c \<Rightarrow> cu_total c | None \<Rightarrow> if want then int (length (table_matches fo res wn sgs)) else -1)
       (rows_left (wn_descending wn) cur (in_order (wn_descending wn) (table_matches fo res wn sgs))), idx')"
proof -
  let ?M = "table_matches fo res wn sgs" and ?d = "wn_descending wn"
  define s0 where "s0 = \<lparr>se_resource = res, se_window = wn, se_after = map_option cu_after cur, se_capacity = wn_limit wn + 1,
    se_best = [], se_matched = (if cur = None \<and> want then Some 0 else None)\<rparr>"
  have new: "search_new res wn (map_option cu_after cur) (map_option cu_total cur = None \<and> want) = Inr s0"
    using assms(3) by (simp add: search_new_def s0_def)
  have "best_inv [] s0" by (simp add: best_inv_def s0_def)
  from search_segments_ok [OF assms(1,2) order_refl assms(3) this, of wn fo]
  obtain s idx' where s: "search_segments fo res wn sgs idx s0 = (Inr s, idx')" "indexes_ok sgs idx'" "best_inv ?M s"
    "same_query s0 s" "se_matched s = map_option (\<lambda>m. m + int (length ?M)) (se_matched s0)"
    by (auto simp: s0_def)
  have q: "se_desc s = ?d" "se_capacity s = wn_limit wn + 1" using s(4) by (simp_all add: same_query_def s0_def)
  let ?P = "\<lambda>x. after_cursor s (fst x)"
  obtain G where G: "mset G = mset (filter ?P ?M)"
    "se_best s = take (wn_limit wn + 1) (sort_key (entry_rank ?d) (map entry_of G))"
    using s(3) q by (auto simp: best_inv_def)
  have "sort_key (entry_rank ?d) (map entry_of G) = map entry_of (sort_key (\<lambda>x. rank ?d (fst x)) G)"
    using map_sort_key [of entry_of "entry_rank ?d" G] by simp
  also have "sort_key (\<lambda>x. rank ?d (fst x)) G = sort_key (\<lambda>x. rank ?d (fst x)) (filter ?P ?M)"
    by (rule sort_key_unique [OF G(1)]) (use in_order_strict(2) [OF assms(1)] in \<open>auto intro: inj_on_subset\<close>)
  also have "\<dots> = filter ?P (in_order ?d ?M)" by (simp add: in_order_def filter_sort)
  also have "\<dots> = rows_left ?d cur (in_order ?d ?M)"
    using s(4) q by (auto simp: rows_left_def after_cursor_rank same_query_def s0_def split: option.splits)
  finally have "se_best s = map entry_of (take (wn_limit wn + 1) (rows_left ?d cur (in_order ?d ?M)))"
    using G(2) by (simp add: take_map)
  from page_result_of [OF assms(4) this refl, of tc "scope_of res wn" "map_option cu_total cur"]
  have "page_result tc (scope_of res wn) wn (map_option cu_total cur) s = page_of tc (scope_of res wn) (wn_limit wn)
      (case cur of Some c \<Rightarrow> cu_total c | None \<Rightarrow> if want then int (length ?M) else -1) (rows_left ?d cur (in_order ?d ?M))"
    using s(5) by (cases cur) (auto simp: s0_def)
  then show ?thesis using s(1,2) new assms(5) by (auto simp: seek_page_def Let_def)
qed

text \<open>Reading page after page, with fuel for the number of pages.\<close>

fun read_pages ::
  "nat \<Rightarrow> 'f float_ops \<Rightarrow> token_codec \<Rightarrow> (resource \<Rightarrow> 'f window \<Rightarrow> string) \<Rightarrow> resource \<Rightarrow> 'f window \<Rightarrow> string \<Rightarrow>
   'f segment list \<Rightarrow> indexes \<Rightarrow> 'f list_result list option" where
  "read_pages 0 fo tc scope_of res wn token sgs idx = None"
| "read_pages (Suc fuel) fo tc scope_of res wn token sgs idx =
     (case seek_page fo tc scope_of res wn token True sgs idx of
        (Inl e, idx') \<Rightarrow> None
      | (Inr p, idx') \<Rightarrow>
          if lr_next_page_token p = '''' then Some [p]
          else map_option ((#) p) (read_pages fuel fo tc scope_of res wn (lr_next_page_token p) sgs idx'))"

text \<open>The documented behaviour of the token codec: what it encodes it decodes, and no token is empty.\<close>

definition token_laws :: "token_codec \<Rightarrow> bool" where
  "token_laws tc \<longleftrightarrow> (\<forall>c. \<exists>t. tc_encode tc c = Inr t \<and> t \<noteq> '''' \<and> tc_decode tc t = Some c)"

lemma page_of_more:
  assumes "token_laws tc" "length R > limit"
  shows "\<exists>t. page_of tc scope limit n R = Inr \<lparr>lr_items = map snd (take limit R), lr_next_page_token = t, lr_total = n\<rparr> \<and>
    t \<noteq> '''' \<and> page_cursor tc scope t = Inr (Some \<lparr>cu_scope = scope, cu_total = n, cu_after = key_owned (fst (R ! (limit - 1)))\<rparr>)"
proof -
  obtain t where "tc_encode tc \<lparr>cu_scope = scope, cu_total = n, cu_after = key_owned (fst (R ! (limit - 1)))\<rparr> = Inr t" "t \<noteq> ''''"
    "tc_decode tc t = Some \<lparr>cu_scope = scope, cu_total = n, cu_after = key_owned (fst (R ! (limit - 1)))\<rparr>"
    using assms(1) unfolding token_laws_def by blast
  then show ?thesis using assms(2) by (intro exI [of _ t]) (simp add: page_of_def page_cursor_def cursor_decode_def)
qed

lemma read_pages_from:
  assumes laws: "token_laws tc" and tab: "table_ok res sgs" and tcol: "time_column res = Inr tcol" and lim: "0 < wn_limit wn"
    and S: "S = in_order (wn_descending wn) (table_matches fo res wn sgs)"
  shows "indexes_ok sgs idx \<Longrightarrow> length S - m < fuel \<Longrightarrow> m \<le> length S \<Longrightarrow> page_cursor tc (scope_of res wn) token = Inr cur \<Longrightarrow>
    (if m = 0 then cur = None else cur = Some \<lparr>cu_scope = scope_of res wn, cu_total = int (length S), cu_after = key_owned (fst (S ! (m - 1)))\<rparr>) \<Longrightarrow>
    \<exists>ps. read_pages fuel fo tc scope_of res wn token sgs idx = Some ps \<and> concat (map lr_items ps) = map snd (drop m S) \<and>
      (\<forall>p\<in>set ps. lr_total p = int (length S) \<and> length (lr_items p) \<le> wn_limit wn)"
proof (induction fuel arbitrary: m token cur idx)
  case (Suc fuel)
  let ?d = "wn_descending wn" and ?scope = "scope_of res wn" and ?n = "int (length S)"
  have len: "length S = length (table_matches fo res wn sgs)" by (simp add: S in_order_def)
  have strict: "sorted_wrt (\<lambda>a b. rank ?d (fst a) < rank ?d (fst b)) S" unfolding S by (rule in_order_strict(1) [OF tab])
  have left: "rows_left ?d cur S = drop m S"
    using Suc.prems(5) rows_after [OF strict, of m] Suc.prems(3) by (cases "m = 0") (auto simp: rows_left_def)
  have tot: "(case cur of Some c \<Rightarrow> cu_total c | None \<Rightarrow> if True then int (length (table_matches fo res wn sgs)) else -1) = ?n"
    using Suc.prems(5) len by (auto split: if_splits)
  obtain idx' where page: "indexes_ok sgs idx'"
    "seek_page fo tc scope_of res wn token True sgs idx = (page_of tc ?scope (wn_limit wn) ?n (drop m S), idx')"
    using seek_page_ok [where scope_of = scope_of and fo = fo and want = True, OF tab Suc.prems(1) tcol lim Suc.prems(4)] unfolding tot S [symmetric] left by blast
  show ?case
  proof (cases "length (drop m S) > wn_limit wn")
    case False
    then show ?thesis using page(2) by (simp add: page_of_def)
  next
    case True
    let ?c = "\<lparr>cu_scope = ?scope, cu_total = ?n, cu_after = key_owned (fst (S ! (m + wn_limit wn - 1)))\<rparr>"
    have nth: "drop m S ! (wn_limit wn - 1) = S ! (m + wn_limit wn - 1)" using lim True by simp
    obtain t where t: "page_of tc ?scope (wn_limit wn) ?n (drop m S) =
        Inr \<lparr>lr_items = map snd (take (wn_limit wn) (drop m S)), lr_next_page_token = t, lr_total = ?n\<rparr>"
      "t \<noteq> ''''" "page_cursor tc ?scope t = Inr (Some ?c)"
      using page_of_more [OF laws True, of ?scope ?n] unfolding nth by blast
    have "length S - (m + wn_limit wn) < fuel" "m + wn_limit wn \<le> length S" using Suc.prems(2) lim True by auto
    moreover have "if m + wn_limit wn = 0 then Some ?c = None else Some ?c = Some ?c" using lim by simp
    ultimately obtain ps where
      "read_pages fuel fo tc scope_of res wn t sgs idx' = Some ps" "concat (map lr_items ps) = map snd (drop (m + wn_limit wn) S)"
      "\<forall>p\<in>set ps. lr_total p = ?n \<and> length (lr_items p) \<le> wn_limit wn"
      using Suc.IH [OF page(1) _ _ t(3)] by blast
    moreover have "map snd (drop m S) = map snd (take (wn_limit wn) (drop m S) @ drop (m + wn_limit wn) S)"
      using append_take_drop_id [of "wn_limit wn" "drop m S"] by (simp only: drop_drop add.commute)
    ultimately show ?thesis using page(2) t(1,2) by (simp only: map_append) simp
  qed
qed simp

lemma groups_unique:
  assumes "\<forall>x\<in>set gs. closed_group x" "\<forall>x\<in>set hs. closed_group x" "group_rows t < block_rows" "group_rows u < block_rows"
    "concat gs @ t = concat hs @ u"
  shows "gs = hs \<and> t = u"
  using assms(1,2,5)
proof (induction gs arbitrary: hs)
  case Nil
  show ?case
  proof (cases hs)
    case (Cons h hs')
    then have "group_rows t = group_rows h + group_rows (concat hs' @ u)" using Nil.prems(3) by simp
    then show ?thesis using assms(3) Nil.prems(2) Cons by (simp add: closed_group_def)
  qed (use Nil in simp)
next
  case (Cons g gs)
  show ?case
  proof (cases hs)
    case Nil
    then have "group_rows u = group_rows g + group_rows (concat gs @ t)" using Cons.prems(3) by (metis append_assoc append_Nil concat.simps group_simps(3))
    then show ?thesis using assms(4) Cons.prems(1) by (simp add: closed_group_def)
  next
    case (Cons h hs')
    have cl: "closed_group g" "closed_group h" using Cons.prems(1,2) Cons by auto
    have short: False if "a = b @ us" "us \<noteq> []" "closed_group a" "closed_group b" for a b us :: "(nat \<times> 'a batch) list"
      using that by (auto simp: closed_group_def butlast_append)
    have "g @ (concat gs @ t) = h @ (concat hs' @ u)" using Cons.prems(3) Cons by simp
    then obtain us where "g = h @ us \<and> us @ concat gs @ t = concat hs' @ u \<or> g @ us = h \<and> concat gs @ t = us @ concat hs' @ u"
      using append_eq_append_conv2 [of g "concat gs @ t" h "concat hs' @ u"] by blast
    moreover from this have "us = []" using short [of g h us] short [of h g us] cl by metis
    ultimately have "g = h" "concat gs @ t = concat hs' @ u" by auto
    then show ?thesis using Cons.IH [of hs'] Cons.prems(1,2) Cons by simp
  qed
qed

lemma complete_index_unique:
  assumes "index_groups sg a gs g rest" "group_rows rest = 0" "g = [] \<or> rest = []" "ix_seen a = n"
    "index_groups sg b hs h rest'" "group_rows rest' = 0" "h = [] \<or> rest' = []" "ix_seen b = n"
  shows "a = b"
proof -
  have "gs = hs \<and> g @ rest = h @ rest'"
    using assms by (intro groups_unique) (auto simp: index_groups_def)
  moreover from this have "g = h" using assms by (cases "g = []"; cases "h = []") (auto simp: index_groups_def)
  ultimately show ?thesis using assms(1,4,5,8) by (auto simp: index_groups_def intro!: segment_index.equality)
qed

subsection \<open>Properties\<close>

text \<open>C35: an index that grows. Extending the index of a segment after more batches were appended gives the index
  that reading the whole segment would give.\<close>

theorem index_extension:
  assumes "seg_ok sg" "seg_ok old" "sg_resource sg = sg_resource old" "sg_header sg = sg_header old"
    "sg_batches sg = sg_batches old @ appended" "extended old None = Inr ix"
  shows "extended sg (Some ix) = extended sg None"
proof -
  obtain tcol where tc: "time_column (sg_resource old) = Inr tcol"
    using assms(6) by (auto simp: extended_def index_start_def Let_def split: sum.splits)
  have old0: "\<exists>gs g rest. index_groups old (index_start old None) gs g rest \<and> ix_seen (index_start old None) = sg_len old"
    by (rule index_start_groups [OF assms(2)]) simp
  then obtain gs g rest where o1: "index_groups old ix gs g rest"
    using extended_groups [OF assms(2) _ refl _ tc] assms(6) by fastforce
  then have new: "index_groups sg ix gs g (rest @ appended)" using assms(3,4,5) by (simp add: index_groups_def)
  have start: "index_start sg (Some ix) = ix\<lparr>ix_seen := sg_len sg\<rparr>"
  proof -
    have "ix_indexed ix \<le> sg_len sg"
      using new assms(1) end_pos_ge [of "end_pos (sg_header sg) (concat gs @ g)" "rest @ appended"] by (auto simp: index_groups_def seg_ok_def)
    then show ?thesis by (simp add: index_start_def)
  qed
  have tc': "time_column (sg_resource sg) = Inr tcol" using tc assms(3) by simp
  have "index_groups sg (ix\<lparr>ix_seen := sg_len sg\<rparr>) gs g (rest @ appended)" using new by (simp add: index_groups_def)
  from extended_groups [OF assms(1) this start _ tc'] obtain a gsa ga resta where
    a: "extended sg (Some ix) = Inr a" "ix_seen a = sg_len sg" "index_groups sg a gsa ga resta" "group_rows resta = 0" "ga = [] \<or> resta = []"
    by auto
  have "\<exists>gs g rest. index_groups sg (index_start sg None) gs g rest \<and> ix_seen (index_start sg None) = sg_len sg"
    by (rule index_start_groups [OF assms(1)]) simp
  then obtain b gsb gb restb where
    b: "extended sg None = Inr b" "ix_seen b = sg_len sg" "index_groups sg b gsb gb restb" "group_rows restb = 0" "gb = [] \<or> restb = []"
    using extended_groups [OF assms(1) _ refl _ tc'] by fastforce
  show ?thesis using complete_index_unique [OF a(3,4,5,2) b(3,4,5,2)] a(1) b(1) by simp
qed

definition sample_batch :: "int \<Rightarrow> int \<Rightarrow> unit batch" where
  "sample_batch a b = [sample_row a ''ahu'', sample_row b ''vav'']"

definition short_segment :: "unit segment" where
  "short_segment = \<lparr>sg_name = ''a'', sg_resource = sample_resource, sg_header = 8, sg_batches = [(20, sample_batch 7 3)], sg_len = 22,
     sg_bounds = None\<rparr>"

definition long_segment :: "unit segment" where
  "long_segment = short_segment\<lparr>sg_batches := [(20, sample_batch 7 3), (40, sample_batch 5 3)], sg_len := 40,
     sg_bounds := Some \<lparr>tb_min = 3, tb_max = 7, tb_rows = 4\<rparr>\<rparr>"

lemma sample_time_column: "time_column sample_resource = Inr ''at''"
  by code_simp

lemma sample_row_time: "row_time sample_resource (sample_row t d) = (if - (2 ^ 63) \<le> t \<and> t < 2 ^ 63 then Some t else None)"
  by (simp add: row_time_def sample_time_column sample_row_def)

lemma sample_seg_ok: "seg_ok short_segment" "seg_ok long_segment"
  by (simp_all add: seg_ok_def short_segment_def long_segment_def end_pos_def batch_times_def List.map_filter_def sample_batch_def
      sample_row_time del: end_pos_simps)

theorem index_extension_witness:
  "\<exists>ix. extended short_segment None = Inr ix \<and> extended long_segment (Some ix) = extended long_segment None"
proof -
  obtain ix where ix: "extended short_segment None = Inr ix"
    using extended_valid [OF sample_seg_ok(1), of None "''at''"] by (auto simp: short_segment_def sample_time_column)
  have "extended long_segment (Some ix) = extended long_segment None"
    by (rule index_extension [OF sample_seg_ok(2,1) _ _ _ ix, of "[(40, sample_batch 5 3)]"])
      (simp_all add: long_segment_def short_segment_def)
  with ix show ?thesis by blast
qed

text \<open>C2: every row once. Following the page tokens from the first page ends, and the pages together are exactly
  the stable sort by time of the rows of the window that satisfy the predicates; no page is longer than the
  limit, and every page carries the number of all matches, which only the first page counted.\<close>

theorem seek_reads_table:
  assumes "token_laws tc" "table_ok res sgs" "indexes_ok sgs idx" "time_column res = Inr tcol" "window_validate wn = Inr ()"
    "length (filter (keep_row fo res wn) (table_rows sgs)) < fuel"
  shows "\<exists>ps. read_pages fuel fo tc scope_of res wn '''' sgs idx = Some ps \<and>
    concat (map lr_items ps) = sort_key (time_key res (wn_descending wn)) (filter (keep_row fo res wn) (table_rows sgs)) \<and>
    (\<forall>p\<in>set ps. lr_total p = int (length (filter (keep_row fo res wn) (table_rows sgs))) \<and> length (lr_items p) \<le> wn_limit wn)"
proof -
  let ?S = "in_order (wn_descending wn) (table_matches fo res wn sgs)"
  have lim: "0 < wn_limit wn" using assms(5) by (auto simp: window_validate_def split: if_splits)
  have len: "length ?S = length (filter (keep_row fo res wn) (table_rows sgs))"
    using arg_cong [OF table_matches_rows [of fo res wn sgs], of length] by (simp add: in_order_def)
  have "\<exists>ps. read_pages fuel fo tc scope_of res wn '''' sgs idx = Some ps \<and> concat (map lr_items ps) = map snd (drop 0 ?S) \<and>
      (\<forall>p\<in>set ps. lr_total p = int (length ?S) \<and> length (lr_items p) \<le> wn_limit wn)"
    by (rule read_pages_from [OF assms(1,2,4) lim refl assms(3), where cur = None])
      (use assms(6) len in \<open>simp_all add: page_cursor_def\<close>)
  then show ?thesis using in_order_stable [OF assms(2), of "wn_descending wn" fo wn] len by simp
qed

text \<open>A token codec with the laws, for a concrete run.\<close>

definition enc_nat :: "nat \<Rightarrow> string" where
  "enc_nat n = replicate n (CHR ''1'') @ '',''"

definition dec_nat :: "string \<Rightarrow> nat \<times> string" where
  "dec_nat s = (length (takeWhile (\<lambda>c. c = CHR ''1'') s), drop 1 (dropWhile (\<lambda>c. c = CHR ''1'') s))"

lemma dec_nat_enc [simp]: "dec_nat (enc_nat n @ s) = (n, s)"
  by (induction n) (simp_all add: dec_nat_def enc_nat_def)

definition enc_int :: "int \<Rightarrow> string" where
  "enc_int i = enc_nat (if i < 0 then 1 else 0) @ enc_nat (nat (abs i))"

definition dec_int :: "string \<Rightarrow> int \<times> string" where
  "dec_int s = (let (neg, r) = dec_nat s; (n, r') = dec_nat r in (if neg = 1 then - int n else int n, r'))"

lemma dec_int_enc [simp]: "dec_int (enc_int i @ s) = (i, s)"
  by (simp add: dec_int_def enc_int_def)

definition enc_str :: "string \<Rightarrow> string" where
  "enc_str x = enc_nat (length x) @ x"

definition dec_str :: "string \<Rightarrow> string \<times> string" where
  "dec_str s = (let (n, r) = dec_nat s in (take n r, drop n r))"

lemma dec_str_enc [simp]: "dec_str (enc_str x @ s) = (x, s)"
  by (simp add: dec_str_def enc_str_def)

definition sample_codec :: token_codec where
  "sample_codec = \<lparr>
     tc_encode = (\<lambda>c. Inr (enc_str (cu_scope c) @ enc_int (cu_total c) @ enc_int (rk_time (cu_after c)) @
       enc_str (rk_segment (cu_after c)) @ enc_nat (rk_row (cu_after c)) @ [])),
     tc_decode = (\<lambda>s. let (scope, s1) = dec_str s; (n, s2) = dec_int s1; (t, s3) = dec_int s2; (seg, s4) = dec_str s3; (i, s5) = dec_nat s4
       in Some \<lparr>cu_scope = scope, cu_total = n, cu_after = \<lparr>rk_time = t, rk_segment = seg, rk_row = i\<rparr>\<rparr>)\<rparr>"

lemma sample_codec_laws: "token_laws sample_codec"
  by (simp add: token_laws_def sample_codec_def del: append_Nil2) (simp add: enc_str_def enc_nat_def)

definition sample_table :: "unit segment list" where
  "sample_table = [long_segment, short_segment\<lparr>sg_name := ''b'', sg_batches := [(20, sample_batch 4 12)]\<rparr>]"

lemma sample_table_ok: "table_ok sample_resource sample_table"
proof -
  have "resource_matches sample_resource sample_resource" by code_simp
  moreover have "seg_ok (short_segment\<lparr>sg_name := ''b'', sg_batches := [(20, sample_batch 4 12)]\<rparr>)"
    by (simp add: seg_ok_def short_segment_def end_pos_def)
  moreover have "''a'' < ''b''" by code_simp
  ultimately show ?thesis using sample_seg_ok(2) by (simp add: table_ok_def sample_table_def long_segment_def short_segment_def)
qed

lemma sample_table_rows:
  "filter (keep_row no_floats sample_resource sample_window) (table_rows sample_table) =
     [sample_row 7 ''ahu'', sample_row 3 ''vav'', sample_row 5 ''ahu'', sample_row 3 ''vav'', sample_row 4 ''ahu'']"
  by (simp add: table_rows_def sample_table_def long_segment_def short_segment_def sample_batch_def keep_row_def sample_row_time
      in_window_def sample_window_def)

theorem seek_reads_table_witness:
  "\<exists>ps. read_pages 6 no_floats sample_codec (\<lambda>_ _. ''q'') sample_resource sample_window '''' sample_table Map.empty = Some ps \<and>
     concat (map lr_items ps) =
       [sample_row 3 ''vav'', sample_row 3 ''vav'', sample_row 4 ''ahu'', sample_row 5 ''ahu'', sample_row 7 ''ahu'']"
proof -
  have idx: "indexes_ok sample_table Map.empty" by (simp add: indexes_ok_def)
  have wn: "window_validate sample_window = Inr ()" by (simp add: window_validate_def sample_window_def)
  have few: "length (filter (keep_row no_floats sample_resource sample_window) (table_rows sample_table)) < 6" by (simp add: sample_table_rows)
  have key: "time_key sample_resource (wn_descending sample_window) (sample_row t d) = t" if "0 \<le> t" "t < 10" for t d
    using that by (simp add: time_key_def sample_row_time sample_window_def)
  from seek_reads_table [OF sample_codec_laws sample_table_ok idx sample_time_column wn few, of "\<lambda>_ _. ''q''"]
  show ?thesis by (auto simp: sample_table_rows key)
qed

lemma scan_segment_rows:
  assumes "seg_ok sg" "resource_matches (sg_resource sg) res" "time_column res = Inr tcol"
  shows "\<exists>bs. scan_segment res wn sg = Inr bs \<and>
    filter (keep_row fo res wn) (concat bs) = filter (keep_row fo res wn) (concat (map snd (sg_batches sg)))"
proof (cases "case sg_bounds sg of Some b \<Rightarrow> bounds_outside b (wn_start wn) (wn_end wn) | None \<Rightarrow> False")
  case True
  then obtain b where "sg_bounds sg = Some b" "bounds_outside b (wn_start wn) (wn_end wn)" by (auto split: option.splits)
  from bounds_skip [OF assms(1,2) this, of fo] have "map snd (seg_matches fo res wn sg) = []" by simp
  then have "filter (keep_row fo res wn) (concat (map snd (sg_batches sg))) = []" by (simp only: seg_matches_def matches_rows)
  then show ?thesis using True by (simp add: scan_segment_def)
next
  case False
  let ?in = "\<lambda>r. case row_time res r of Some t \<Rightarrow> in_window wn t | None \<Rightarrow> False"
  have "filter (keep_row fo res wn) (filter ?in rows) = filter (keep_row fo res wn) rows" for rows :: "'a batch"
    by (induction rows) (auto simp: keep_row_def)
  moreover have "concat (filter (\<lambda>rows. rows \<noteq> []) xs) = concat xs" for xs :: "'a batch list" by (induction xs) auto
  ultimately have "filter (keep_row fo res wn) (concat (filter (\<lambda>rows. rows \<noteq> []) (map (filter ?in \<circ> snd) bs))) =
      filter (keep_row fo res wn) (concat (map snd bs))" for bs :: "(nat \<times> 'a batch) list"
    by (simp only: filter_concat map_map comp_def)
  then show ?thesis using False assms(2,3) by (simp add: scan_segment_def)
qed

lemma scan_segments_rows:
  assumes "\<forall>sg\<in>set sgs. seg_ok sg \<and> resource_matches (sg_resource sg) res" "time_column res = Inr tcol"
  shows "\<exists>bs. scan_segments res wn sgs = Inr bs \<and>
    filter (keep_row fo res wn) (concat bs) = filter (keep_row fo res wn) (table_rows sgs)"
  using assms(1)
proof (induction sgs)
  case (Cons sg sgs)
  obtain bs where "scan_segment res wn sg = Inr bs"
    "filter (keep_row fo res wn) (concat bs) = filter (keep_row fo res wn) (concat (map snd (sg_batches sg)))"
    using scan_segment_rows [OF _ _ assms(2), of sg wn fo] Cons.prems by auto
  moreover obtain bs' where "scan_segments res wn sgs = Inr bs'"
    "filter (keep_row fo res wn) (concat bs') = filter (keep_row fo res wn) (table_rows sgs)"
    using Cons by auto
  ultimately show ?case by (simp add: table_rows_def)
qed (simp add: table_rows_def)

text \<open>tokens of earlier versions. A page by offset is the slice of the same order that key paging reads, with the
  same total, and its next token is the offset where the slice ends, or empty at the end of the matches.\<close>

theorem offset_page_slice:
  assumes "table_ok res sgs" "time_column res = Inr tcol" "offset + wn_limit wn < 2 ^ 64"
  shows "page_at_offset fo res wn offset sgs =
    (let S = map snd (in_order (wn_descending wn) (table_matches fo res wn sgs)); items = take (wn_limit wn) (drop offset S)
     in Inr \<lparr>lr_items = items,
          lr_next_page_token = (if offset + length items < length S then show_nat (offset + length items) else ''''),
          lr_total = int (length S)\<rparr>)"
proof -
  obtain t where t: "top_new res wn offset = Inr t" using assms(2) by (simp add: top_new_def)
  obtain bs where bs: "scan_segments res wn sgs = Inr bs"
    "filter (keep_row fo res wn) (concat bs) = filter (keep_row fo res wn) (table_rows sgs)"
    using scan_segments_rows [of sgs res tcol wn fo] assms(1,2) by (auto simp: table_ok_def)
  let ?S = "sort_key (time_key res (wn_descending wn)) (filter (keep_row fo res wn) (table_rows sgs))"
  have fin: "top_finish (fold (top_push fo) bs t) = (take (wn_limit wn) (drop offset ?S), int (length ?S))"
    using top_is_sorted_slice [OF t assms(3), of fo bs] by (simp add: Let_def bs(2))
  show ?thesis by (simp only: page_at_offset_def t bs(1) sum.case prod.case Let_def in_order_stable [OF assms(1)] fin of_nat_less_iff)
qed

theorem offset_page_slice_witness:
  "\<exists>p. page_at_offset no_floats sample_resource sample_window 2 sample_table = Inr p \<and> lr_items p = [sample_row 4 ''ahu''] \<and> lr_total p = 5"
proof -
  have "2 + wn_limit sample_window < 2 ^ 64" by (simp add: sample_window_def)
  moreover have "time_key sample_resource (wn_descending sample_window) (sample_row t d) = t" if "0 \<le> t" "t < 10" for t d
    using that by (simp add: time_key_def sample_row_time sample_window_def)
  moreover have "wn_limit sample_window = 1" by (simp add: sample_window_def)
  ultimately show ?thesis
    using offset_page_slice [OF sample_table_ok sample_time_column, of 2 sample_window no_floats]
    by (simp add: in_order_stable [OF sample_table_ok] sample_table_rows Let_def)
qed

text \<open>the last instant. A listing does not return a row whose time is the greatest one a column can hold, although the
  record is valid: the window of a listing is half-open.\<close>

theorem listing_misses_last_instant:
  assumes "all_time parse res order_by requested filt = Inr wn" "row_time res r = Some (2 ^ 63 - 1)"
  shows "\<not> keep_row fo res wn r"
  using assms by (auto simp: all_time_def keep_row_def in_window_def Let_def split: sum.splits option.splits)

theorem listing_misses_last_instant_witness:
  "validate_record no_floats (\<lambda>_ _. '''') sample_resource (sample_row (2 ^ 63 - 1) ''ahu'') = Inr () \<and>
   (\<exists>wn. all_time (\<lambda>_ _. Inr []) sample_resource '''' 0 '''' = Inr wn \<and>
      \<not> keep_row no_floats sample_resource wn (sample_row (2 ^ 63 - 1) ''ahu''))"
proof -
  have v: "validate_record no_floats (\<lambda>_ _. '''') sample_resource (sample_row (2 ^ 63 - 1) ''ahu'') = Inr ()"
    by (simp add: validate_record_def sample_resource_def sample_columns_def sample_row_def validate_value_def value_valid_def)
  have w: "split_words '''' = []" by (simp add: split_words.simps)
  obtain wn :: "unit window" where wn: "all_time (\<lambda>_ _. Inr []) sample_resource '''' 0 '''' = Inr wn"
    by (simp add: all_time_def sample_time_column w page_size_def default_page_size_def window_validate_def Let_def)
  have "row_time sample_resource (sample_row (2 ^ 63 - 1) ''ahu'') = Some (2 ^ 63 - 1)" by (simp add: sample_row_time)
  from listing_misses_last_instant [OF wn this, of no_floats] v wn show ?thesis by blast
qed

end
