(* ===== verification/Capture.thy ===== *)
theory Capture
  imports Seek
begin

text \<open>
  Writing Arrow captures (\<open>src/database/src/arrow\<close>): segments and their sidecars (\<open>segment.rs\<close>), rotation
  (\<open>rotation.rs\<close>), what the columnar codec keeps of a value (\<open>codec.rs\<close>), and the driver's write, close and drop
  (\<open>driver.rs\<close>, \<open>crud.rs\<close>) over a directory of segment files per table.

  What the file system and the clock do is an argument of each operation: whether a file could be created, how
  many bytes a message took and whether it was torn or not synced, whether the end marker and the sidecar could
  be written. A message is at least one byte long. The directory lists segments by name.
\<close>

subsection \<open>State\<close>

record rotation =
  max_bytes :: "nat option"
  max_age :: "nat option"

definition rotation_default :: rotation where
  "rotation_default = \<lparr>max_bytes = Some (2 ^ 30), max_age = Some (15 * 60 * 1000000000)\<rparr>"

definition rotation_never :: rotation where
  "rotation_never = \<lparr>max_bytes = None, max_age = None\<rparr>"

text \<open>The open segment of a table; \<open>os_name\<close> names its file.\<close>

record open_segment =
  os_name :: string
  os_resource :: resource
  os_opened :: nat
  os_bounds :: "time_bounds option"
  os_failed :: bool

record 'f capture =
  cp_dir :: "string \<Rightarrow> 'f segment list"
  cp_open :: "string \<Rightarrow> open_segment option"
  cp_indexes :: "string \<Rightarrow> indexes"

definition capture_new :: "'f capture" where
  "capture_new = \<lparr>cp_dir = (\<lambda>_. []), cp_open = Map.empty, cp_indexes = (\<lambda>_. Map.empty)\<rparr>"

text \<open>What the disk does during a write.\<close>

datatype append_io = Appended nat | Torn nat | Unsynced nat

datatype close_io = Unfinished nat | Closed_file nat bool

record write_io =
  wi_now :: nat
  wi_process :: nat
  wi_sequence :: nat
  wi_create :: "nat db_result"
  wi_append :: append_io
  wi_error :: db_error
  wi_close :: close_io

subsection \<open>Values through the columnar codec\<close>

text \<open>A float column stores a 64-bit float whatever number was given; every other valid value comes back as it was.\<close>

definition stored_value :: "'f float_ops \<Rightarrow> column_kind \<Rightarrow> 'f jvalue \<Rightarrow> 'f jvalue" where
  "stored_value fo kind v = (if kind = KFloat then (case as_f64 fo v of Some x \<Rightarrow> JFloat x | None \<Rightarrow> v) else v)"

definition stored_row :: "'f float_ops \<Rightarrow> resource \<Rightarrow> 'f db_record \<Rightarrow> 'f db_record" where
  "stored_row fo res r =
     map (\<lambda>(n, v). (n, case resource_column res n of Inr col \<Rightarrow> stored_value fo (col_kind col) v | Inl _ \<Rightarrow> v)) r"

subsection \<open>Segments\<close>

definition pad20 :: "string \<Rightarrow> string" where
  "pad20 s = replicate (20 - length s) (CHR ''0'') @ s"

definition segment_name :: "write_io \<Rightarrow> string" where
  "segment_name io = pad20 (show_nat (wi_now io)) @ ''-'' @ show_nat (wi_process io) @ ''-'' @ show_nat (wi_sequence io) @ ''.arrows''"

definition segment_create :: "resource \<Rightarrow> write_io \<Rightarrow> 'f segment list \<Rightarrow> ('f segment list \<times> open_segment) db_result" where
  "segment_create res io files =
     (case wi_create io of
        Inl e \<Rightarrow> Inl e
      | Inr header \<Rightarrow>
          if segment_name io \<in> set (map sg_name files) then Inl (BackendError ''arrow'' ''entity already exists'')
          else Inr (insort_key sg_name \<lparr>sg_name = segment_name io, sg_resource = res, sg_header = header, sg_batches = [],
                      sg_len = header, sg_bounds = None\<rparr> files,
                    \<lparr>os_name = segment_name io, os_resource = res, os_opened = wi_now io, os_bounds = None, os_failed = False\<rparr>))"

definition extend_bounds :: "'f batch \<Rightarrow> open_segment \<Rightarrow> open_segment" where
  "extend_bounds rows os =
     (case batch_times (os_resource os) rows of
        [] \<Rightarrow> os
      | t # ts \<Rightarrow>
          let lo = fold min ts t; hi = fold max ts t
          in os\<lparr>os_bounds := Some (case os_bounds os of
               Some b \<Rightarrow> \<lparr>tb_min = min (tb_min b) lo, tb_max = max (tb_max b) hi, tb_rows = tb_rows b + length rows\<rparr>
             | None \<Rightarrow> \<lparr>tb_min = lo, tb_max = hi, tb_rows = length rows\<rparr>)\<rparr>)"

text \<open>What an append leaves in the file.\<close>

fun file_append :: "append_io \<Rightarrow> 'f batch \<Rightarrow> 'f segment \<Rightarrow> 'f segment" where
  "file_append (Appended n) rows sg = sg\<lparr>sg_batches := sg_batches sg @ [(sg_len sg + Suc n, rows)], sg_len := sg_len sg + Suc n\<rparr>"
| "file_append (Unsynced n) rows sg = sg\<lparr>sg_batches := sg_batches sg @ [(sg_len sg + Suc n, rows)], sg_len := sg_len sg + Suc n\<rparr>"
| "file_append (Torn n) rows sg = sg\<lparr>sg_len := sg_len sg + n\<rparr>"

definition update_file :: "string \<Rightarrow> ('f segment \<Rightarrow> 'f segment) \<Rightarrow> 'f segment list \<Rightarrow> 'f segment list" where
  "update_file name f files = map (\<lambda>sg. if sg_name sg = name then f sg else sg) files"

definition segment_append ::
  "write_io \<Rightarrow> 'f batch \<Rightarrow> 'f segment list \<Rightarrow> open_segment \<Rightarrow> unit db_result \<times> 'f segment list \<times> open_segment" where
  "segment_append io rows files os =
     (let files1 = update_file (os_name os) (file_append (wi_append io) rows) files
      in case wi_append io of
           Appended _ \<Rightarrow> (Inr (), files1, extend_bounds rows (os\<lparr>os_failed := False\<rparr>))
         | _ \<Rightarrow> (Inl (wi_error io), files1, os\<lparr>os_failed := True\<rparr>))"

definition segment_full :: "rotation \<Rightarrow> nat \<Rightarrow> nat \<Rightarrow> open_segment \<Rightarrow> bool" where
  "segment_full rot now len os \<longleftrightarrow>
     (case max_age rot of Some age \<Rightarrow> now - os_opened os \<ge> age | None \<Rightarrow> False) \<or>
     (case max_bytes rot of Some n \<Rightarrow> len \<ge> n | None \<Rightarrow> False)"

text \<open>\<open>Drop for Segment\<close>: the end marker, then the sidecar.\<close>

definition segment_drop :: "close_io \<Rightarrow> open_segment \<Rightarrow> 'f segment list \<Rightarrow> 'f segment list" where
  "segment_drop io os files =
     (if os_failed os then files
      else update_file (os_name os)
        (\<lambda>sg. case io of
           Unfinished n \<Rightarrow> sg\<lparr>sg_len := sg_len sg + n\<rparr>
         | Closed_file n saved \<Rightarrow> sg\<lparr>sg_len := sg_len sg + n, sg_bounds := (if saved then os_bounds os else None)\<rparr>) files)"

definition file_length :: "string \<Rightarrow> 'f segment list \<Rightarrow> nat" where
  "file_length name files = (case find (\<lambda>sg. sg_name sg = name) files of Some sg \<Rightarrow> sg_len sg | None \<Rightarrow> 0)"

subsection \<open>The driver\<close>

fun validate_all :: "('f db_record \<Rightarrow> unit db_result) \<Rightarrow> 'f db_record list \<Rightarrow> unit db_result" where
  "validate_all check [] = Inr ()"
| "validate_all check (r # rs) = (case check r of Inl e \<Rightarrow> Inl e | Inr _ \<Rightarrow> validate_all check rs)"

text \<open>The critical section of a write: find or create the segment, append, close it when it failed or is full.\<close>

definition write_locked ::
  "rotation \<Rightarrow> resource \<Rightarrow> write_io \<Rightarrow> 'f batch \<Rightarrow> 'f segment list \<Rightarrow> open_segment option \<Rightarrow>
   unit db_result \<times> 'f segment list \<times> open_segment option" where
  "write_locked rot res io rows files known =
     (case (case known of
              Some os \<Rightarrow>
                if resource_matches (os_resource os) res then Inr (files, os)
                else Inl (Invalid (''table '' @ res_table res @ '' is already being written with other columns''))
            | None \<Rightarrow> segment_create res io files) of
        Inl e \<Rightarrow> (Inl e, files, known)
      | Inr (files1, os) \<Rightarrow>
          let (appended, files2, os2) = segment_append io rows files1 os
          in if appended \<noteq> Inr () \<or> segment_full rot (wi_now io) (file_length (os_name os2) files2) os2
             then (appended, segment_drop (wi_close io) os2 files2, None)
             else (appended, files2, Some os2))"

definition driver_write ::
  "'f float_ops \<Rightarrow> (column_kind \<Rightarrow> 'f jvalue \<Rightarrow> string) \<Rightarrow> rotation \<Rightarrow> resource \<Rightarrow> 'f db_record list \<Rightarrow> write_io \<Rightarrow>
   'f capture \<Rightarrow> unit db_result \<times> 'f capture" where
  "driver_write fo dbg rot res records io st =
     (case time_column res of
        Inl e \<Rightarrow> (Inl e, st)
      | Inr _ \<Rightarrow>
          (case validate_all (validate_record fo dbg res) records of
             Inl e \<Rightarrow> (Inl e, st)
           | Inr _ \<Rightarrow>
               if records = [] then (Inr (), st)
               else let t = res_table res;
                        (out, files, known) = write_locked rot res io (map (stored_row fo res) records) (cp_dir st t) (cp_open st t)
                    in (out, st\<lparr>cp_dir := (cp_dir st)(t := files), cp_open := (cp_open st)(t := known)\<rparr>)))"

definition close_table :: "close_io \<Rightarrow> string \<Rightarrow> 'f capture \<Rightarrow> 'f capture" where
  "close_table io t st =
     (case cp_open st t of
        None \<Rightarrow> st
      | Some os \<Rightarrow> st\<lparr>cp_dir := (cp_dir st)(t := segment_drop io os (cp_dir st t)), cp_open := (cp_open st)(t := None)\<rparr>)"

text \<open>\<open>drop_schema\<close>: close, forget the indexes, remove the directory.\<close>

definition drop_schema :: "close_io \<Rightarrow> string \<Rightarrow> 'f capture \<Rightarrow> 'f capture" where
  "drop_schema io t st =
     (let st1 = close_table io t st
      in st1\<lparr>cp_indexes := (cp_indexes st1)(t := Map.empty), cp_dir := (cp_dir st1)(t := [])\<rparr>)"

text \<open>A token of bare digits is an offset of an earlier version.\<close>

definition parse_usize :: "string \<Rightarrow> nat option" where
  "parse_usize s =
     (let ds = (case s of c # cs \<Rightarrow> if c = CHR ''+'' then cs else s | [] \<Rightarrow> []);
          n = foldl (\<lambda>n c. 10 * n + digit_val c) 0 ds
      in if ds \<noteq> [] \<and> list_all ascii_digit ds \<and> n < 2 ^ 64 then Some n else None)"

definition driver_page ::
  "'f float_ops \<Rightarrow> token_codec \<Rightarrow> (resource \<Rightarrow> 'f window \<Rightarrow> string) \<Rightarrow> resource \<Rightarrow> 'f window \<Rightarrow> string \<Rightarrow> bool \<Rightarrow>
   'f capture \<Rightarrow> 'f list_result db_result \<times> 'f capture" where
  "driver_page fo tc scope_of res wn token want st =
     (case parse_usize token of
        Some offset \<Rightarrow> (page_at_offset fo res wn offset (cp_dir st (res_table res)), st)
      | None \<Rightarrow>
          let (out, idx) = seek_page fo tc scope_of res wn token want (cp_dir st (res_table res)) (cp_indexes st (res_table res))
          in (out, st\<lparr>cp_indexes := (cp_indexes st)(res_table res := idx)\<rparr>))"

text \<open>The query is checked against the descriptor before any file is read.\<close>

fun check_predicates ::
  "'f float_ops \<Rightarrow> (column_kind \<Rightarrow> 'f jvalue \<Rightarrow> string) \<Rightarrow> resource \<Rightarrow> 'f predicate list \<Rightarrow> unit db_result" where
  "check_predicates fo dbg res [] = Inr ()"
| "check_predicates fo dbg res (p # ps) =
     (case resource_column res (pr_column p) of
        Inl e \<Rightarrow> Inl e
      | Inr col \<Rightarrow>
          (case validate_value fo dbg (col_kind col) (pr_value p) of
             Inl e \<Rightarrow> Inl e
           | Inr _ \<Rightarrow> check_predicates fo dbg res ps))"

definition check_window ::
  "'f float_ops \<Rightarrow> (column_kind \<Rightarrow> 'f jvalue \<Rightarrow> string) \<Rightarrow> resource \<Rightarrow> 'f window \<Rightarrow> unit db_result" where
  "check_window fo dbg res wn =
     (case window_validate wn of
        Inl e \<Rightarrow> Inl e
      | Inr _ \<Rightarrow>
          (case time_column res of
             Inl e \<Rightarrow> Inl e
           | Inr _ \<Rightarrow> check_predicates fo dbg res (wn_predicates wn)))"

definition driver_range ::
  "'f float_ops \<Rightarrow> (column_kind \<Rightarrow> 'f jvalue \<Rightarrow> string) \<Rightarrow> token_codec \<Rightarrow> (resource \<Rightarrow> 'f window \<Rightarrow> string) \<Rightarrow>
   (resource \<Rightarrow> string \<Rightarrow> 'f predicate list db_result) \<Rightarrow> resource \<Rightarrow> range_options \<Rightarrow> 'f capture \<Rightarrow>
   'f list_result db_result \<times> 'f capture" where
  "driver_range fo dbg tc scope_of parse res opts st =
     (case window_of parse res opts of
        Inl e \<Rightarrow> (Inl e, st)
      | Inr wn \<Rightarrow>
          (case check_window fo dbg res wn of
             Inl e \<Rightarrow> (Inl e, st)
           | Inr _ \<Rightarrow> driver_page fo tc scope_of res wn (ro_page_token opts) True st))"

record list_options =
  lo_page_size :: int
  lo_page_token :: string
  lo_order_by :: string
  lo_filter :: string
  lo_omit_total :: bool

definition driver_list ::
  "'f float_ops \<Rightarrow> token_codec \<Rightarrow> (resource \<Rightarrow> 'f window \<Rightarrow> string) \<Rightarrow>
   (resource \<Rightarrow> string \<Rightarrow> 'f predicate list db_result) \<Rightarrow> resource \<Rightarrow> list_options \<Rightarrow> 'f capture \<Rightarrow>
   'f list_result db_result \<times> 'f capture" where
  "driver_list fo tc scope_of parse res opts st =
     (case all_time parse res (lo_order_by opts) (lo_page_size opts) (lo_filter opts) of
        Inl e \<Rightarrow> (Inl e, st)
      | Inr wn \<Rightarrow>
          (case driver_page fo tc scope_of res wn (lo_page_token opts) (\<not> lo_omit_total opts) st of
             (Inl e, st') \<Rightarrow> (Inl e, st')
           | (Inr p, st') \<Rightarrow> (Inr (if lo_omit_total opts then p\<lparr>lr_total := -1\<rparr> else p), st')))"

definition driver_count ::
  "'f float_ops \<Rightarrow> token_codec \<Rightarrow> (resource \<Rightarrow> 'f window \<Rightarrow> string) \<Rightarrow>
   (resource \<Rightarrow> string \<Rightarrow> 'f predicate list db_result) \<Rightarrow> resource \<Rightarrow> list_options \<Rightarrow> 'f capture \<Rightarrow> int db_result \<times> 'f capture" where
  "driver_count fo tc scope_of parse res opts st =
     (case all_time parse res (lo_order_by opts) (lo_page_size opts) (lo_filter opts) of
        Inl e \<Rightarrow> (Inl e, st)
      | Inr wn \<Rightarrow>
          (case driver_page fo tc scope_of res (wn\<lparr>wn_limit := 1\<rparr>) '''' True st of
             (Inl e, st') \<Rightarrow> (Inl e, st')
           | (Inr p, st') \<Rightarrow> (Inr (lr_total p), st')))"

text \<open>Runs: writes of any outcome, closings, drops and pages, with the rows of the successful writes.\<close>

inductive capture_run ::
  "'f float_ops \<Rightarrow> (column_kind \<Rightarrow> 'f jvalue \<Rightarrow> string) \<Rightarrow> rotation \<Rightarrow> (string \<times> 'f batch) list \<Rightarrow> 'f capture \<Rightarrow> bool"
  for fo dbg rot where
  cr_new: "capture_run fo dbg rot [] capture_new"
| cr_write: "capture_run fo dbg rot A st \<Longrightarrow> driver_write fo dbg rot res records io st = (Inr (), st') \<Longrightarrow>
    capture_run fo dbg rot (A @ [(res_table res, map (stored_row fo res) records)]) st'"
| cr_refused: "capture_run fo dbg rot A st \<Longrightarrow> driver_write fo dbg rot res records io st = (Inl e, st') \<Longrightarrow>
    capture_run fo dbg rot A st'"
| cr_close: "capture_run fo dbg rot A st \<Longrightarrow> capture_run fo dbg rot A (close_table io t st)"
| cr_drop: "capture_run fo dbg rot A st \<Longrightarrow> capture_run fo dbg rot (filter (\<lambda>x. fst x \<noteq> t) A) (drop_schema io t st)"
| cr_page: "capture_run fo dbg rot A st \<Longrightarrow> driver_page fo tc scope_of res wn token want st = (out, st') \<Longrightarrow>
    capture_run fo dbg rot A st'"

subsection \<open>Files\<close>

definition files_ok :: "'f segment list \<Rightarrow> bool" where
  "files_ok files \<longleftrightarrow> sorted_wrt (\<lambda>a b. sg_name a < sg_name b) files \<and> (\<forall>sg\<in>set files. seg_ok sg)"

definition grows :: "'f segment \<Rightarrow> 'f segment \<Rightarrow> bool" where
  "grows sg sg' \<longleftrightarrow> sg_name sg' = sg_name sg \<and> sg_resource sg' = sg_resource sg \<and> sg_header sg' = sg_header sg \<and> sg_len sg \<le> sg_len sg' \<and>
     (\<exists>bs. sg_batches sg' = sg_batches sg @ bs \<and> (bs = [] \<or> sg_len sg < sg_len sg'))"

lemma valid_index_grows: "valid_index sg ix \<Longrightarrow> grows sg sg' \<Longrightarrow> valid_index sg' ix"
proof -
  assume v: "valid_index sg ix" and g: "grows sg sg'"
  obtain gs g1 rest where i: "index_groups sg ix gs g1 rest" "ix_seen ix = sg_len sg \<longrightarrow> group_rows rest = 0" "ix_seen ix \<le> sg_len sg"
    using v by (auto simp: valid_index_def)
  obtain bs where bs: "sg_batches sg' = sg_batches sg @ bs" "bs = [] \<or> sg_len sg < sg_len sg'" using g by (auto simp: grows_def)
  have "index_groups sg' ix gs g1 (rest @ bs)" using i(1) g bs(1) by (simp add: index_groups_def grows_def)
  moreover have "group_rows (rest @ bs) = 0" if "ix_seen ix = sg_len sg'"
  proof -
    have "ix_seen ix = sg_len sg" "bs = []" using that i(3) g bs(2) by (auto simp: grows_def)
    then show ?thesis using i(2) by simp
  qed
  ultimately show ?thesis using i(3) g unfolding valid_index_def by (metis (no_types) grows_def order_trans)
qed

definition bounds_cover :: "time_bounds option \<Rightarrow> int list \<Rightarrow> bool" where
  "bounds_cover b ts \<longleftrightarrow> (case b of None \<Rightarrow> ts = [] | Some b \<Rightarrow> \<forall>t\<in>set ts. tb_min b \<le> t \<and> t \<le> tb_max b)"

definition open_ok :: "'f segment list \<Rightarrow> open_segment \<Rightarrow> bool" where
  "open_ok files os \<longleftrightarrow> \<not> os_failed os \<and>
     (\<exists>sg\<in>set files. sg_name sg = os_name os \<and> sg_resource sg = os_resource os \<and> sg_bounds sg = None \<and>
        sg_len sg = end_pos (sg_header sg) (sg_batches sg) \<and> bounds_cover (os_bounds os) (group_times (sg_resource sg) (sg_batches sg)))"

definition table_inv :: "'f segment list \<Rightarrow> open_segment option \<Rightarrow> indexes \<Rightarrow> bool" where
  "table_inv files known idx \<longleftrightarrow> files_ok files \<and> (case known of None \<Rightarrow> True | Some os \<Rightarrow> open_ok files os) \<and>
     indexes_ok files idx \<and> dom idx \<subseteq> set (map sg_name files)"

lemma files_distinct: "files_ok files \<Longrightarrow> distinct (map sg_name files)"
proof -
  assume "files_ok files"
  then have "sorted_wrt (<) (map sg_name files)" by (simp add: files_ok_def sorted_wrt_map)
  then show ?thesis using strict_sorted_iff by blast
qed

lemma update_file_names: "(\<And>sg. sg_name (f sg) = sg_name sg) \<Longrightarrow> map sg_name (update_file name f files) = map sg_name files"
  by (simp add: update_file_def)

lemma update_file_ok:
  assumes "files_ok files" "indexes_ok files idx" "\<And>sg. sg_name (f sg) = sg_name sg"
    "\<And>sg. sg \<in> set files \<Longrightarrow> sg_name sg = name \<Longrightarrow> seg_ok (f sg) \<and> grows sg (f sg)"
  shows "files_ok (update_file name f files) \<and> indexes_ok (update_file name f files) idx"
proof -
  have "sorted_wrt (<) (map sg_name (update_file name f files))"
    using assms(1) by (simp add: update_file_names assms(3) files_ok_def sorted_wrt_map)
  then have "files_ok (update_file name f files)"
    using assms(1,4) by (auto simp: files_ok_def sorted_wrt_map update_file_def)
  moreover have "indexes_ok (update_file name f files) idx"
    using assms(2,3,4) valid_index_grows by (fastforce simp: indexes_ok_def update_file_def)
  ultimately show ?thesis by simp
qed

lemma update_file_rows:
  assumes "distinct (map sg_name files)" "sg \<in> set files" "sg_name sg = name"
    "concat (map snd (sg_batches (f sg))) = concat (map snd (sg_batches sg)) @ extra"
  shows "mset (table_rows (update_file name f files)) = mset (table_rows files) + mset extra"
  using assms
proof (induction files)
  case (Cons a files)
  show ?case
  proof (cases "a = sg")
    case True
    have "sg_name x \<noteq> name" if "x \<in> set files" for x using Cons.prems(1,3) True that by (auto simp: image_iff)
    then have "update_file name f files = files" by (simp add: update_file_def map_idI)
    then show ?thesis using Cons.prems(3,4) True by (simp add: table_rows_def update_file_def)
  next
    case False
    then have "sg_name a \<noteq> name" using Cons.prems(1,2,3) by (auto simp: image_iff)
    then show ?thesis using Cons False by (simp add: table_rows_def update_file_def)
  qed
qed simp

lemma insort_file_rows: "mset (table_rows (insort_key sg_name sg files)) = mset (concat (map snd (sg_batches sg))) + mset (table_rows files)"
  by (induction files) (auto simp: table_rows_def)

lemma fold_min_max: "(\<forall>x\<in>set (t # ts). fold min ts t \<le> x \<and> x \<le> fold max ts (t :: int))"
proof -
  have "fold min ts a \<le> a \<and> (\<forall>x\<in>set ts. fold min ts a \<le> x) \<and> a \<le> fold max ts b' \<and> (\<forall>x\<in>set ts. x \<le> fold max ts b')"
    if "a \<le> b'" for a b' :: int
    using that
  proof (induction ts arbitrary: a b')
    case (Cons x ts)
    have "min x a \<le> max x b'" by (simp add: min_def max_def)
    from Cons.IH [OF this] Cons.IH [of "max x b'" "max x b'"] Cons.prems show ?case by auto
  qed simp
  from this [of t t] show ?thesis by auto
qed

lemma extend_bounds_cover:
  assumes "bounds_cover (os_bounds os) ts"
  shows "bounds_cover (os_bounds (extend_bounds rows os)) (ts @ batch_times (os_resource os) rows)"
proof (cases "batch_times (os_resource os) rows")
  case Nil
  then show ?thesis using assms by (simp add: extend_bounds_def)
next
  case (Cons t us)
  then show ?thesis using assms fold_min_max [of t us]
    by (cases "os_bounds os") (force simp: extend_bounds_def bounds_cover_def Let_def)+
qed

lemma extend_bounds_keeps [simp]:
  "os_name (extend_bounds rows os) = os_name os" "os_resource (extend_bounds rows os) = os_resource os"
  "os_failed (extend_bounds rows os) = os_failed os"
  by (simp_all add: extend_bounds_def Let_def split: list.splits)

subsection \<open>The operations keep the files sound\<close>

lemma file_unique: "files_ok files \<Longrightarrow> sg \<in> set files \<Longrightarrow> x \<in> set files \<Longrightarrow> sg_name x = sg_name sg \<Longrightarrow> x = sg"
  using files_distinct [of files] by (auto simp: distinct_map dest: inj_onD)

lemma create_inv:
  assumes "table_inv files None idx" "segment_create res io files = Inr (files1, os)"
  shows "table_inv files1 (Some os) idx \<and> mset (table_rows files1) = mset (table_rows files)"
proof -
  obtain header where h: "wi_create io = Inr header" "segment_name io \<notin> set (map sg_name files)"
    using assms(2) by (auto simp: segment_create_def split: sum.splits if_splits)
  define sg :: "'a segment" where "sg = \<lparr>sg_name = segment_name io, sg_resource = res, sg_header = header, sg_batches = [],
    sg_len = header, sg_bounds = None\<rparr>"
  have f: "files1 = insort_key sg_name sg files"
    "os = \<lparr>os_name = segment_name io, os_resource = res, os_opened = wi_now io, os_bounds = None, os_failed = False\<rparr>"
    using assms(2) h by (auto simp: segment_create_def sg_def)
  have names: "map sg_name files1 = insort (sg_name sg) (map sg_name files)" unfolding f(1) by (rule map_insort_key)
  have ok: "files_ok files" "indexes_ok files idx" "dom idx \<subseteq> set (map sg_name files)" using assms(1) by (auto simp: table_inv_def)
  have "sorted_wrt (<) (map sg_name files1)"
    using files_distinct [OF ok(1)] h(2) ok(1) unfolding names strict_sorted_iff
    by (simp add: sorted_insort distinct_insort sg_def files_ok_def strict_sorted_imp_sorted sorted_wrt_map [symmetric, of "(<)" sg_name])
  moreover have "seg_ok sg" by (simp add: seg_ok_def sg_def)
  ultimately have "files_ok files1" using ok(1) by (auto simp: files_ok_def sorted_wrt_map f(1) set_insort_key)
  moreover have "open_ok files1 os" by (auto simp: open_ok_def f set_insort_key sg_def bounds_cover_def)
  moreover have "indexes_ok files1 idx" "dom idx \<subseteq> set (map sg_name files1)"
    using ok(2,3) h(2) by (auto simp: indexes_ok_def f(1) set_insort_key sg_def dom_def)
  moreover have "mset (table_rows files1) = mset (table_rows files)" by (simp add: f(1) insort_file_rows) (simp add: sg_def)
  ultimately show ?thesis by (simp add: table_inv_def)
qed

lemma file_append_keeps [simp]:
  "sg_name (file_append a rows sg) = sg_name sg" "sg_resource (file_append a rows sg) = sg_resource sg"
  "sg_bounds (file_append a rows sg) = sg_bounds sg" "sg_header (file_append a rows sg) = sg_header sg"
  by (cases a; simp)+

lemma file_append_ok:
  assumes "seg_ok sg" "sg_bounds sg = None" "sg_len sg = end_pos (sg_header sg) (sg_batches sg)"
  shows "seg_ok (file_append a rows sg) \<and> grows sg (file_append a rows sg)"
  using assms by (cases a) (auto simp: seg_ok_def grows_def)

lemma append_inv:
  assumes "table_inv files (Some os) idx" "segment_append io rows files os = (out, files2, os2)"
  shows "files_ok files2 \<and> indexes_ok files2 idx \<and> dom idx \<subseteq> set (map sg_name files2) \<and> (out = Inr () \<longleftrightarrow> \<not> os_failed os2) \<and>
    (out = Inr () \<longrightarrow> open_ok files2 os2 \<and> mset (table_rows files2) = mset (table_rows files) + mset rows) \<and>
    mset (table_rows files) \<subseteq># mset (table_rows files2)"
proof -
  let ?f = "file_append (wi_append io) rows"
  have inv: "files_ok files" "indexes_ok files idx" "dom idx \<subseteq> set (map sg_name files)" "open_ok files os"
    using assms(1) by (auto simp: table_inv_def)
  obtain sg where sg: "sg \<in> set files" "sg_name sg = os_name os" "sg_resource sg = os_resource os" "sg_bounds sg = None"
    "sg_len sg = end_pos (sg_header sg) (sg_batches sg)" "bounds_cover (os_bounds os) (group_times (sg_resource sg) (sg_batches sg))"
    using inv(4) by (auto simp: open_ok_def)
  have uniq: "x = sg" if "x \<in> set files" "sg_name x = os_name os" for x
    using file_unique [OF inv(1) sg(1) that(1)] sg(2) that(2) by simp
  have "seg_ok (?f x) \<and> grows x (?f x)" if "x \<in> set files" "sg_name x = os_name os" for x
    using file_append_ok [OF _ sg(4,5)] inv(1) uniq [OF that] sg(1) by (auto simp: files_ok_def)
  from update_file_ok [OF inv(1,2) _ this] have upd: "files_ok (update_file (os_name os) ?f files)" "indexes_ok (update_file (os_name os) ?f files) idx"
    by auto
  have f2: "files2 = update_file (os_name os) ?f files" using assms(2) by (auto simp: segment_append_def Let_def split: append_io.splits)
  obtain extra where ex: "concat (map snd (sg_batches (?f sg))) = concat (map snd (sg_batches sg)) @ extra" "wi_append io = Appended n \<longrightarrow> extra = rows" for n
    by (cases "wi_append io") auto
  have rows: "mset (table_rows files2) = mset (table_rows files) + mset extra"
    unfolding f2 by (rule update_file_rows [where f = ?f, OF files_distinct [OF inv(1)] sg(1,2) ex(1)])
  have out: "out = Inr () \<longleftrightarrow> (\<exists>n. wi_append io = Appended n)" "out = Inr () \<longleftrightarrow> \<not> os_failed os2"
    using assms(2) by (auto simp: segment_append_def Let_def split: append_io.splits)
  have "open_ok files2 os2" if a: "wi_append io = Appended n" for n
  proof -
    have os2: "os2 = extend_bounds rows (os\<lparr>os_failed := False\<rparr>)" using assms(2) a by (simp add: segment_append_def Let_def)
    have "?f sg \<in> set files2" using sg(1,2) by (auto simp: f2 update_file_def)
    moreover have "bounds_cover (os_bounds os2) (group_times (sg_resource sg) (sg_batches (?f sg)))"
      using extend_bounds_cover [of "os\<lparr>os_failed := False\<rparr>" "group_times (sg_resource sg) (sg_batches sg)" rows] sg(3,6) os2 a by simp
    ultimately show ?thesis using sg a os2 by (auto simp: open_ok_def intro!: bexI [of _ "?f sg"])
  qed
  moreover have "map sg_name files2 = map sg_name files" unfolding f2 by (rule update_file_names) simp
  then have "dom idx \<subseteq> set (map sg_name files2)" using inv(3) by (simp only: )
  ultimately show ?thesis using upd [folded f2] rows out ex(2) by (simp del: set_map) blast
qed

lemma drop_inv:
  assumes "files_ok files" "indexes_ok files idx" "dom idx \<subseteq> set (map sg_name files)" "os_failed os \<or> open_ok files os"
  shows "table_inv (segment_drop io os files) None idx \<and> mset (table_rows (segment_drop io os files)) = mset (table_rows files)"
proof (cases "os_failed os")
  case True
  then show ?thesis using assms by (simp add: segment_drop_def table_inv_def)
next
  case False
  let ?f = "\<lambda>sg. case io of Unfinished n \<Rightarrow> sg\<lparr>sg_len := sg_len sg + n\<rparr>
    | Closed_file n saved \<Rightarrow> sg\<lparr>sg_len := sg_len sg + n, sg_bounds := (if saved then os_bounds os else None)\<rparr>"
  have f: "sg_name (?f sg) = sg_name sg" "sg_batches (?f sg) = sg_batches sg" for sg by (auto split: close_io.splits)
  obtain sg where sg: "sg \<in> set files" "sg_name sg = os_name os" "sg_bounds sg = None"
    "bounds_cover (os_bounds os) (group_times (sg_resource sg) (sg_batches sg))"
    using assms(4) False by (auto simp: open_ok_def)
  have "seg_ok (?f x) \<and> grows x (?f x)" if "x \<in> set files" "sg_name x = os_name os" for x
  proof -
    have "x = sg" using file_unique [OF assms(1) sg(1) that(1)] sg(2) that(2) by simp
    then show ?thesis using sg assms(1) by (auto simp: files_ok_def seg_ok_def grows_def bounds_cover_def split: close_io.splits option.splits)
  qed
  from update_file_ok [OF assms(1,2) f(1) this]
  have "files_ok (segment_drop io os files)" "indexes_ok (segment_drop io os files) idx"
    "map sg_name (segment_drop io os files) = map sg_name files"
    using False by (auto simp: segment_drop_def update_file_names f(1))
  moreover have "mset (table_rows (segment_drop io os files)) = mset (table_rows files)"
    using update_file_rows [OF files_distinct [OF assms(1)] sg(1,2), of ?f "[]"] False by (simp add: segment_drop_def f(2))
  ultimately show ?thesis using assms(3) by (simp add: table_inv_def)
qed

lemma write_locked_inv:
  assumes "table_inv files known idx" "write_locked rot res io rows files known = (out, files', known')"
  shows "table_inv files' known' idx \<and> mset (table_rows files) \<subseteq># mset (table_rows files') \<and>
    (out = Inr () \<longrightarrow> mset (table_rows files') = mset (table_rows files) + mset rows)"
proof -
  let ?pick = "case known of
      Some os \<Rightarrow> if resource_matches (os_resource os) res then Inr (files, os)
        else Inl (Invalid (''table '' @ res_table res @ '' is already being written with other columns''))
    | None \<Rightarrow> segment_create res io files"
  show ?thesis
  proof (cases ?pick)
    case (Inl e)
    then show ?thesis using assms by (auto simp: write_locked_def)
  next
    case (Inr p)
    obtain files1 os where p: "p = (files1, os)" by (cases p)
    have pick: "table_inv files1 (Some os) idx" "mset (table_rows files1) = mset (table_rows files)"
      using Inr assms(1) create_inv [of files idx res io files1 os] p by (auto split: option.splits if_splits)
    obtain out2 files2 os2 where a: "segment_append io rows files1 os = (out2, files2, os2)" by (metis prod_cases3)
    note app = append_inv [OF pick(1) a]
    let ?close = "out2 \<noteq> Inr () \<or> segment_full rot (wi_now io) (file_length (os_name os2) files2) os2"
    have eq: "(out, files', known') = (if ?close then (out2, segment_drop (wi_close io) os2 files2, None) else (out2, files2, Some os2))"
      using assms(2) Inr p a by (simp add: write_locked_def)
    have d: "table_inv (segment_drop (wi_close io) os2 files2) None idx" "mset (table_rows (segment_drop (wi_close io) os2 files2)) = mset (table_rows files2)"
      using drop_inv [of files2 idx os2 "wi_close io"] app by blast+
    have n: "table_inv files2 (Some os2) idx" if "out2 = Inr ()" using app that by (simp add: table_inv_def)
    show ?thesis
    proof (cases ?close)
      case True
      then have "out = out2" "files' = segment_drop (wi_close io) os2 files2" "known' = None" using eq by simp_all
      then show ?thesis using app d pick(2) by auto
    next
      case False
      then have "out = out2" "files' = files2" "known' = Some os2" "out2 = Inr ()" using eq by simp_all
      then show ?thesis using app n pick(2) by auto
    qed
  qed
qed

subsection \<open>Runs\<close>

definition acked :: "string \<Rightarrow> (string \<times> 'f batch) list \<Rightarrow> 'f db_record list" where
  "acked t A = concat (map snd (filter (\<lambda>x. fst x = t) A))"

definition capture_inv :: "(string \<times> 'f batch) list \<Rightarrow> 'f capture \<Rightarrow> bool" where
  "capture_inv A st \<longleftrightarrow> (\<forall>t. table_inv (cp_dir st t) (cp_open st t) (cp_indexes st t) \<and>
     mset (acked t A) \<subseteq># mset (table_rows (cp_dir st t)))"

lemma driver_write_inv:
  assumes "capture_inv A st" "driver_write fo dbg rot res records io st = (out, st')"
  shows "capture_inv (if out = Inr () then A @ [(res_table res, map (stored_row fo res) records)] else A) st'"
proof (cases "st' = st \<and> (out \<noteq> Inr () \<or> records = [])")
  case True
  then show ?thesis using assms(1) by (auto simp: capture_inv_def acked_def)
next
  case False
  let ?t = "res_table res" and ?rows = "map (stored_row fo res) records"
  obtain out1 files known where w1: "write_locked rot res io ?rows (cp_dir st ?t) (cp_open st ?t) = (out1, files, known)"
    by (metis prod_cases3)
  have "out = out1 \<and> st' = st\<lparr>cp_dir := (cp_dir st)(?t := files), cp_open := (cp_open st)(?t := known)\<rparr>"
    using assms(2) False by (simp add: driver_write_def w1 Let_def split: sum.splits if_splits)
  with w1 have w: "write_locked rot res io ?rows (cp_dir st ?t) (cp_open st ?t) = (out, files, known)"
    "st' = st\<lparr>cp_dir := (cp_dir st)(?t := files), cp_open := (cp_open st)(?t := known)\<rparr>"
    by auto
  have inv: "table_inv (cp_dir st ?t) (cp_open st ?t) (cp_indexes st ?t)" "mset (acked ?t A) \<subseteq># mset (table_rows (cp_dir st ?t))"
    using assms(1) by (auto simp: capture_inv_def)
  note wl = write_locked_inv [OF inv(1) w(1)]
  have "mset (acked ?t (if out = Inr () then A @ [(?t, ?rows)] else A)) \<subseteq># mset (table_rows files)"
    using wl inv(2) by (auto simp: acked_def intro: subset_mset.order_trans)
  then show ?thesis using assms(1) wl w(2) by (auto simp: capture_inv_def acked_def)
qed

lemma close_table_inv: "capture_inv A st \<Longrightarrow> capture_inv A (close_table io t st) \<and> cp_open (close_table io t st) t = None"
proof (cases "cp_open st t")
  case (Some os)
  assume inv: "capture_inv A st"
  then have "table_inv (cp_dir st t) (Some os) (cp_indexes st t)" unfolding capture_inv_def using Some by metis
  then have "table_inv (segment_drop io os (cp_dir st t)) None (cp_indexes st t)"
    "mset (table_rows (segment_drop io os (cp_dir st t))) = mset (table_rows (cp_dir st t))"
    using drop_inv [of "cp_dir st t" "cp_indexes st t" os io] by (auto simp: table_inv_def)
  then show ?thesis using inv Some by (auto simp: capture_inv_def close_table_def)
qed (simp add: close_table_def)

lemma drop_schema_inv: "capture_inv A st \<Longrightarrow> capture_inv (filter (\<lambda>x. fst x \<noteq> t) A) (drop_schema io t st)"
  using close_table_inv [of A st io t]
  by (auto simp: capture_inv_def drop_schema_def Let_def table_inv_def files_ok_def indexes_ok_def acked_def table_rows_def
      filter_filter conj_commute filter_empty_conv cong: conj_cong)

text \<open>A page changes nothing but the indexes of the segments it reads.\<close>

lemma indexes_get_names: "indexes_get sg idx = Inr (ix, idx') \<Longrightarrow> dom idx' \<subseteq> insert (sg_name sg) (dom idx)"
  by (auto simp: indexes_get_def split: option.splits sum.splits if_splits)

lemma search_segments_names: "dom (snd (search_segments fo res wn sgs idx s)) \<subseteq> dom idx \<union> set (map sg_name sgs)"
proof (induction sgs arbitrary: idx s)
  case (Cons sg sgs)
  show ?case
  proof (cases "case sg_bounds sg of Some b \<Rightarrow> bounds_outside b (wn_start wn) (wn_end wn) | None \<Rightarrow> False")
    case True
    then show ?thesis using Cons.IH [of idx s] by auto
  next
    case skip: False
    show ?thesis
    proof (cases "indexes_get sg idx")
      case (Inl e)
      then show ?thesis using skip by auto
    next
      case (Inr p)
      obtain ix idx' where p: "p = (ix, idx')" by (cases p)
      have "dom idx' \<subseteq> insert (sg_name sg) (dom idx)" using Inr p indexes_get_names by blast
      then show ?thesis using skip Inr p Cons.IH [of idx' "fold (search_block fo sg) (ix_blocks ix) s"]
        by (cases "resource_matches (ix_resource ix) res"; simp; blast)
    qed
  qed
qed simp

lemma indexes_get_sound:
  assumes "files_ok all" "sg \<in> set all" "indexes_ok all idx" "indexes_get sg idx = Inr (ix, idx')"
  shows "indexes_ok all idx'"
proof -
  have inj: "inj_on sg_name (set all)" using files_distinct [OF assms(1)] by (simp add: distinct_map)
  have ok: "seg_ok sg" using assms(1,2) by (simp add: files_ok_def)
  show ?thesis
  proof (cases "idx' = idx")
    case False
    then have e: "extended sg (idx (sg_name sg)) = Inr ix" using assms(4) by (auto simp: indexes_get_def split: option.splits sum.splits if_splits)
    have res: "ix_resource (index_start sg (idx (sg_name sg))) = sg_resource sg"
      using index_start_groups [OF ok, of "idx (sg_name sg)"] assms(2,3) by (auto simp: indexes_ok_def index_groups_def)
    obtain tcol where "time_column (sg_resource sg) = Inr tcol"
      using e res by (auto simp: extended_def Let_def split: sum.splits)
    from indexes_get_ok [OF ok assms(2) inj assms(3) this] assms(4) show ?thesis by auto
  qed (use assms(3) in simp)
qed

lemma search_segments_indexes:
  assumes "files_ok all" "set sgs \<subseteq> set all" "indexes_ok all idx"
  shows "indexes_ok all (snd (search_segments fo res wn sgs idx s))"
  using assms(2,3)
proof (induction sgs arbitrary: idx s)
  case (Cons sg sgs)
  show ?case
  proof (cases "indexes_get sg idx")
    case (Inl e)
    then show ?thesis using Cons by simp
  next
    case (Inr p)
    obtain ix idx' where p: "p = (ix, idx')" by (cases p)
    have "sg \<in> set all" "indexes_get sg idx = Inr (ix, idx')" using Inr p Cons.prems(1) by auto
    then have "indexes_ok all idx'" using indexes_get_sound [OF assms(1) _ Cons.prems(2)] by blast
    then show ?thesis using Cons Inr p by simp
  qed
qed simp

lemma driver_page_inv:
  assumes "capture_inv A st" "driver_page fo tc scope_of res wn token want st = (out, st')"
  shows "capture_inv A st'"
proof (cases "parse_usize token")
  case (Some offset)
  then show ?thesis using assms by (simp add: driver_page_def)
next
  case None
  let ?t = "res_table res"
  obtain idx where idx: "snd (seek_page fo tc scope_of res wn token want (cp_dir st ?t) (cp_indexes st ?t)) = idx"
    "st' = st\<lparr>cp_indexes := (cp_indexes st)(?t := idx)\<rparr>"
    using assms(2) None by (auto simp: driver_page_def Let_def split: prod.splits)
  have inv: "table_inv (cp_dir st ?t) (cp_open st ?t) (cp_indexes st ?t)" using assms(1) by (simp add: capture_inv_def)
  have "idx = cp_indexes st ?t \<or> (\<exists>s. idx = snd (search_segments fo res wn (cp_dir st ?t) (cp_indexes st ?t) s))"
    using idx(1) unfolding seek_page_def Let_def by (auto split: sum.splits prod.splits) (metis snd_conv)+
  then have "indexes_ok (cp_dir st ?t) idx \<and> dom idx \<subseteq> set (map sg_name (cp_dir st ?t))"
  proof (elim disjE exE)
    fix s assume "idx = snd (search_segments fo res wn (cp_dir st ?t) (cp_indexes st ?t) s)"
    then show ?thesis using inv search_segments_indexes [OF _ order_refl, of "cp_dir st ?t" "cp_indexes st ?t" fo res wn s]
        search_segments_names [of fo res wn "cp_dir st ?t" "cp_indexes st ?t" s] unfolding table_inv_def by blast
  qed (use inv in \<open>simp add: table_inv_def\<close>)
  then show ?thesis using assms(1) inv idx(2) by (auto simp: capture_inv_def table_inv_def)
qed

lemma capture_run_inv: "capture_run fo dbg rot A st \<Longrightarrow> capture_inv A st"
proof (induction rule: capture_run.induct)
  case cr_new
  show ?case
    by (simp add: capture_inv_def capture_new_def table_inv_def files_ok_def indexes_ok_def acked_def table_rows_def)
next
  case cr_write then show ?case using driver_write_inv by fastforce
next
  case cr_refused then show ?case using driver_write_inv by fastforce
next
  case cr_close then show ?case using close_table_inv by blast
next
  case cr_drop then show ?case using drop_schema_inv by blast
next
  case cr_page then show ?case using driver_page_inv by blast
qed

subsection \<open>Properties\<close>

text \<open>C34: sound files. Whatever the disk did to the writes, every segment of every table is readable: names are listed
  in strictly increasing order, batch ends increase and stay inside the file, and a sidecar covers the times of all
  the rows of its segment; every cached index is one of a prefix of its segment.\<close>

theorem capture_files_sound:
  assumes "capture_run fo dbg rot A st"
  shows "sorted_wrt (\<lambda>a b. sg_name a < sg_name b) (cp_dir st t) \<and>
    (\<forall>sg\<in>set (cp_dir st t). seg_ok sg \<and> (\<forall>ix. cp_indexes st t (sg_name sg) = Some ix \<longrightarrow> valid_index sg ix))"
  using capture_run_inv [OF assms] by (auto simp: capture_inv_def table_inv_def files_ok_def indexes_ok_def)

definition sample_io :: write_io where
  "sample_io = \<lparr>wi_now = 5, wi_process = 1, wi_sequence = 0, wi_create = Inr 8, wi_append = Appended 3,
     wi_error = Timeout, wi_close = Closed_file 2 True\<rparr>"

definition sample_rotation :: rotation where
  "sample_rotation = \<lparr>max_bytes = Some 9, max_age = None\<rparr>"

definition sample_write :: "unit db_result \<times> unit capture" where
  "sample_write = driver_write no_floats (\<lambda>_ _. '''') sample_rotation sample_resource [sample_row 5 ''ahu'', sample_row 3 ''vav''] sample_io
     capture_new"

lemma sample_write_run: "capture_run no_floats (\<lambda>_ _. '''') sample_rotation
  [(''points'', [sample_row 5 ''ahu'', sample_row 3 ''vav''])] (snd sample_write)"
proof -
  have out: "driver_write no_floats (\<lambda>_ _. '''') sample_rotation sample_resource [sample_row 5 ''ahu'', sample_row 3 ''vav''] sample_io
      capture_new = (Inr (), snd sample_write)"
    unfolding sample_write_def [symmetric] by (rule prod_eqI) (simp, code_simp, simp)
  have "map (stored_row no_floats sample_resource) [sample_row 5 ''ahu'', sample_row 3 ''vav''] = [sample_row 5 ''ahu'', sample_row 3 ''vav'']"
    "res_table sample_resource = ''points''" by code_simp+
  then show ?thesis using cr_write [OF cr_new out] by simp
qed

theorem capture_files_sound_witness:
  "cp_dir (snd sample_write) ''points'' \<noteq> [] \<and> list_all seg_ok (cp_dir (snd sample_write) ''points'')"
proof -
  have "cp_dir (snd sample_write) ''points'' \<noteq> []" by code_simp
  with capture_files_sound [OF sample_write_run, of "''points''"] show ?thesis by (simp add: list_all_iff)
qed

text \<open>C3: acknowledged rows are read. After any run of writes that succeeded, failed or tore, of closings, of drops of
  tables and of pages, reading a table page by page returns every row of the window that was acknowledged since
  the table was last dropped, as often as it was written.\<close>

theorem acknowledged_rows_read:
  assumes "capture_run fo dbg rot A st" "token_laws tc" "time_column res = Inr tcol" "window_validate wn = Inr ()"
    "\<forall>sg\<in>set (cp_dir st t). resource_matches (sg_resource sg) res"
    "length (filter (keep_row fo res wn) (table_rows (cp_dir st t))) < fuel"
  shows "\<exists>ps. read_pages fuel fo tc scope_of res wn '''' (cp_dir st t) (cp_indexes st t) = Some ps \<and>
    mset (filter (keep_row fo res wn) (acked t A)) \<subseteq># mset (concat (map lr_items ps))"
proof -
  let ?S = "in_order (wn_descending wn) (table_matches fo res wn (cp_dir st t))"
  have inv: "table_inv (cp_dir st t) (cp_open st t) (cp_indexes st t)" "mset (acked t A) \<subseteq># mset (table_rows (cp_dir st t))"
    using capture_run_inv [OF assms(1)] by (auto simp: capture_inv_def)
  have tab: "table_ok res (cp_dir st t)" using inv(1) assms(5) by (simp add: table_ok_def table_inv_def files_ok_def)
  have lim: "0 < wn_limit wn" using assms(4) by (auto simp: window_validate_def split: if_splits)
  have rows: "map snd ?S = sort_key (time_key res (wn_descending wn)) (filter (keep_row fo res wn) (table_rows (cp_dir st t)))"
    by (rule in_order_stable [OF tab])
  then have len: "length ?S < fuel" using assms(6) by (metis length_map length_sort)
  have idx: "indexes_ok (cp_dir st t) (cp_indexes st t)" using inv(1) by (simp add: table_inv_def)
  have "\<exists>ps. read_pages fuel fo tc scope_of res wn '''' (cp_dir st t) (cp_indexes st t) = Some ps \<and> concat (map lr_items ps) = map snd (drop 0 ?S) \<and>
      (\<forall>p\<in>set ps. lr_total p = int (length ?S) \<and> length (lr_items p) \<le> wn_limit wn)"
    by (rule read_pages_from [OF assms(2) tab assms(3) lim refl idx, where cur = None]) (use len in \<open>simp_all add: page_cursor_def\<close>)
  moreover have "mset (filter (keep_row fo res wn) (acked t A)) \<subseteq># mset (map snd ?S)"
    unfolding rows using multiset_filter_mono [OF inv(2)] by (simp add: mset_filter)
  ultimately show ?thesis by auto
qed

theorem acknowledged_rows_read_witness:
  "\<exists>ps. read_pages 3 no_floats sample_codec (\<lambda>_ _. ''q'') sample_resource sample_window '''' (cp_dir (snd sample_write) ''points'')
      (cp_indexes (snd sample_write) ''points'') = Some ps \<and>
     mset [sample_row 5 ''ahu'', sample_row 3 ''vav''] \<subseteq># mset (concat (map lr_items ps))"
proof -
  have m: "\<forall>sg\<in>set (cp_dir (snd sample_write) ''points''). resource_matches (sg_resource sg) sample_resource" by code_simp
  have f: "length (filter (keep_row no_floats sample_resource sample_window) (table_rows (cp_dir (snd sample_write) ''points''))) < 3" by code_simp
  have w: "window_validate sample_window = Inr ()" by (simp add: window_validate_def sample_window_def)
  have k: "filter (keep_row no_floats sample_resource sample_window) (acked ''points'' [(''points'', [sample_row 5 ''ahu'', sample_row 3 ''vav''])]) =
      [sample_row 5 ''ahu'', sample_row 3 ''vav'']" by code_simp
  from acknowledged_rows_read [OF sample_write_run sample_codec_laws sample_time_column w m f, of "\<lambda>_ _. ''q''"]
  show ?thesis unfolding k .
qed

text \<open>counting. On any captured table the count is the number of rows that satisfy the filter with a time before the
  last instant, whatever page size was asked for.\<close>

theorem count_counts_rows:
  assumes "capture_run fo dbg rot A st" "token_laws tc" "all_time parse res (lo_order_by opts) (lo_page_size opts) (lo_filter opts) = Inr wn"
    "\<forall>sg\<in>set (cp_dir st (res_table res)). resource_matches (sg_resource sg) res"
  shows "fst (driver_count fo tc scope_of parse res opts st) =
    Inr (int (length (filter (keep_row fo res wn) (table_rows (cp_dir st (res_table res))))))"
proof -
  let ?t = "res_table res" and ?wn = "wn\<lparr>wn_limit := 1\<rparr>"
  obtain tcol where tcol: "time_column res = Inr tcol" using assms(3) by (auto simp: all_time_def split: sum.splits)
  have inv: "table_inv (cp_dir st ?t) (cp_open st ?t) (cp_indexes st ?t)" using capture_run_inv [OF assms(1)] by (simp add: capture_inv_def)
  have tab: "table_ok res (cp_dir st ?t)" using inv assms(4) by (simp add: table_ok_def table_inv_def files_ok_def)
  have idx: "indexes_ok (cp_dir st ?t) (cp_indexes st ?t)" using inv by (simp add: table_inv_def)
  let ?M = "table_matches fo res ?wn (cp_dir st ?t)"
  have "page_cursor tc (scope_of res ?wn) '''' = Inr None" "0 < wn_limit ?wn" by (simp_all add: page_cursor_def)
  from seek_page_ok [where scope_of = scope_of and fo = fo and want = True, OF tab idx tcol this(2,1)]
  obtain idx' where page: "seek_page fo tc scope_of res ?wn '''' True (cp_dir st ?t) (cp_indexes st ?t) =
      (page_of tc (scope_of res ?wn) 1 (int (length ?M)) (in_order (wn_descending wn) ?M), idx')"
    by (auto simp: rows_left_def)
  obtain p where p: "page_of tc (scope_of res ?wn) 1 (int (length ?M)) (in_order (wn_descending wn) ?M) = Inr p" "lr_total p = int (length ?M)"
    using page_of_more [OF assms(2), of 1 "in_order (wn_descending wn) ?M" "scope_of res ?wn" "int (length ?M)"]
    by (cases "length (in_order (wn_descending wn) ?M) > 1") (auto simp: page_of_def)
  have "keep_row fo res ?wn = keep_row fo res wn" by (rule ext) (auto simp: keep_row_def in_window_def split: option.splits)
  then have "length ?M = length (filter (keep_row fo res wn) (table_rows (cp_dir st ?t)))"
    using arg_cong [OF table_matches_rows [of fo res ?wn "cp_dir st ?t"], of length] by simp
  then show ?thesis using assms(3) page p by (simp add: driver_count_def driver_page_def parse_usize_def Let_def)
qed

theorem count_counts_rows_witness:
  "fst (driver_count no_floats sample_codec (\<lambda>_ _. ''q'') (\<lambda>_ _. Inr []) sample_resource
      \<lparr>lo_page_size = 0, lo_page_token = '''', lo_order_by = '''', lo_filter = '''', lo_omit_total = False\<rparr> (snd sample_write)) = Inr 2"
proof -
  let ?opts = "\<lparr>lo_page_size = 0, lo_page_token = '''', lo_order_by = '''', lo_filter = '''', lo_omit_total = False\<rparr>"
  define wn :: "unit window" where "wn = \<lparr>wn_start = - (2 ^ 63), wn_end = 2 ^ 63 - 1, wn_limit = 50, wn_descending = False, wn_predicates = []\<rparr>"
  have w: "split_words '''' = []" by (simp add: split_words.simps)
  have a: "all_time (\<lambda>_ _. Inr []) sample_resource (lo_order_by ?opts) (lo_page_size ?opts) (lo_filter ?opts) = Inr wn"
    by (simp add: all_time_def sample_time_column w page_size_def default_page_size_def window_validate_def Let_def wn_def)
  have m: "\<forall>sg\<in>set (cp_dir (snd sample_write) (res_table sample_resource)). resource_matches (sg_resource sg) sample_resource" by code_simp
  have "length (filter (keep_row no_floats sample_resource wn) (table_rows (cp_dir (snd sample_write) (res_table sample_resource)))) = 2"
    unfolding wn_def by code_simp
  with count_counts_rows [OF sample_write_run sample_codec_laws a m, of "\<lambda>_ _. ''q''"] show ?thesis by simp
qed

end
