(* ===== verification/Filtering.thy ===== *)
theory Filtering
  imports Store Grpc
begin

text \<open>
  The filter language of the store (\<open>src/database/src/store/filter.rs\<close>): conjunctions of \<open>column op value\<close>
  joined by AND, values optionally quoted and typed by the kind of their column.

  The source walks characters; the model walks bytes, which is the same because every character it tests for
  is an ASCII one. White space is the ASCII one. Reading a decimal float and an RFC 3339 time are operations
  of the record \<open>literal_ops\<close>; \<open>dbg\<close> quotes text for messages.
\<close>

subsection \<open>Quotes and words\<close>

definition operators :: "(string \<times> comparison) list" where
  "operators = [(''>='', CmpGe), (''<='', CmpLe), (''!='', CmpNe), (''='', CmpEq), (''>'', CmpGt), (''<'', CmpLt)]"

definition is_quote :: "char \<Rightarrow> bool" where
  "is_quote c \<longleftrightarrow> c = CHR 0x22 \<or> c = CHR 0x27"

fun unquoted_from :: "char option \<Rightarrow> string \<Rightarrow> bool list" where
  "unquoted_from q [] = []"
| "unquoted_from (Some q) (c # cs) = False # unquoted_from (if c = q then None else Some q) cs"
| "unquoted_from None (c # cs) =
     (if is_quote c then False # unquoted_from (Some c) cs else True # unquoted_from None cs)"

definition unquoted :: "string \<Rightarrow> bool list" where
  "unquoted cs = unquoted_from None cs"

definition word_at :: "string \<Rightarrow> nat \<Rightarrow> string \<Rightarrow> bool" where
  "word_at cs i w \<longleftrightarrow> i + length w \<le> length cs \<and>
     to_lowercase (take (length w) (drop i cs)) = to_lowercase w \<and>
     (i = 0 \<or> cs ! (i - 1) = CHR '' '') \<and>
     (i + length w = length cs \<or> cs ! (i + length w) = CHR '' '')"

definition bare_word :: "string \<Rightarrow> string \<Rightarrow> bool" where
  "bare_word expr w = (let free = unquoted expr in list_ex (\<lambda>i. free ! i \<and> word_at expr i w) [0..<length expr])"

function split_loop :: "string \<Rightarrow> bool list \<Rightarrow> nat \<Rightarrow> string \<Rightarrow> string list \<Rightarrow> string list" where
  "split_loop cs free i current out =
     (if i < length cs then
        if free ! i \<and> word_at cs i ''AND'' then split_loop cs free (i + 3) [] (out @ [current])
        else split_loop cs free (i + 1) (current @ [cs ! i]) out
      else out @ [current])"
  by pat_completeness auto
termination by (relation "measure (\<lambda>(cs, free, i, current, out). length cs - i)") auto

declare split_loop.simps [simp del]

definition split_and :: "string \<Rightarrow> string list" where
  "split_and expr = filter (\<lambda>s. s \<noteq> []) (map str_trim (split_loop expr (unquoted expr) 0 [] []))"

subsection \<open>Clauses and values\<close>

definition unquote :: "string \<Rightarrow> string" where
  "unquote s =
     (if length s \<ge> 2 \<and> (hd s = CHR 0x22 \<and> last s = CHR 0x22 \<or> hd s = CHR 0x27 \<and> last s = CHR 0x27)
      then butlast (tl s) else s)"

fun clause_scan ::
  "(string \<Rightarrow> string) \<Rightarrow> string \<Rightarrow> bool list \<Rightarrow> nat list \<Rightarrow> (string \<times> comparison \<times> string) db_result" where
  "clause_scan dbg clause free [] =
     Inl (Invalid (''filter clause '' @ dbg clause @ '' is not `column op value` with = != > >= < <=''))"
| "clause_scan dbg clause free (i # is) =
     (if \<not> free ! i then clause_scan dbg clause free is
      else case find (\<lambda>x. prefix (fst x) (drop i clause)) operators of
        None \<Rightarrow> clause_scan dbg clause free is
      | Some (op_text, comparison) \<Rightarrow>
          let column = str_trim (take i clause); raw = str_trim (drop (length op_text) (drop i clause)) in
          if column = [] \<or> raw = [] then Inl (Invalid (''filter clause '' @ dbg clause @ '' is incomplete''))
          else Inr (column, comparison, unquote raw))"

definition clause_parts :: "(string \<Rightarrow> string) \<Rightarrow> string \<Rightarrow> (string \<times> comparison \<times> string) db_result" where
  "clause_parts dbg clause = clause_scan dbg clause (unquoted clause) [1..<length clause]"

text \<open>\<open>str::parse\<close> at an integer type with the least value \<open>lo\<close> and the greatest \<open>hi\<close>: an optional sign (a minus
  only for a signed type) and digits.\<close>

definition parse_int :: "int \<Rightarrow> int \<Rightarrow> string \<Rightarrow> int option" where
  "parse_int lo hi s =
     (let negative = (s \<noteq> [] \<and> hd s = CHR ''-'' \<and> lo < 0);
          digits = (if negative \<or> s \<noteq> [] \<and> hd s = CHR ''+'' then tl s else s) in
      if digits = [] \<or> \<not> list_all ascii_digit digits then None
      else let n = (if negative then - int (read_nat digits) else int (read_nat digits)) in
        if lo \<le> n \<and> n \<le> hi then Some n else None)"

definition parse_bool :: "string \<Rightarrow> bool option" where
  "parse_bool s = (if s = ''true'' then Some True else if s = ''false'' then Some False else None)"

record 'f literal_ops =
  lt_float :: "string \<Rightarrow> 'f option"
  lt_rfc3339 :: "string \<Rightarrow> int option"

definition coerce :: "'f float_ops \<Rightarrow> 'f literal_ops \<Rightarrow> column_kind \<Rightarrow> string \<Rightarrow> 'f jvalue option" where
  "coerce fo lt kind raw =
     (case kind of
        KString \<Rightarrow> Some (JString raw)
      | KInt \<Rightarrow> map_option JInt (parse_int (- (2 ^ 63)) (2 ^ 63 - 1) raw)
      | KEnum \<Rightarrow> map_option JInt (parse_int (- (2 ^ 31)) (2 ^ 31 - 1) raw)
      | KUint \<Rightarrow> map_option JInt (parse_int 0 (2 ^ 64 - 1) raw)
      | KFloat \<Rightarrow> (case lt_float lt raw of Some x \<Rightarrow> if ff_finite fo x then Some (JFloat x) else None | None \<Rightarrow> None)
      | KBool \<Rightarrow> map_option JBool (parse_bool raw)
      | KTimestamp \<Rightarrow> (case parse_int (- (2 ^ 63)) (2 ^ 63 - 1) raw of
          Some ns \<Rightarrow> Some (JInt ns) | None \<Rightarrow> map_option JInt (lt_rfc3339 lt raw)))"

text \<open>\<open>kind_name\<close> prints a kind.\<close>

fun kind_name :: "column_kind \<Rightarrow> string" where
  "kind_name KString = ''String''"
| "kind_name KInt = ''Int''"
| "kind_name KUint = ''Uint''"
| "kind_name KFloat = ''Float''"
| "kind_name KBool = ''Bool''"
| "kind_name KTimestamp = ''Timestamp''"
| "kind_name KEnum = ''Enum''"

definition typed_clause ::
  "(string \<Rightarrow> string) \<Rightarrow> 'f float_ops \<Rightarrow> 'f literal_ops \<Rightarrow> resource \<Rightarrow> string \<times> comparison \<times> string \<Rightarrow> 'f predicate db_result" where
  "typed_clause dbg fo lt res = (\<lambda>(column, comparison, raw).
     case resource_column res column of
       Inl e \<Rightarrow> Inl e
     | Inr col \<Rightarrow>
         (case coerce fo lt (col_kind col) raw of
            None \<Rightarrow> Inl (Invalid (''filter on '' @ column @ '': '' @ dbg raw @ '' is not '' @ kind_name (col_kind col)))
          | Some v \<Rightarrow> Inr \<lparr>pr_column = column, pr_comparison = comparison, pr_value = v\<rparr>))"

fun collect_db :: "('a \<Rightarrow> 'b db_result) \<Rightarrow> 'a list \<Rightarrow> 'b list db_result" where
  "collect_db f [] = Inr []"
| "collect_db f (x # xs) =
     (case f x of
        Inl e \<Rightarrow> Inl e
      | Inr y \<Rightarrow> (case collect_db f xs of Inl e \<Rightarrow> Inl e | Inr ys \<Rightarrow> Inr (y # ys)))"

definition predicates ::
  "(string \<Rightarrow> string) \<Rightarrow> 'f float_ops \<Rightarrow> 'f literal_ops \<Rightarrow> resource \<Rightarrow> string \<Rightarrow> 'f predicate list db_result" where
  "predicates dbg fo lt res text_of =
     (let expr = str_trim text_of in
      if expr = [] then Inr []
      else if bare_word expr ''OR'' then
        Inl (Invalid (''filter '' @ dbg expr @ '' uses OR; only conjunctions of `column op value` joined by AND are accepted''))
      else collect_db (\<lambda>clause. case clause_parts dbg clause of Inl e \<Rightarrow> Inl e | Inr parts \<Rightarrow> typed_clause dbg fo lt res parts)
        (split_and expr))"

subsection \<open>Words of a text\<close>

fun quote_after :: "char option \<Rightarrow> string \<Rightarrow> char option" where
  "quote_after q [] = q"
| "quote_after (Some q) (c # cs) = quote_after (if c = q then None else Some q) cs"
| "quote_after None (c # cs) = quote_after (if is_quote c then Some c else None) cs"

lemma quote_after_append [simp]: "quote_after q (a @ b) = quote_after (quote_after q a) b"
  by (induction q a rule: quote_after.induct) auto

lemma unquoted_from_append: "unquoted_from q (a @ b) = unquoted_from q a @ unquoted_from (quote_after q a) b"
  by (induction q a rule: quote_after.induct) auto

lemma length_unquoted_from [simp]: "length (unquoted_from q a) = length a"
  by (induction q a rule: quote_after.induct) auto

lemma unquoted_at: "unquoted (a @ c # b) ! length a \<longleftrightarrow> quote_after None a = None \<and> \<not> is_quote c"
  by (cases "quote_after None a") (auto simp: unquoted_def unquoted_from_append nth_append)

text \<open>A free word starts after the text \<open>a\<close> and is the beginning of the text \<open>b\<close>.\<close>

definition starts :: "string \<Rightarrow> string \<Rightarrow> string \<Rightarrow> bool" where
  "starts w a b \<longleftrightarrow> quote_after None a = None \<and> b \<noteq> [] \<and> \<not> is_quote (hd b) \<and> length w \<le> length b \<and>
     to_lowercase (take (length w) b) = to_lowercase w \<and> (a = [] \<or> last a = CHR '' '') \<and>
     (length b = length w \<or> b ! length w = CHR '' '')"

lemma free_word_starts:
  "unquoted (a @ c # b) ! length a \<and> word_at (a @ c # b) (length a) w \<longleftrightarrow> starts w a (c # b)"
proof -
  have "a \<noteq> [] \<Longrightarrow> (a @ c # b) ! (length a - 1) = last a" by (simp add: nth_append last_conv_nth)
  moreover have "(a @ c # b) ! (length a + length w) = (c # b) ! length w" by (simp add: nth_append)
  ultimately show ?thesis unfolding unquoted_at word_at_def starts_def by (cases "a = []") auto
qed

text \<open>No free word starts inside \<open>x\<close>, which follows \<open>a\<close> and is followed by \<open>b\<close>.\<close>

definition clear :: "string \<Rightarrow> string \<Rightarrow> string \<Rightarrow> string \<Rightarrow> bool" where
  "clear w a x b \<longleftrightarrow> (\<forall>y c z. x = y @ c # z \<longrightarrow> \<not> starts w (a @ y) (c # z @ b))"

lemma clear_Nil [simp]: "clear w a [] b"
  by (simp add: clear_def)

lemma clear_Cons: "clear w a (c # x) b \<longleftrightarrow> \<not> starts w a (c # x @ b) \<and> clear w (a @ [c]) x b"
  unfolding clear_def by (auto simp: Cons_eq_append_conv)

lemma clear_append: "clear w a (x @ y) b \<longleftrightarrow> clear w a x (y @ b) \<and> clear w (a @ x) y b"
  by (induction x arbitrary: a) (auto simp: clear_Cons)

lemma bare_word_clear: "bare_word expr w \<longleftrightarrow> \<not> clear w [] expr []"
proof
  assume "bare_word expr w"
  then obtain i where i: "i < length expr" "unquoted expr ! i" "word_at expr i w"
    by (auto simp: bare_word_def list_ex_iff Let_def)
  let ?y = "take i expr" and ?z = "drop (Suc i) expr"
  have e: "expr = ?y @ expr ! i # ?z" and l: "length ?y = i" using i(1) by (simp_all add: id_take_nth_drop)
  have "starts w ?y (expr ! i # ?z)"
    using free_word_starts [of ?y "expr ! i" ?z w] i(2,3) unfolding e [symmetric] l by blast
  with e show "\<not> clear w [] expr []" unfolding clear_def by (metis append_Nil append_Nil2)
next
  assume "\<not> clear w [] expr []"
  then obtain y c z where e: "expr = y @ c # z" and "starts w y (c # z)" by (auto simp: clear_def)
  then show "bare_word expr w" using free_word_starts [of y c z w]
    by (auto simp: bare_word_def list_ex_iff Let_def intro!: bexI [of _ "length y"])
qed

subsection \<open>Splitting at AND\<close>

lemma split_skip:
  assumes "clear ''AND'' a x b"
  shows "split_loop (a @ x @ b) (unquoted (a @ x @ b)) (length a) cur out =
    split_loop (a @ x @ b) (unquoted (a @ x @ b)) (length a + length x) (cur @ x) out"
  using assms
proof (induction x arbitrary: a cur)
  case (Cons c x)
  have "\<not> (unquoted (a @ (c # x) @ b) ! length a \<and> word_at (a @ (c # x) @ b) (length a) ''AND'')"
    using Cons.prems free_word_starts [of a c "x @ b" "''AND''"] by (simp add: clear_Cons)
  then have "split_loop (a @ (c # x) @ b) (unquoted (a @ (c # x) @ b)) (length a) cur out =
      split_loop (a @ (c # x) @ b) (unquoted (a @ (c # x) @ b)) (length a + 1) (cur @ [c]) out"
    by (subst split_loop.simps) (auto simp: nth_append)
  also have "\<dots> = split_loop (a @ (c # x) @ b) (unquoted (a @ (c # x) @ b)) (length a + length (c # x)) (cur @ c # x) out"
    using Cons.IH [of "a @ [c]" "cur @ [c]"] Cons.prems by (simp add: clear_Cons)
  finally show ?case .
qed simp

lemma split_stop:
  assumes "starts ''AND'' a (CHR ''A'' # b)"
  shows "split_loop (a @ CHR ''A'' # b) (unquoted (a @ CHR ''A'' # b)) (length a) cur out =
    split_loop (a @ CHR ''A'' # b) (unquoted (a @ CHR ''A'' # b)) (length a + 3) [] (out @ [cur])"
  using assms free_word_starts [of a "CHR ''A''" b "''AND''"] by (subst split_loop.simps) simp

lemma split_end: "length cs \<le> i \<Longrightarrow> split_loop cs free i cur out = out @ [cur]"
  by (subst split_loop.simps) simp

subsection \<open>The text of a clause\<close>

text \<open>A clause written without blanks and with its value in double quotes, and a conjunction of such clauses.\<close>

fun op_text :: "comparison \<Rightarrow> string" where
  "op_text CmpGe = ''>=''"
| "op_text CmpLe = ''<=''"
| "op_text CmpNe = ''!=''"
| "op_text CmpEq = ''=''"
| "op_text CmpGt = ''>''"
| "op_text CmpLt = ''<''"

fun clause_text :: "string \<times> comparison \<times> string \<Rightarrow> string" where
  "clause_text (column, comparison, raw) = column @ op_text comparison @ CHR 0x22 # raw @ [CHR 0x22]"

definition filter_text :: "(string \<times> comparison \<times> string) list \<Rightarrow> string" where
  "filter_text ts = join '' AND '' (map clause_text ts)"

definition name_char :: "char \<Rightarrow> bool" where
  "name_char c \<longleftrightarrow> name_start c \<or> ascii_digit c"

fun clause_ok :: "string \<times> comparison \<times> string \<Rightarrow> bool" where
  "clause_ok (column, comparison, raw) \<longleftrightarrow> column \<noteq> [] \<and> list_all name_char column \<and> CHR 0x22 \<notin> set raw"

lemma check_name_ok: "check_name dbg name = Inr () \<Longrightarrow> name \<noteq> [] \<and> list_all name_char name"
proof -
  assume a: "check_name dbg name = Inr ()"
  then have "\<forall>x\<in>set (enumerate 0 name). name_start (snd x) \<or> ascii_digit (snd x)" "name \<noteq> []"
    by (auto simp: check_name_def split: if_splits)
  moreover have "set name = snd ` set (enumerate 0 name)" by (metis list.set_map map_snd_enumerate)
  ultimately show ?thesis by (auto simp: list_all_iff name_char_def)
qed

lemma name_char_plain:
  assumes "name_char c"
  shows "\<not> is_quote c" "c \<noteq> CHR '' ''" "\<not> is_space c" "c \<notin> set ''=<>!''"
  using assms by (auto simp: name_char_def name_start_def ascii_digit_def is_quote_def is_space_def)

lemma quote_after_plain: "list_all (\<lambda>c. \<not> is_quote c) x \<Longrightarrow> quote_after None x = None"
  by (induction x) auto

lemma quote_after_quoted: "CHR 0x22 \<notin> set x \<Longrightarrow> quote_after (Some (CHR 0x22)) x = Some (CHR 0x22)"
  by (induction x) auto

lemma op_text_chars: "c \<in> set (op_text op) \<Longrightarrow> c \<in> set ''=<>!''"
  by (cases op) auto

lemma op_text_Cons: "\<exists>o' rest. op_text op = o' # rest \<and> o' \<in> set ''=<>!''"
  by (cases op) auto

lemma quote_after_clause [simp]:
  assumes "clause_ok t" "quote_after None a = None"
  shows "quote_after None (a @ clause_text t) = None"
proof (cases t)
  case (fields column op raw)
  have "list_all (\<lambda>c. \<not> is_quote c) column" "CHR 0x22 \<notin> set raw"
    using assms(1) fields by (auto simp: list_all_iff name_char_plain)
  moreover have "list_all (\<lambda>c. \<not> is_quote c) (op_text op)" by (cases op) (auto simp: is_quote_def)
  ultimately show ?thesis
    using assms(2) fields by (simp add: quote_after_plain quote_after_quoted is_quote_def)
qed

text \<open>The two words the language knows consist of letters.\<close>

definition keyword :: "string \<Rightarrow> bool" where
  "keyword w \<longleftrightarrow> w = ''AND'' \<or> w = ''OR''"

lemma operator_no_letter:
  assumes "q \<in> set ''=<>!''" "d \<in> set ''ANDOR''"
  shows "lower_char q \<noteq> lower_char d" "lower_char q \<notin> set ''ao''"
proof -
  have "list_all (\<lambda>q. lower_char q \<notin> set ''ao'' \<and> list_all (\<lambda>d. lower_char q \<noteq> lower_char d) ''ANDOR'') ''=<>!''" by code_simp
  with assms show "lower_char q \<noteq> lower_char d" "lower_char q \<notin> set ''ao''" by (auto simp: list_all_iff)
qed

lemma starts_letter: "keyword w \<Longrightarrow> starts w a (c # b) \<Longrightarrow> lower_char c \<in> set ''ao''"
proof -
  assume "keyword w" "starts w a (c # b)"
  moreover have "lower_char (CHR ''A'') = CHR ''a''" "lower_char (CHR ''O'') = CHR ''o''" by code_simp+
  ultimately show ?thesis by (auto simp: keyword_def starts_def to_lowercase_def)
qed

text \<open>A word that would start in a name cannot end: the name goes on, or an operator follows it.\<close>

lemma clear_name:
  assumes "keyword w" "list_all name_char x" "q \<in> set ''=<>!''"
  shows "clear w a x (q # b)"
  unfolding clear_def
proof (intro allI impI notI)
  fix y c z
  assume x: "x = y @ c # z" and st: "starts w (a @ y) (c # z @ q # b)"
  let ?t = "c # z @ q # b" and ?n = "length (c # z)"
  have q: "?t ! ?n = q" by (simp add: nth_append)
  show False
  proof (cases "?n < length w")
    case True
    have "map lower_char (take (length w) ?t) ! ?n = map lower_char w ! ?n"
      using st by (simp add: starts_def to_lowercase_def)
    then have "lower_char q = lower_char (w ! ?n)" using True st q by (simp add: starts_def)
    moreover have "w ! ?n \<in> set w" using True by simp
    moreover have "set w \<subseteq> set ''ANDOR''" using assms(1) by (auto simp: keyword_def)
    ultimately show False using operator_no_letter(1) [OF assms(3)] by blast
  next
    case False
    then have "?t ! length w = CHR '' ''" using st by (auto simp: starts_def)
    moreover have "?t ! length w \<in> set (c # z) \<union> {q}"
      using False by (cases "length w = ?n") (auto simp: nth_append nth_Cons' simp del: length_Cons intro: nth_mem)
    ultimately have "CHR '' '' \<in> set (c # z) \<or> CHR '' '' = q" by auto
    with assms(2,3) x show False using name_char_plain(2) by (auto simp: list_all_iff)
  qed
qed

lemma clear_letters:
  assumes "keyword w" "\<And>c. c \<in> set x \<Longrightarrow> lower_char c \<notin> set ''ao''"
  shows "clear w a x b"
  using assms(2) starts_letter [OF assms(1)] unfolding clear_def by (metis in_set_conv_decomp)

lemma clear_quoted:
  assumes "keyword w" "CHR 0x22 \<notin> set raw" "quote_after None a = None"
  shows "clear w a (CHR 0x22 # raw @ [CHR 0x22]) b"
proof -
  have "\<not> starts w (a @ CHR 0x22 # y) s" if "CHR 0x22 \<notin> set y" for y s
    using that assms(3) by (simp add: starts_def quote_after_quoted is_quote_def)
  moreover have "\<not> starts w a (CHR 0x22 # s)" for s by (simp add: starts_def is_quote_def)
  ultimately show ?thesis
    using assms(2) unfolding clear_Cons clear_append by (auto simp: clear_def Cons_eq_append_conv)
qed

lemma clear_clause:
  assumes "keyword w" "clause_ok t" "quote_after None a = None"
  shows "clear w a (clause_text t) b"
proof (cases t)
  case (fields column op raw)
  obtain q rest where q: "op_text op = q # rest" "q \<in> set ''=<>!''" using op_text_Cons by blast
  have col: "list_all name_char column" "CHR 0x22 \<notin> set raw" using assms(2) fields by auto
  have "clear w (a @ column) (op_text op) s" for s
    by (rule clear_letters [OF assms(1)]) (metis op_text_chars operator_no_letter(2) list.set_intros(1))
  moreover have "clear w a column (op_text op @ s)" for s using clear_name [OF assms(1) col(1) q(2)] q(1) by simp
  moreover have "quote_after None (a @ column @ op_text op) = None"
  proof -
    have "list_all (\<lambda>c. \<not> is_quote c) column" using col(1) by (auto simp: list_all_iff name_char_plain)
    moreover have "list_all (\<lambda>c. \<not> is_quote c) (op_text op)" by (cases op) (auto simp: is_quote_def)
    ultimately show ?thesis using assms(3) by (simp add: quote_after_plain)
  qed
  ultimately show ?thesis
    using clear_quoted [OF assms(1) col(2), of "a @ column @ op_text op" b] fields by (simp add: clear_append)
qed

subsection \<open>Reading the text back\<close>

lemma is_space_blank [simp]: "is_space (CHR '' '')"
  by (simp add: is_space_def)

lemma str_trim_pad:
  assumes "list_all is_space p" "list_all is_space q" "s \<noteq> []" "\<not> is_space (hd s)" "\<not> is_space (last s)"
  shows "str_trim (p @ s @ q) = s"
proof -
  have d: "dropWhile is_space (x @ y) = y" if "list_all is_space x" "y \<noteq> []" "\<not> is_space (hd y)" for x y
    using that by (induction x) (auto simp: neq_Nil_conv)
  have "dropWhile is_space (p @ s @ q) = s @ q" using d [OF assms(1), of "s @ q"] assms(3,4) by simp
  moreover have "dropWhile is_space (rev q @ rev s) = rev s"
    using d [of "rev q" "rev s"] assms(2,3,5) by (simp add: hd_rev list_all_iff)
  ultimately show ?thesis by (simp add: str_trim_def)
qed

lemma clause_text_ends:
  assumes "clause_ok t"
  shows "clause_text t \<noteq> []" "\<not> is_space (hd (clause_text t))" "\<not> is_space (last (clause_text t))"
proof -
  obtain column op raw where t: "t = (column, op, raw)" by (cases t)
  with assms obtain c cs where c: "column = c # cs" "name_char c" by (cases column) auto
  show "clause_text t \<noteq> []" "\<not> is_space (hd (clause_text t))" "\<not> is_space (last (clause_text t))"
    using t c name_char_plain(3) by (auto simp: is_space_def)
qed

definition and_tail :: "(string \<times> comparison \<times> string) list \<Rightarrow> string" where
  "and_tail ts = concat (map (\<lambda>t. '' AND '' @ clause_text t) ts)"

lemma and_tail_simps [simp]:
  "and_tail [] = []" "and_tail (t # ts) = '' '' @ ''AND'' @ '' '' @ clause_text t @ and_tail ts"
  by (simp_all add: and_tail_def)

lemma filter_text_Cons: "filter_text (t # ts) = clause_text t @ and_tail ts"
  by (simp add: filter_text_def join_def and_tail_def comp_def)

fun pieces :: "string \<Rightarrow> (string \<times> comparison \<times> string) list \<Rightarrow> string list" where
  "pieces cur [] = [cur]"
| "pieces cur (t # ts) = (cur @ '' '') # pieces ('' '' @ clause_text t) ts"

lemma split_tail:
  assumes "list_all clause_ok ts" "quote_after None a = None"
  shows "split_loop (a @ and_tail ts) (unquoted (a @ and_tail ts)) (length a) cur out = out @ pieces cur ts"
  using assms
proof (induction ts arbitrary: a cur out)
  case Nil
  then show ?case by (simp add: split_end)
next
  case (Cons t ts)
  have key: "keyword ''AND''" by (simp add: keyword_def)
  have sp: "lower_char (CHR '' '') \<notin> set ''ao''" by code_simp
  have blank: "clear ''AND'' x '' '' y" for x y by (rule clear_letters [OF key]) (use sp in auto)
  let ?c = "clause_text t" and ?r = "and_tail ts"
  let ?T = "a @ '' '' @ ''AND'' @ '' '' @ ?c @ ?r" and ?a1 = "a @ '' ''" and ?a2 = "a @ '' '' @ ''AND''"
  let ?L = "\<lambda>n. split_loop ?T (unquoted ?T) n"
  have q: "quote_after None ?a2 = None" "quote_after None (?a2 @ '' '') = None" using Cons.prems(2) by (simp_all add: is_quote_def)
  have "?L (length a) cur out = ?L (length a + 1) (cur @ '' '') out"
    using split_skip [OF blank, of a "''AND'' @ '' '' @ ?c @ ?r" cur out] by simp
  also have "\<dots> = ?L (length a + 4) [] (out @ [cur @ '' ''])"
  proof -
    have "starts ''AND'' ?a1 (CHR ''A'' # ''ND'' @ '' '' @ ?c @ ?r)"
      using Cons.prems(2) by (simp add: starts_def is_quote_def numeral_3_eq_3)
    from split_stop [OF this, of "cur @ '' ''" out] show ?thesis by (simp add: eval_nat_numeral)
  qed
  also have "\<dots> = ?L (length a + 4 + length ('' '' @ ?c)) ('' '' @ ?c) (out @ [cur @ '' ''])"
  proof -
    have "clear ''AND'' ?a2 ('' '' @ ?c) ?r"
      using blank clear_clause [OF key _ q(2), of t ?r] Cons.prems(1) by (simp only: clear_append append_assoc list.pred_inject(2))
    from split_skip [OF this, of "[]" "out @ [cur @ '' '']"] show ?thesis by (simp add: eval_nat_numeral)
  qed
  also have "\<dots> = (out @ [cur @ '' '']) @ pieces ('' '' @ ?c) ts"
    using Cons.IH [of "?a2 @ '' '' @ ?c" "'' '' @ ?c" "out @ [cur @ '' '']"] Cons.prems(1) q(2)
      quote_after_clause [of t "?a2 @ '' ''"] by (simp add: eval_nat_numeral)
  finally show ?case by simp
qed

lemma trim_pieces:
  assumes "list_all clause_ok (t # ts)" "list_all is_space p"
  shows "filter (\<lambda>s. s \<noteq> []) (map str_trim (pieces (p @ clause_text t) ts)) = map clause_text (t # ts)"
  using assms
proof (induction ts arbitrary: t p)
  case Nil
  then show ?case using str_trim_pad [of p "[]" "clause_text t"] clause_text_ends [of t] by simp
next
  case (Cons u ts)
  have "str_trim (p @ clause_text t @ '' '') = clause_text t"
    using Cons.prems clause_text_ends [of t] by (intro str_trim_pad) auto
  with Cons.IH [of u "'' ''"] Cons.prems clause_text_ends [of t] show ?case by simp
qed

lemma split_and_text: "list_all clause_ok (t # ts) \<Longrightarrow> split_and (filter_text (t # ts)) = map clause_text (t # ts)"
proof -
  assume a: "list_all clause_ok (t # ts)"
  let ?c = "clause_text t"
  have "clear ''AND'' [] ?c (and_tail ts)" by (rule clear_clause) (use a in \<open>auto simp: keyword_def\<close>)
  from split_skip [OF this, of "[]" "[]"] split_tail [of ts ?c ?c "[]"] a quote_after_clause [of t "[]"]
  show ?thesis using trim_pieces [of t ts "[]"] by (simp add: split_and_def filter_text_Cons)
qed

lemma clear_or_tail: "list_all clause_ok ts \<Longrightarrow> quote_after None a = None \<Longrightarrow> clear ''OR'' a (and_tail ts) []"
proof (induction ts arbitrary: a)
  case (Cons t ts)
  have key: "keyword ''OR''" by (simp add: keyword_def)
  have q: "quote_after None (a @ '' AND '') = None" using Cons.prems(2) by (simp add: is_quote_def)
  have "clear ''OR'' a '' AND '' s" for s
    by (simp add: clear_Cons starts_def)
  moreover have "clear ''OR'' (a @ '' AND '') (clause_text t) (and_tail ts)"
    by (rule clear_clause [OF key _ q]) (use Cons.prems in simp)
  moreover have "clear ''OR'' (a @ '' AND '' @ clause_text t) (and_tail ts) []"
    using Cons.IH [of "a @ '' AND '' @ clause_text t"] Cons.prems quote_after_clause [of t "a @ '' AND ''"] q by simp
  ultimately have "clear ''OR'' a ('' AND '' @ clause_text t @ and_tail ts) []" by (simp only: clear_append append_Nil2 append_assoc)
  then show ?case by simp
qed simp

lemma clause_scan_skip:
  assumes "\<forall>i\<in>set is. find (\<lambda>x. prefix (fst x) (drop i clause)) operators = None"
  shows "clause_scan dbg clause free (is @ js) = clause_scan dbg clause free js"
  using assms by (induction "is") auto

lemma no_operator: "c \<notin> set ''=<>!'' \<Longrightarrow> find (\<lambda>x. prefix (fst x) (c # s)) operators = None"
  by (auto simp: operators_def)

lemma find_operator: "find (\<lambda>x. prefix (fst x) (op_text op @ CHR 0x22 # s)) operators = Some (op_text op, op)"
  by (cases op) (simp_all add: operators_def)

lemma clause_parts_text:
  assumes "clause_ok t"
  shows "clause_parts dbg (clause_text t) = Inr t"
proof (cases t)
  case (fields column op raw)
  let ?c = "clause_text t" and ?n = "length column"
  have col: "column \<noteq> []" "list_all name_char column" "CHR 0x22 \<notin> set raw" using assms fields by auto
  obtain q rest where q: "op_text op = q # rest" "q \<in> set ''=<>!''" using op_text_Cons by blast
  have c: "?c = column @ q # rest @ CHR 0x22 # raw @ [CHR 0x22]" using fields q by simp
  have n: "1 \<le> ?n" "?n < length ?c" using col(1) c by (simp_all add: Suc_le_eq)
  have "[1..<length ?c] = [1..<?n] @ [?n..<length ?c]"
    using upt_add_eq_append [of 1 ?n "length ?c - ?n"] n by simp
  then have idx: "[1..<length ?c] = [1..<?n] @ ?n # [Suc ?n..<length ?c]" using n(2) by (simp add: upt_conv_Cons)
  have "find (\<lambda>x. prefix (fst x) (drop i ?c)) operators = None" if "i < ?n" for i
  proof -
    have "drop i ?c = column ! i # drop (Suc i) ?c" using that c by (simp add: Cons_nth_drop_Suc [symmetric])
    moreover have "column ! i \<notin> set ''=<>!''" using that col(2) name_char_plain(4) by (auto simp: list_all_length)
    ultimately show ?thesis using no_operator by simp
  qed
  then have "clause_parts dbg ?c = clause_scan dbg ?c (unquoted ?c) (?n # [Suc ?n..<length ?c])"
    unfolding clause_parts_def idx by (intro clause_scan_skip) auto
  moreover have "unquoted ?c ! ?n"
  proof -
    have "list_all (\<lambda>c. \<not> is_quote c) column" using col(2) by (auto simp: list_all_iff name_char_plain)
    with q(2) show ?thesis unfolding c unquoted_at by (auto simp: quote_after_plain is_quote_def)
  qed
  moreover have "drop ?n ?c = op_text op @ CHR 0x22 # raw @ [CHR 0x22]" "take ?n ?c = column" using fields by simp_all
  moreover have "str_trim column = column"
    using col(1,2) name_char_plain(3) by (intro str_trim_fixed) (auto simp: list_all_iff)
  moreover have "str_trim (CHR 0x22 # raw @ [CHR 0x22]) = CHR 0x22 # raw @ [CHR 0x22]"
    by (rule str_trim_fixed) (simp add: is_space_def)
  ultimately show ?thesis
    using fields col(1) find_operator [of op "raw @ [CHR 0x22]"] by (simp add: unquote_def)
qed

text \<open>Values of the other kinds than text are valid values of their column.\<close>

lemma parse_int_range: "parse_int lo hi s = Some n \<Longrightarrow> lo \<le> n \<and> n \<le> hi"
  by (auto simp: parse_int_def Let_def split: if_splits)

lemma coerce_valid:
  assumes "coerce fo lt kind raw = Some v" "kind \<noteq> KString"
    "\<And>s n. lt_rfc3339 lt s = Some n \<Longrightarrow> - (2 ^ 63) \<le> n \<and> n < 2 ^ 63"
  shows "value_valid fo kind v"
  using assms by (cases kind) (auto simp: coerce_def value_valid_def dest!: parse_int_range split: option.splits if_splits)

subsection \<open>Properties\<close>

text \<open>C31: filters read back. A conjunction of clauses over columns with valid names and values without a double quote,
  written with the values quoted, is read as exactly those clauses, each typed by its column, whatever words and
  operators the values contain; the first clause that does not type is the error.\<close>

theorem filter_reads_back:
  assumes "list_all clause_ok ts"
  shows "predicates dbg fo lt res (filter_text ts) = collect_db (typed_clause dbg fo lt res) ts"
proof (cases ts)
  case Nil
  then show ?thesis by (simp add: predicates_def filter_text_def join_def str_trim_def)
next
  case (Cons t us)
  have last: "\<not> is_space (last (and_tail us)) \<or> us = []" using assms Cons
  proof (induction us arbitrary: ts t rule: rev_induct)
    case (snoc u us)
    then show ?case using clause_text_ends [of u] by (simp add: and_tail_def)
  qed simp
  have trim: "str_trim (filter_text ts) = filter_text ts"
    using assms Cons clause_text_ends [of t] last
    by (intro str_trim_fixed) (auto simp: filter_text_Cons and_tail_def last_append hd_append)
  have ne: "filter_text ts \<noteq> []" using assms Cons clause_text_ends [of t] by (simp add: filter_text_Cons)
  have "clear ''OR'' [] (clause_text t) (and_tail us)" by (rule clear_clause) (use assms Cons in \<open>auto simp: keyword_def\<close>)
  moreover have "clear ''OR'' (clause_text t) (and_tail us) []"
    using clear_or_tail [of us "clause_text t"] assms Cons quote_after_clause [of t "[]"] by simp
  ultimately have "\<not> bare_word (filter_text ts) ''OR''" by (simp add: bare_word_clear Cons filter_text_Cons clear_append)
  moreover have "split_and (filter_text ts) = map clause_text ts" using split_and_text [of t us] assms Cons by simp
  moreover have "collect_db (\<lambda>clause. case clause_parts dbg clause of Inl e \<Rightarrow> Inl e | Inr parts \<Rightarrow> typed_clause dbg fo lt res parts)
      (map clause_text xs) = collect_db (typed_clause dbg fo lt res) xs" if "list_all clause_ok xs" for xs
    using that by (induction xs) (auto simp: clause_parts_text split: sum.splits)
  ultimately show ?thesis using assms trim ne by (simp add: predicates_def Let_def)
qed

definition sample_literals :: "unit literal_ops" where
  "sample_literals = \<lparr>lt_float = (\<lambda>_. None), lt_rfc3339 = (\<lambda>_. None)\<rparr>"

definition sample_series :: resource where
  "sample_series = \<lparr>res_name = ''points'', res_table = ''points'', res_columns =
     [\<lparr>col_name = ''or'', col_kind = KString, col_role = RoleTag\<rparr>, \<lparr>col_name = ''level'', col_kind = KInt, col_role = RoleField\<rparr>,
      \<lparr>col_name = ''at'', col_kind = KTimestamp, col_role = RoleTimestamp\<rparr>]\<rparr>"

definition unit_floats :: "unit float_ops" where
  "unit_floats = \<lparr>ff_of_int = (\<lambda>_. ()), ff_cmp = (\<lambda>_ _. None), ff_finite = (\<lambda>_. False)\<rparr>"

theorem filter_reads_back_witness:
  "predicates (\<lambda>s. s) unit_floats sample_literals sample_series
     (filter_text [(''or'', CmpEq, ''a AND b OR c >= d''), (''level'', CmpGe, ''-7'')]) =
   Inr [\<lparr>pr_column = ''or'', pr_comparison = CmpEq, pr_value = JString ''a AND b OR c >= d''\<rparr>,
     \<lparr>pr_column = ''level'', pr_comparison = CmpGe, pr_value = JInt (- 7)\<rparr>]"
proof -
  have ok: "list_all clause_ok [(''or'', CmpEq, ''a AND b OR c >= d''), (''level'', CmpGe, ''-7'')]" by code_simp
  show ?thesis unfolding filter_reads_back [OF ok] by code_simp
qed

text \<open>A column may be called \<open>or\<close>: a clause on it written with blanks is refused as a disjunction.\<close>

lemma filter_or_column:
  "\<exists>e. predicates (\<lambda>s. s) unit_floats sample_literals sample_series (''or = 1'') = Inl (Invalid e) \<and>
     resource_new (\<lambda>s. s) ''points'' (res_columns sample_series) = Inr sample_series"
proof -
  have "bare_word (str_trim ''or = 1'') ''OR''" "str_trim ''or = 1'' \<noteq> []" by code_simp+
  moreover have "resource_new (\<lambda>s. s) ''points'' (res_columns sample_series) = Inr sample_series" by code_simp
  ultimately show ?thesis by (simp add: predicates_def Let_def)
qed

end
