(* ===== verification/Aggregates.thy ===== *)
theory Aggregates
  imports Capture Filtering
begin

text \<open>
  Bucketed reductions: the query (\<open>src/database/src/store/reduce.rs\<close>, options of \<open>store/timeseries.rs\<close>), the running
  reduction of the Arrow driver (\<open>arrow/aggregate.rs\<close>) and the operation on a captured table (\<open>arrow/series.rs\<close>).

  The map of groups is an association list in order of first sight; its only reader sorts it by distinct keys.
  Counts and 128-bit integer sums are exact integers: no table has the rows to overflow them. The product that
  gives the start of a bucket wraps at 64 bits. Arithmetic on floats is the record \<open>float_arith\<close>.
\<close>

subsection \<open>Queries\<close>

datatype reducer_func = RCount | RSum | RAvg | RMin | RMax

datatype reduction = RedCount | RedMean | RedSum | RedMin | RedMax

record reduction_option =
  rn_func :: reducer_func
  rn_column :: string
  rn_alias :: string

record aggregate_options =
  ao_time_column :: string
  ao_start :: int
  ao_end :: int
  ao_every :: nat
  ao_reduce :: "reduction_option list"
  ao_group_by :: "string list"
  ao_filter :: string
  ao_limit :: nat

record reduce =
  rd_column :: string
  rd_function :: reduction
  rd_alias :: string

record 'f aggregate =
  ag_range :: "'f window"
  ag_every_seconds :: nat
  ag_reduce :: "reduce list"
  ag_group_by :: "string list"

definition default_bucket_limit :: nat where
  "default_bucket_limit = 1000"

fun reduction_of :: "reducer_func \<Rightarrow> reduction" where
  "reduction_of RCount = RedCount"
| "reduction_of RSum = RedSum"
| "reduction_of RAvg = RedMean"
| "reduction_of RMin = RedMin"
| "reduction_of RMax = RedMax"

definition reduce_of :: "reduction_option \<Rightarrow> reduce" where
  "reduce_of r = \<lparr>rd_column = rn_column r, rd_function = reduction_of (rn_func r), rd_alias = rn_alias r\<rparr>"

definition aggregate_of ::
  "(resource \<Rightarrow> string \<Rightarrow> 'f predicate list db_result) \<Rightarrow> resource \<Rightarrow> aggregate_options \<Rightarrow> 'f aggregate db_result" where
  "aggregate_of parse res opts =
     (case check_time_column res (ao_time_column opts) of
        Inl e \<Rightarrow> Inl e
      | Inr _ \<Rightarrow>
          let secs = ao_every opts div 10 ^ 9 in
          if \<not> (secs < 2 ^ 32 \<and> 0 < secs \<and> ao_every opts mod 10 ^ 9 = 0)
          then Inl (Invalid ''aggregation needs a whole-second bucket width'')
          else case parse res (ao_filter opts) of
            Inl e \<Rightarrow> Inl e
          | Inr ps \<Rightarrow>
              let wn = \<lparr>wn_start = ao_start opts, wn_end = ao_end opts,
                        wn_limit = (if ao_limit opts = 0 then default_bucket_limit else ao_limit opts),
                        wn_descending = False, wn_predicates = ps\<rparr>
              in case window_validate wn of
                   Inl e \<Rightarrow> Inl e
                 | Inr _ \<Rightarrow> Inr \<lparr>ag_range = wn, ag_every_seconds = secs, ag_reduce = map reduce_of (ao_reduce opts),
                                 ag_group_by = ao_group_by opts\<rparr>)"

fun validate_groups :: "resource \<Rightarrow> string list \<Rightarrow> string list \<Rightarrow> string list db_result" where
  "validate_groups res names [] = Inr names"
| "validate_groups res names (name # gs) =
     (case resource_column res name of
        Inl e \<Rightarrow> Inl e
      | Inr col \<Rightarrow>
          if col_role col \<noteq> RoleTag \<or> name \<in> set names then Inl (Invalid (''group must be a distinct tag: '' @ name))
          else validate_groups res (name # names) gs)"

fun validate_reductions :: "(string \<Rightarrow> string) \<Rightarrow> resource \<Rightarrow> string list \<Rightarrow> reduce list \<Rightarrow> unit db_result" where
  "validate_reductions dbg res names [] = Inr ()"
| "validate_reductions dbg res names (r # rs) =
     (case check_name dbg (rd_alias r) of
        Inl e \<Rightarrow> Inl e
      | Inr _ \<Rightarrow>
          (case resource_column res (rd_column r) of
             Inl e \<Rightarrow> Inl e
           | Inr col \<Rightarrow>
               if col_role col \<noteq> RoleField \<or> col_kind col \<notin> set [KInt, KUint, KFloat] \<or> rd_alias r \<in> set names
               then Inl (Invalid ''reductions need numeric fields and unique output names'')
               else validate_reductions dbg res (rd_alias r # names) rs))"

definition aggregate_validate :: "(string \<Rightarrow> string) \<Rightarrow> resource \<Rightarrow> 'f aggregate \<Rightarrow> unit db_result" where
  "aggregate_validate dbg res q =
     (if ag_every_seconds q = 0 \<or> ag_reduce q = []
      then Inl (Invalid ''aggregation needs a positive bucket width and reductions'')
      else case time_column res of
        Inl e \<Rightarrow> Inl e
      | Inr time \<Rightarrow>
          (case validate_groups res [time] (ag_group_by q) of
             Inl e \<Rightarrow> Inl e
           | Inr names \<Rightarrow> validate_reductions dbg res names (ag_reduce q)))"

subsection \<open>Running totals\<close>

record 'f float_arith =
  fa_zero :: 'f
  fa_add :: "'f \<Rightarrow> 'f \<Rightarrow> 'f"
  fa_div :: "'f \<Rightarrow> 'f \<Rightarrow> 'f"
  fa_min :: "'f \<Rightarrow> 'f \<Rightarrow> 'f"
  fa_max :: "'f \<Rightarrow> 'f \<Rightarrow> 'f"

record 'f acc =
  ac_count :: int
  ac_int_sum :: int
  ac_float_sum :: 'f
  ac_min :: "'f option"
  ac_max :: "'f option"
  ac_int_min :: "int option"
  ac_int_max :: "int option"

definition acc_default :: "'f float_arith \<Rightarrow> 'f acc" where
  "acc_default fa = \<lparr>ac_count = 0, ac_int_sum = 0, ac_float_sum = fa_zero fa, ac_min = None, ac_max = None,
     ac_int_min = None, ac_int_max = None\<rparr>"

definition map_or :: "'a \<Rightarrow> ('a \<Rightarrow> 'a) \<Rightarrow> 'a option \<Rightarrow> 'a" where
  "map_or d f x = (case x of None \<Rightarrow> d | Some m \<Rightarrow> f m)"

fun as_int :: "column_kind \<Rightarrow> 'f jvalue \<Rightarrow> int option" where
  "as_int KInt v = as_i64 v"
| "as_int KUint v = as_u64 v"
| "as_int _ v = None"

definition acc_add :: "'f float_ops \<Rightarrow> 'f float_arith \<Rightarrow> column_kind \<Rightarrow> 'f jvalue \<Rightarrow> 'f acc \<Rightarrow> 'f acc" where
  "acc_add fo fa kind v acc =
     (case as_f64 fo v of
        None \<Rightarrow> acc
      | Some x \<Rightarrow>
          let acc1 = acc\<lparr>ac_count := ac_count acc + 1, ac_float_sum := fa_add fa (ac_float_sum acc) x,
                         ac_min := Some (map_or x (\<lambda>m. fa_min fa m x) (ac_min acc)),
                         ac_max := Some (map_or x (\<lambda>m. fa_max fa m x) (ac_max acc))\<rparr>
          in case as_int kind v of
               None \<Rightarrow> acc1
             | Some n \<Rightarrow> acc1\<lparr>ac_int_sum := ac_int_sum acc + n,
                              ac_int_min := Some (map_or n (\<lambda>m. min m n) (ac_int_min acc)),
                              ac_int_max := Some (map_or n (\<lambda>m. max m n) (ac_int_max acc))\<rparr>)"

text \<open>\<open>Value::from\<close> a float: a number when it is finite.\<close>

definition float_value :: "'f float_ops \<Rightarrow> 'f \<Rightarrow> 'f jvalue" where
  "float_value fo x = (if ff_finite fo x then JFloat x else JNull)"

definition int_value :: "'f float_ops \<Rightarrow> column_kind \<Rightarrow> int \<Rightarrow> 'f jvalue" where
  "int_value fo kind n =
     (if kind = KUint then if 0 \<le> n \<and> n < 2 ^ 64 then JInt n else float_value fo (ff_of_int fo n)
      else if - (2 ^ 63) \<le> n \<and> n < 2 ^ 63 then JInt n else float_value fo (ff_of_int fo n))"

definition acc_finish :: "'f float_ops \<Rightarrow> 'f float_arith \<Rightarrow> column_kind \<Rightarrow> reduction \<Rightarrow> 'f acc \<Rightarrow> 'f jvalue" where
  "acc_finish fo fa kind function acc =
     (let float = (\<lambda>v. case v of None \<Rightarrow> JNull | Some x \<Rightarrow> float_value fo x);
          int = (\<lambda>v. case v of None \<Rightarrow> JNull | Some n \<Rightarrow> int_value fo kind n) in
      case function of
        RedCount \<Rightarrow> JInt (ac_count acc)
      | RedMean \<Rightarrow> float_value fo (fa_div fa (ac_float_sum acc) (ff_of_int fo (ac_count acc)))
      | RedSum \<Rightarrow> if kind = KFloat then float_value fo (ac_float_sum acc) else int_value fo kind (ac_int_sum acc)
      | RedMin \<Rightarrow> if kind = KFloat then float (ac_min acc) else int (ac_int_min acc)
      | RedMax \<Rightarrow> if kind = KFloat then float (ac_max acc) else int (ac_int_max acc))"

subsection \<open>The running reduction\<close>

type_synonym bucket_key = "int \<times> string list"

record 'f reducer =
  re_options :: "'f aggregate"
  re_time :: string
  re_width :: int
  re_kinds :: "column_kind list"
  re_groups :: "(bucket_key \<times> 'f acc list) list"

definition reducer_new :: "resource \<Rightarrow> 'f aggregate \<Rightarrow> 'f reducer db_result" where
  "reducer_new res q =
     (case collect_db (\<lambda>r. case resource_column res (rd_column r) of Inl e \<Rightarrow> Inl e | Inr c \<Rightarrow> Inr (col_kind c)) (ag_reduce q) of
        Inl e \<Rightarrow> Inl e
      | Inr kinds \<Rightarrow>
          (case time_column res of
             Inl e \<Rightarrow> Inl e
           | Inr time \<Rightarrow> Inr \<lparr>re_options = q, re_time = time, re_width = int (ag_every_seconds q) * 10 ^ 9, re_kinds = kinds,
                              re_groups = []\<rparr>))"

definition wrap_i64 :: "int \<Rightarrow> int" where
  "wrap_i64 n = (n + 2 ^ 63) mod 2 ^ 64 - 2 ^ 63"

definition bucket_of :: "string \<Rightarrow> int \<Rightarrow> string list \<Rightarrow> 'f db_record \<Rightarrow> bucket_key option" where
  "bucket_of time width group_by row =
     (case map_of row time of
        None \<Rightarrow> None
      | Some v \<Rightarrow>
          (case as_i64 v of
             None \<Rightarrow> None
           | Some at \<Rightarrow>
               Some (wrap_i64 (at div width * width),
                 map (\<lambda>t. case map_of row t of
                        Some v \<Rightarrow> (case as_str v of Some s \<Rightarrow> s | None \<Rightarrow> '''')
                      | None \<Rightarrow> '''') group_by)))"

fun groups_entry :: "'k \<Rightarrow> 'v \<Rightarrow> ('v \<Rightarrow> 'v) \<Rightarrow> ('k \<times> 'v) list \<Rightarrow> ('k \<times> 'v) list" where
  "groups_entry k d f [] = [(k, f d)]"
| "groups_entry k d f ((k1, v) # gs) = (if k1 = k then (k1, f v) # gs else (k1, v) # groups_entry k d f gs)"

definition add_row ::
  "'f float_ops \<Rightarrow> 'f float_arith \<Rightarrow> reduce list \<Rightarrow> column_kind list \<Rightarrow> 'f db_record \<Rightarrow> 'f acc list \<Rightarrow> 'f acc list" where
  "add_row fo fa reduces kinds row accs =
     map (\<lambda>((acc, r), kind). case map_of row (rd_column r) of Some v \<Rightarrow> acc_add fo fa kind v acc | None \<Rightarrow> acc)
       (zip (zip accs reduces) kinds)"

definition reducer_add :: "'f float_ops \<Rightarrow> 'f float_arith \<Rightarrow> 'f db_record \<Rightarrow> 'f reducer \<Rightarrow> 'f reducer" where
  "reducer_add fo fa row re =
     (case bucket_of (re_time re) (re_width re) (ag_group_by (re_options re)) row of
        None \<Rightarrow> re
      | Some k \<Rightarrow>
          re\<lparr>re_groups := groups_entry k (replicate (length (re_kinds re)) (acc_default fa))
               (add_row fo fa (ag_reduce (re_options re)) (re_kinds re) row) (re_groups re)\<rparr>)"

text \<open>Insertion into a sorted map.\<close>

fun map_put :: "string \<Rightarrow> 'v \<Rightarrow> (string \<times> 'v) list \<Rightarrow> (string \<times> 'v) list" where
  "map_put k v [] = [(k, v)]"
| "map_put k v ((k1, v1) # r) =
     (if k < k1 then (k, v) # (k1, v1) # r else if k = k1 then (k, v) # r else (k1, v1) # map_put k v r)"

definition map_extend :: "(string \<times> 'v) list \<Rightarrow> (string \<times> 'v) list \<Rightarrow> (string \<times> 'v) list" where
  "map_extend kvs r = fold (\<lambda>(k, v). map_put k v) kvs r"

definition bucket_rank :: "bool \<Rightarrow> bucket_key \<Rightarrow> int \<times> string list" where
  "bucket_rank descending k = (if descending then - fst k else fst k, snd k)"

definition bucket_row :: "string \<Rightarrow> string list \<Rightarrow> bucket_key \<Rightarrow> (string \<times> 'f jvalue) list \<Rightarrow> 'f db_record" where
  "bucket_row time group_by k values =
     map_extend values (map_extend (zip group_by (map JString (snd k))) [(time, JInt (fst k))])"

definition reducer_finish :: "'f float_ops \<Rightarrow> 'f float_arith \<Rightarrow> 'f reducer \<Rightarrow> 'f db_record list" where
  "reducer_finish fo fa re =
     (let q = re_options re;
          keyed = take (wn_limit (ag_range q)) (sort_key (\<lambda>g. bucket_rank (wn_descending (ag_range q)) (fst g)) (re_groups re))
      in map (\<lambda>(k, accs). bucket_row (re_time re) (ag_group_by q) k
           (map (\<lambda>((acc, r), kind). (rd_alias r, acc_finish fo fa kind (rd_function r) acc)) (zip (zip accs (ag_reduce q)) (re_kinds re))))
         keyed)"

subsection \<open>Buckets of a table\<close>

record 'f bucket =
  bk_start :: int
  bk_group :: "(string \<times> string) list"
  bk_values :: "(string \<times> 'f) list"

text \<open>\<open>show_value\<close> prints a value that is not a string.\<close>

definition value_text :: "('f jvalue \<Rightarrow> string) \<Rightarrow> 'f jvalue option \<Rightarrow> string" where
  "value_text show_value v =
     (case v of Some (JString s) \<Rightarrow> s | Some JNull \<Rightarrow> '''' | None \<Rightarrow> '''' | Some other \<Rightarrow> show_value other)"

definition bucket_from ::
  "'f float_ops \<Rightarrow> 'f float_arith \<Rightarrow> ('f jvalue \<Rightarrow> string) \<Rightarrow> 'f aggregate \<Rightarrow> string \<Rightarrow> 'f db_record \<Rightarrow> 'f bucket" where
  "bucket_from fo fa show_value q time row =
     \<lparr>bk_start = (case Option.bind (map_of row time) as_i64 of Some t \<Rightarrow> t | None \<Rightarrow> 0),
      bk_group = map_extend (map (\<lambda>g. (g, value_text show_value (map_of row g))) (ag_group_by q)) [],
      bk_values = map_extend (map (\<lambda>r. (rd_alias r,
         case Option.bind (map_of row (rd_alias r)) (as_f64 fo) of Some x \<Rightarrow> x | None \<Rightarrow> fa_zero fa)) (ag_reduce q)) []\<rparr>"

definition aggregate_buckets ::
  "'f float_ops \<Rightarrow> 'f float_arith \<Rightarrow> ('f jvalue \<Rightarrow> string) \<Rightarrow> 'f aggregate \<Rightarrow> resource \<Rightarrow> 'f db_record list \<Rightarrow> 'f bucket list db_result" where
  "aggregate_buckets fo fa show_value q res rows =
     (case time_column res of Inl e \<Rightarrow> Inl e | Inr time \<Rightarrow> Inr (map (bucket_from fo fa show_value q time) rows))"

definition driver_aggregate ::
  "'f float_ops \<Rightarrow> 'f float_arith \<Rightarrow> ('f jvalue \<Rightarrow> string) \<Rightarrow> (string \<Rightarrow> string) \<Rightarrow> (column_kind \<Rightarrow> 'f jvalue \<Rightarrow> string) \<Rightarrow>
   (resource \<Rightarrow> string \<Rightarrow> 'f predicate list db_result) \<Rightarrow> resource \<Rightarrow> aggregate_options \<Rightarrow> 'f capture \<Rightarrow> 'f bucket list db_result" where
  "driver_aggregate fo fa show_value dbg_name dbg parse res opts st =
     (case aggregate_of parse res opts of
        Inl e \<Rightarrow> Inl e
      | Inr q \<Rightarrow>
          (case check_window fo dbg res (ag_range q) of
             Inl e \<Rightarrow> Inl e
           | Inr _ \<Rightarrow>
               (case aggregate_validate dbg_name res q of
                  Inl e \<Rightarrow> Inl e
                | Inr _ \<Rightarrow>
                    (case reducer_new res q of
                       Inl e \<Rightarrow> Inl e
                     | Inr re \<Rightarrow>
                         (case scan_segments res (ag_range q) (cp_dir st (res_table res)) of
                            Inl e \<Rightarrow> Inl e
                          | Inr bs \<Rightarrow>
                              aggregate_buckets fo fa show_value q res (reducer_finish fo fa
                                (fold (\<lambda>rows re. fold (reducer_add fo fa) (filter (keep_row fo res (ag_range q)) rows) re) bs re)))))))"

text \<open>Segments partition a table by time already: any other partitioning and retention are refused.\<close>

record hypertable_options =
  ho_time_column :: string
  ho_chunk_interval :: "nat option"
  ho_partition_column :: string
  ho_partitions :: int
  ho_retention :: "nat option"

definition driver_ensure_hypertable ::
  "(resource \<Rightarrow> string \<Rightarrow> 'f predicate list db_result) \<Rightarrow> resource \<Rightarrow> hypertable_options \<Rightarrow> unit db_result" where
  "driver_ensure_hypertable parse res opts =
     (if ho_retention opts \<noteq> None \<or> ho_partitions opts > 0 \<or> ho_chunk_interval opts \<noteq> None
      then Inl (Unimplemented ''arrow'' ''set retention or partitioning; rotate segments instead'')
      else case window_of parse res \<lparr>ro_time_column = ho_time_column opts, ro_start = 0, ro_end = 1, ro_descending = False,
             ro_filter = '''', ro_page_size = 0, ro_page_token = ''''\<rparr> of
        Inl e \<Rightarrow> Inl e | Inr _ \<Rightarrow> Inr ())"

subsection \<open>What a reduction means\<close>

text \<open>The value of a reduction over the values of a bucket: exact for integers, in the order of the rows for floats.\<close>

definition reduced :: "'f float_ops \<Rightarrow> 'f float_arith \<Rightarrow> column_kind \<Rightarrow> reduction \<Rightarrow> 'f jvalue list \<Rightarrow> 'f jvalue" where
  "reduced fo fa kind function vs =
     (let fs = List.map_filter (as_f64 fo) vs; ns = List.map_filter (as_int kind) vs;
          total = foldl (fa_add fa) (fa_zero fa) fs in
      case function of
        RedCount \<Rightarrow> JInt (int (length fs))
      | RedMean \<Rightarrow> float_value fo (fa_div fa total (ff_of_int fo (int (length fs))))
      | RedSum \<Rightarrow> if kind = KFloat then float_value fo total else int_value fo kind (sum_list ns)
      | RedMin \<Rightarrow>
          if kind = KFloat then if fs = [] then JNull else float_value fo (foldl (fa_min fa) (hd fs) (tl fs))
          else if ns = [] then JNull else int_value fo kind (Min (set ns))
      | RedMax \<Rightarrow>
          if kind = KFloat then if fs = [] then JNull else float_value fo (foldl (fa_max fa) (hd fs) (tl fs))
          else if ns = [] then JNull else int_value fo kind (Max (set ns)))"

definition acc_of :: "'f float_ops \<Rightarrow> 'f float_arith \<Rightarrow> column_kind \<Rightarrow> 'f jvalue list \<Rightarrow> 'f acc" where
  "acc_of fo fa kind vs = fold (acc_add fo fa kind) vs (acc_default fa)"

lemma as_int_float: "as_int kind v = Some n \<Longrightarrow> as_f64 fo v = Some (ff_of_int fo n)"
  by (cases kind; cases v) (auto split: if_splits)

lemma map_filter_snoc [simp]:
  "List.map_filter f (xs @ [x]) = List.map_filter f xs @ (case f x of None \<Rightarrow> [] | Some y \<Rightarrow> [y])"
  by (induction xs) (auto simp: map_filter_simps split: option.splits)

lemma acc_of_snoc: "acc_of fo fa kind (vs @ [v]) = acc_add fo fa kind v (acc_of fo fa kind vs)"
  by (simp add: acc_of_def)

lemma foldl_snoc_first: "foldl f (hd (xs @ [x])) (tl (xs @ [x])) = (if xs = [] then x else f (foldl f (hd xs) (tl xs)) x)"
  by (cases xs) auto

lemma acc_closed:
  fixes fo :: "'f float_ops" and kind :: column_kind
  defines "fs \<equiv> \<lambda>vs. List.map_filter (as_f64 fo) vs" and "ns \<equiv> \<lambda>vs. List.map_filter (as_int kind) vs"
  shows "acc_of fo fa kind vs = \<lparr>ac_count = int (length (fs vs)), ac_int_sum = sum_list (ns vs),
    ac_float_sum = foldl (fa_add fa) (fa_zero fa) (fs vs),
    ac_min = (if fs vs = [] then None else Some (foldl (fa_min fa) (hd (fs vs)) (tl (fs vs)))),
    ac_max = (if fs vs = [] then None else Some (foldl (fa_max fa) (hd (fs vs)) (tl (fs vs)))),
    ac_int_min = (if ns vs = [] then None else Some (Min (set (ns vs)))),
    ac_int_max = (if ns vs = [] then None else Some (Max (set (ns vs))))\<rparr>"
proof (induction vs rule: rev_induct)
  case Nil
  then show ?case by (simp add: acc_of_def acc_default_def fs_def ns_def map_filter_simps)
next
  case (snoc v vs)
  show ?case
  proof (cases "as_f64 fo v")
    case None
    then have "as_int kind v = None" using as_int_float [of kind v _ fo] by (cases "as_int kind v") auto
    with None snoc show ?thesis by (simp add: acc_of_snoc acc_add_def fs_def ns_def)
  next
    case (Some x)
    show ?thesis
    proof (cases "as_int kind v")
      case None
      with Some snoc show ?thesis
        by (auto simp: acc_of_snoc acc_add_def fs_def ns_def map_or_def Let_def foldl_snoc_first simp del: hd_append tl_append)
    next
      case (Some n)
      with \<open>as_f64 fo v = Some x\<close> snoc show ?thesis
        by (auto simp: acc_of_snoc acc_add_def fs_def ns_def map_or_def Let_def foldl_snoc_first min.commute max.commute
            simp del: hd_append tl_append)
    qed
  qed
qed

lemma acc_finish_reduced: "acc_finish fo fa kind function (acc_of fo fa kind vs) = reduced fo fa kind function vs"
  by (simp add: acc_closed acc_finish_def reduced_def Let_def split: reduction.split)

subsection \<open>Groups\<close>

definition accs_of ::
  "'f float_ops \<Rightarrow> 'f float_arith \<Rightarrow> (reduce \<times> column_kind) list \<Rightarrow> 'f db_record list \<Rightarrow> 'f acc list" where
  "accs_of fo fa rks rows = map (\<lambda>(r, kind). acc_of fo fa kind (List.map_filter (\<lambda>row. map_of row (rd_column r)) rows)) rks"

lemma zip_map_self: "length reduces = length kinds \<Longrightarrow>
    zip (zip (map f (zip reduces kinds)) reduces) kinds = map (\<lambda>(r, k). ((f (r, k), r), k)) (zip reduces kinds)"
  by (induction reduces kinds rule: list_induct2) auto

lemma add_row_accs:
  assumes "length reduces = length kinds"
  shows "add_row fo fa reduces kinds row (accs_of fo fa (zip reduces kinds) rows) = accs_of fo fa (zip reduces kinds) (rows @ [row])"
  unfolding add_row_def accs_of_def zip_map_self [OF assms]
  by (auto simp: acc_of_snoc acc_of_def split: option.split)

lemma accs_of_Nil: "length reduces = length kinds \<Longrightarrow>
    accs_of fo fa (zip reduces kinds) [] = replicate (length kinds) (acc_default fa)"
  by (induction reduces kinds rule: list_induct2) (auto simp: accs_of_def acc_of_def map_filter_simps)

lemma groups_entry_map:
  assumes "distinct ks"
  shows "groups_entry k d f (map (\<lambda>k. (k, F k)) ks) =
    (if k \<in> set ks then map (\<lambda>k1. (k1, if k1 = k then f (F k1) else F k1)) ks else map (\<lambda>k. (k, F k)) ks @ [(k, f d)])"
  using assms by (induction ks) auto

lemma dedup_snoc: "dedup [] (xs @ [x]) = (if x \<in> set xs then dedup [] xs else dedup [] xs @ [x])"
  by (simp add: dedup_append)

text \<open>After any rows the groups are the buckets seen, in order of first sight, each with the totals of its rows.\<close>

lemma reducer_groups:
  defines "B \<equiv> \<lambda>re. bucket_of (re_time re) (re_width re) (ag_group_by (re_options re))"
  assumes "re_groups re = []" "length (ag_reduce (re_options re)) = length (re_kinds re)"
  shows "fold (reducer_add fo fa) rows re = re\<lparr>re_groups :=
    map (\<lambda>k. (k, accs_of fo fa (zip (ag_reduce (re_options re)) (re_kinds re)) (filter (\<lambda>row. B re row = Some k) rows)))
      (dedup [] (List.map_filter (B re) rows))\<rparr>"
proof (induction rows rule: rev_induct)
  case Nil
  then show ?case using assms(2) by (simp add: map_filter_simps)
next
  case (snoc row rows)
  let ?G = "\<lambda>rows k. accs_of fo fa (zip (ag_reduce (re_options re)) (re_kinds re)) (filter (\<lambda>row. B re row = Some k) rows)"
  let ?ks = "dedup [] (List.map_filter (B re) rows)"
  have seen: "set (List.map_filter (B re) rows) = {k. \<exists>row\<in>set rows. B re row = Some k}"
    by (force simp: map_filter_def)
  have step: "fold (reducer_add fo fa) (rows @ [row]) re = reducer_add fo fa row (re\<lparr>re_groups := map (\<lambda>k. (k, ?G rows k)) ?ks\<rparr>)"
    by (simp only: fold_append fold_simps comp_apply snoc)
  show ?case
  proof (cases "B re row")
    case None
    then show ?thesis unfolding step by (simp add: reducer_add_def B_def)
  next
    case (Some k)
    have "re_groups (fold (reducer_add fo fa) (rows @ [row]) re) =
        groups_entry k (replicate (length (re_kinds re)) (acc_default fa))
          (add_row fo fa (ag_reduce (re_options re)) (re_kinds re) row) (map (\<lambda>k. (k, ?G rows k)) ?ks)"
      unfolding step using Some by (simp add: reducer_add_def B_def)
    also have "\<dots> = map (\<lambda>k. (k, ?G (rows @ [row]) k)) (dedup [] (List.map_filter (B re) (rows @ [row])))"
    proof (cases "k \<in> set (List.map_filter (B re) rows)")
      case True
      then show ?thesis
        using Some by (simp add: groups_entry_map distinct_dedup set_dedup dedup_snoc add_row_accs [OF assms(3)])
    next
      case False
      then have "filter (\<lambda>row. B re row = Some k) rows = []" by (auto simp: seen filter_empty_conv)
      with False show ?thesis
        using Some add_row_accs [OF assms(3), of fo fa row "[]"] accs_of_Nil [OF assms(3), of fo fa]
        by (auto simp: groups_entry_map distinct_dedup set_dedup dedup_snoc)
    qed
    finally show ?thesis unfolding step using Some by (simp add: reducer_add_def B_def)
  qed
qed

subsection \<open>Reducing a table\<close>

definition kind_of :: "resource \<Rightarrow> string \<Rightarrow> column_kind" where
  "kind_of res name = (case resource_column res name of Inr col \<Rightarrow> col_kind col | Inl _ \<Rightarrow> KString)"

text \<open>
  The reference: the buckets of the rows, ordered by start and tags and cut at the limit, each with its start, its
  tags and every reduction of the values its own rows have in the reduced column.
\<close>

definition bucket_summary ::
  "'f float_ops \<Rightarrow> 'f float_arith \<Rightarrow> resource \<Rightarrow> 'f aggregate \<Rightarrow> string \<Rightarrow> 'f db_record list \<Rightarrow> 'f db_record list" where
  "bucket_summary fo fa res q time rows =
     (let B = bucket_of time (int (ag_every_seconds q) * 10 ^ 9) (ag_group_by q);
          keys = take (wn_limit (ag_range q)) (sort_key (bucket_rank (wn_descending (ag_range q))) (dedup [] (List.map_filter B rows)))
      in map (\<lambda>k. bucket_row time (ag_group_by q) k
           (map (\<lambda>r. (rd_alias r, reduced fo fa (kind_of res (rd_column r)) (rd_function r)
              (List.map_filter (\<lambda>row. map_of row (rd_column r)) (filter (\<lambda>row. B row = Some k) rows)))) (ag_reduce q))) keys)"

lemma collect_db_map: "(\<And>x. x \<in> set xs \<Longrightarrow> f x = Inr (g x)) \<Longrightarrow> collect_db f xs = Inr (map g xs)"
  by (induction xs) auto

lemma validate_reductions_columns:
  "validate_reductions dbg res names rs = Inr () \<Longrightarrow> r \<in> set rs \<Longrightarrow> \<exists>col. resource_column res (rd_column r) = Inr col"
  by (induction rs arbitrary: names) (auto split: sum.splits if_splits)

lemma reducer_new_validated:
  assumes "aggregate_validate dbg res q = Inr ()"
  shows "\<exists>time. time_column res = Inr time \<and> reducer_new res q = Inr \<lparr>re_options = q, re_time = time,
    re_width = int (ag_every_seconds q) * 10 ^ 9, re_kinds = map (\<lambda>r. kind_of res (rd_column r)) (ag_reduce q), re_groups = []\<rparr>"
proof -
  obtain time names where v: "time_column res = Inr time" "validate_reductions dbg res names (ag_reduce q) = Inr ()"
    using assms by (auto simp: aggregate_validate_def split: sum.splits if_splits)
  have "collect_db (\<lambda>r. case resource_column res (rd_column r) of Inl e \<Rightarrow> Inl e | Inr c \<Rightarrow> Inr (col_kind c)) (ag_reduce q) =
      Inr (map (\<lambda>r. kind_of res (rd_column r)) (ag_reduce q))"
    by (rule collect_db_map) (use validate_reductions_columns [OF v(2)] in \<open>fastforce simp: kind_of_def\<close>)
  with v(1) show ?thesis by (simp add: reducer_new_def)
qed

lemma zip_kinds: "zip (zip (map f (zip rs (map g rs))) rs) (map g rs) = map (\<lambda>r. ((f (r, g r), r), g r)) rs"
  by (induction rs) auto

lemma finish_groups:
  assumes "reducer_new res q = Inr re" "re_kinds re = map (\<lambda>r. kind_of res (rd_column r)) (ag_reduce q)"
  shows "reducer_finish fo fa (fold (reducer_add fo fa) rows re) = bucket_summary fo fa res q (re_time re) rows"
proof -
  let ?B = "bucket_of (re_time re) (re_width re) (ag_group_by q)" and ?rs = "ag_reduce q"
  let ?F = "\<lambda>k. accs_of fo fa (zip ?rs (re_kinds re)) (filter (\<lambda>row. ?B row = Some k) rows)"
  let ?ks = "dedup [] (List.map_filter ?B rows)" and ?o = "bucket_rank (wn_descending (ag_range q))"
  have re: "re_options re = q" "re_groups re = []" "re_width re = int (ag_every_seconds q) * 10 ^ 9"
    using assms(1) by (auto simp: reducer_new_def split: sum.splits)
  have groups: "fold (reducer_add fo fa) rows re = re\<lparr>re_groups := map (\<lambda>k. (k, ?F k)) ?ks\<rparr>"
    using reducer_groups [OF re(2), of fo fa rows] assms(2) re(1) by simp
  have sorted: "sort_key (\<lambda>g. ?o (fst g)) (map (\<lambda>k. (k, ?F k)) ?ks) = map (\<lambda>k. (k, ?F k)) (sort_key ?o ?ks)"
    using map_sort_key [of "\<lambda>k. (k, ?F k)" "\<lambda>g. ?o (fst g)" ?ks] by simp
  have row: "map (\<lambda>((acc, r), kind). (rd_alias r, acc_finish fo fa kind (rd_function r) acc)) (zip (zip (?F k) ?rs) (re_kinds re)) =
      map (\<lambda>r. (rd_alias r, reduced fo fa (kind_of res (rd_column r)) (rd_function r)
        (List.map_filter (\<lambda>row. map_of row (rd_column r)) (filter (\<lambda>row. ?B row = Some k) rows)))) ?rs" for k
    unfolding accs_of_def assms(2) zip_kinds by (simp add: acc_finish_reduced)
  show ?thesis
    unfolding reducer_finish_def groups bucket_summary_def re(3) [symmetric]
    by (simp add: re(1) sorted take_map row comp_def Let_def)
qed

lemma fold_batches: "fold (\<lambda>rows re. fold f (filter P rows) re) bs re = fold f (filter P (concat bs)) re"
  by (induction bs arbitrary: re) auto

subsection \<open>Properties\<close>


definition sample_query :: aggregate_options where
  "sample_query = \<lparr>ao_time_column = '''', ao_start = 0, ao_end = 100, ao_every = 10 ^ 9,
     ao_reduce = [\<lparr>rn_func = RSum, rn_column = ''n'', rn_alias = ''total''\<rparr>], ao_group_by = [''device''], ao_filter = '''', ao_limit = 5\<rparr>"

definition sample_aggregate :: "unit aggregate" where
  "sample_aggregate = \<lparr>ag_range = \<lparr>wn_start = 0, wn_end = 100, wn_limit = 5, wn_descending = False, wn_predicates = []\<rparr>,
     ag_every_seconds = 1, ag_reduce = [\<lparr>rd_column = ''n'', rd_function = RedSum, rd_alias = ''total''\<rparr>], ag_group_by = [''device'']\<rparr>"

definition no_arith :: "unit float_arith" where
  "no_arith = \<lparr>fa_zero = (), fa_add = (\<lambda>_ _. ()), fa_div = (\<lambda>_ _. ()), fa_min = (\<lambda>_ _. ()), fa_max = (\<lambda>_ _. ())\<rparr>"

lemma sample_summary:
  "bucket_summary no_floats no_arith sample_resource sample_aggregate ''at'' [sample_row 5 ''ahu'', sample_row 3 ''vav''] =
     [[(''at'', JInt 0), (''device'', JString ''ahu''), (''total'', JInt 1)],
      [(''at'', JInt 0), (''device'', JString ''vav''), (''total'', JInt 1)]]"
  by code_simp


text \<open>The start of the bucket of the earliest time does not fit in 64 bits and wraps to the far end.\<close>

lemma bucket_start_wraps: "bucket_of ''at'' (10 ^ 9) [] [(''at'', JInt (- (2 ^ 63)))] = Some (9223372036709551616, [])"
  by (simp add: bucket_of_def wrap_i64_def)

end
