(* ===== verification/Buffered.thy ===== *)
theory Buffered
  imports Store
begin

text \<open>
  Creates through a background batch writer (\<open>src/database/src/buffered.rs\<close>): one writer per table, found or made
  under a lock, and a release that marks the buffer closed, takes the writers, flushes each and closes the wrapped
  database.

  A batch writer is what its contract says (theory Ingest): it admits a record or reports the failure that stopped
  it, and a flush that succeeds has made durable all it had admitted. Of a writer the state keeps the records it
  admitted and how many of them a flush has covered. Any number of creates run, each in three steps: the check of
  the flag, the lookup under the lock, the write. The operations that pass straight through have no state here.
\<close>

subsection \<open>State\<close>

record 'r writer =
  wr_resource :: resource
  wr_admitted :: "'r list"
  wr_flushed :: nat
  wr_failed :: "db_error option"

datatype 'r create_phase =
    CNew
  | CChecked resource 'r
  | CHolding nat resource 'r
  | CPending nat nat
  | CFailed db_error

datatype release_phase =
    ROpen
  | RMarked
  | RFlushing "nat list" "db_error option"
  | RDone "unit db_result"

text \<open>\<open>bu_early\<close>: the writes admitted before the release marked the buffer closed.\<close>

record 'r buffer =
  bu_closed :: bool
  bu_writers :: "string \<rightharpoonup> nat"
  bu_made :: "'r writer list"
  bu_create :: "nat \<Rightarrow> 'r create_phase"
  bu_release :: release_phase
  bu_early :: "(nat \<times> nat) set"

definition buffer_new :: "'r buffer" where
  "buffer_new = \<lparr>bu_closed = False, bu_writers = Map.empty, bu_made = [], bu_create = (\<lambda>_. CNew), bu_release = ROpen,
     bu_early = {}\<rparr>"

definition same_columns :: "resource \<Rightarrow> resource \<Rightarrow> bool" where
  "same_columns a b \<longleftrightarrow> length (res_columns a) = length (res_columns b) \<and>
     list_all (\<lambda>(x, y). col_name x = col_name y \<and> col_kind x = col_kind y \<and> col_role x = col_role y)
       (zip (res_columns a) (res_columns b))"

subsection \<open>Creates\<close>

definition set_create :: "nat \<Rightarrow> 'r create_phase \<Rightarrow> 'r buffer \<Rightarrow> 'r buffer" where
  "set_create c ph s = s\<lparr>bu_create := (bu_create s)(c := ph)\<rparr>"

definition check_closed :: "nat \<Rightarrow> resource \<Rightarrow> 'r \<Rightarrow> 'r buffer \<Rightarrow> 'r buffer" where
  "check_closed c res r s = set_create c (if bu_closed s then CFailed Closed else CChecked res r) s"

text \<open>Under the lock; \<open>made\<close> is what making a batch writer gives.\<close>

definition find_writer :: "nat \<Rightarrow> resource \<Rightarrow> 'r \<Rightarrow> unit db_result \<Rightarrow> 'r buffer \<Rightarrow> 'r buffer" where
  "find_writer c res r made s =
     (case bu_writers s (res_table res) of
        Some w \<Rightarrow> set_create c (CHolding w res r) s
      | None \<Rightarrow>
          (case made of
             Inl e \<Rightarrow> set_create c (CFailed e) s
           | Inr _ \<Rightarrow>
               let w = length (bu_made s) in
               set_create c (CHolding w res r)
                 (s\<lparr>bu_made := bu_made s @ [\<lparr>wr_resource = res, wr_admitted = [], wr_flushed = 0, wr_failed = None\<rparr>],
                    bu_writers := (bu_writers s)(res_table res \<mapsto> w)\<rparr>)))"

definition admit :: "nat \<Rightarrow> nat \<Rightarrow> resource \<Rightarrow> 'r \<Rightarrow> 'r buffer \<Rightarrow> 'r buffer" where
  "admit c w res r s =
     (let wr = bu_made s ! w in
      if \<not> same_columns (wr_resource wr) res
      then set_create c (CFailed (Invalid (''table '' @ res_table res @ '' is already buffered with other columns''))) s
      else case wr_failed wr of
        Some e \<Rightarrow> set_create c (CFailed e) s
      | None \<Rightarrow>
          let k = length (wr_admitted wr) in
          set_create c (CPending w k)
            (s\<lparr>bu_made := (bu_made s)[w := wr\<lparr>wr_admitted := wr_admitted wr @ [r]\<rparr>],
               bu_early := (if bu_closed s then bu_early s else insert (w, k) (bu_early s))\<rparr>))"

subsection \<open>Release\<close>

definition mark_closed :: "'r buffer \<Rightarrow> 'r buffer" where
  "mark_closed s = s\<lparr>bu_closed := True, bu_release := RMarked\<rparr>"

text \<open>Draining the map yields its writers in some order.\<close>

definition drained_order :: "(string \<rightharpoonup> nat) \<Rightarrow> nat list \<Rightarrow> bool" where
  "drained_order m ws \<longleftrightarrow> distinct ws \<and> set ws = ran m"

definition drain_writers :: "nat list \<Rightarrow> 'r buffer \<Rightarrow> 'r buffer" where
  "drain_writers ws s = s\<lparr>bu_writers := Map.empty, bu_release := RFlushing ws None\<rparr>"

text \<open>One flush: \<open>out\<close> is what it reports; a failure is also what stops the writer.\<close>

definition flush_writer :: "unit db_result \<Rightarrow> nat \<Rightarrow> nat list \<Rightarrow> db_error option \<Rightarrow> 'r buffer \<Rightarrow> 'r buffer" where
  "flush_writer out w ws first s =
     (let wr = bu_made s ! w in
      case out of
        Inr _ \<Rightarrow> s\<lparr>bu_made := (bu_made s)[w := wr\<lparr>wr_flushed := length (wr_admitted wr)\<rparr>], bu_release := RFlushing ws first\<rparr>
      | Inl e \<Rightarrow> s\<lparr>bu_made := (bu_made s)[w := wr\<lparr>wr_failed := Some e\<rparr>],
                   bu_release := RFlushing ws (if first = None then Some e else first)\<rparr>)"

definition finish_release :: "unit db_result \<Rightarrow> db_error option \<Rightarrow> 'r buffer \<Rightarrow> 'r buffer" where
  "finish_release closed first s =
     s\<lparr>bu_release := RDone (case first of Some e \<Rightarrow> Inl e | None \<Rightarrow> closed)\<rparr>"

inductive buffer_step :: "'r buffer \<Rightarrow> 'r buffer \<Rightarrow> bool" where
  bs_check: "bu_create s c = CNew \<Longrightarrow> buffer_step s (check_closed c res r s)"
| bs_find: "bu_create s c = CChecked res r \<Longrightarrow> buffer_step s (find_writer c res r made s)"
| bs_admit: "bu_create s c = CHolding w res r \<Longrightarrow> buffer_step s (admit c w res r s)"
| bs_stop: "w < length (bu_made s) \<Longrightarrow> buffer_step s (s\<lparr>bu_made := (bu_made s)[w := (bu_made s ! w)\<lparr>wr_failed := Some e\<rparr>]\<rparr>)"
| bs_mark: "bu_release s = ROpen \<Longrightarrow> buffer_step s (mark_closed s)"
| bs_drain: "bu_release s = RMarked \<Longrightarrow> drained_order (bu_writers s) ws \<Longrightarrow> buffer_step s (drain_writers ws s)"
| bs_flush: "bu_release s = RFlushing (w # ws) first \<Longrightarrow> (wr_failed (bu_made s ! w) = None \<or> (\<exists>e. out = Inl e)) \<Longrightarrow>
    buffer_step s (flush_writer out w ws first s)"
| bs_done: "bu_release s = RFlushing [] first \<Longrightarrow> buffer_step s (finish_release closed first s)"

subsection \<open>Invariant\<close>

text \<open>The writers the release has still to flush: those in the map until it is drained, then those left of them.\<close>

definition unflushed :: "'r buffer \<Rightarrow> nat set" where
  "unflushed s = (case bu_release s of RFlushing ws _ \<Rightarrow> set ws | RDone _ \<Rightarrow> {} | _ \<Rightarrow> ran (bu_writers s))"

definition release_failed :: "'r buffer \<Rightarrow> bool" where
  "release_failed s = (case bu_release s of RFlushing _ first \<Rightarrow> first \<noteq> None | RDone (Inl _) \<Rightarrow> True | _ \<Rightarrow> False)"

fun create_ok :: "'r buffer \<Rightarrow> 'r create_phase \<Rightarrow> bool" where
  "create_ok s (CHolding w res r) \<longleftrightarrow> w < length (bu_made s) \<and> (bu_closed s \<or> w \<in> ran (bu_writers s))"
| "create_ok s _ \<longleftrightarrow> True"

text \<open>An early write is covered: a flush had it, its writer is still to be flushed, or the release reports a failure.\<close>

definition covered :: "'r buffer \<Rightarrow> nat \<times> nat \<Rightarrow> bool" where
  "covered s x \<longleftrightarrow> fst x < length (bu_made s) \<and> snd x < length (wr_admitted (bu_made s ! fst x)) \<and>
     (snd x < wr_flushed (bu_made s ! fst x) \<or> fst x \<in> unflushed s \<or> release_failed s)"

definition release_ok :: "'r buffer \<Rightarrow> bool" where
  "release_ok s \<longleftrightarrow> ran (bu_writers s) \<subseteq> {..<length (bu_made s)} \<and> (bu_closed s \<longleftrightarrow> bu_release s \<noteq> ROpen) \<and>
     (case bu_release s of RFlushing ws first \<Rightarrow> set ws \<subseteq> {..<length (bu_made s)} \<and> distinct ws | _ \<Rightarrow> True)"

definition buffer_inv :: "'r buffer \<Rightarrow> bool" where
  "buffer_inv s \<longleftrightarrow> release_ok s \<and> (\<forall>c. create_ok s (bu_create s c)) \<and> (\<forall>x\<in>bu_early s. covered s x)"

text \<open>Steps that only add: writers, records, flushed records, writers to flush.\<close>

definition grows :: "'r buffer \<Rightarrow> 'r buffer \<Rightarrow> bool" where
  "grows s s' \<longleftrightarrow> length (bu_made s) \<le> length (bu_made s') \<and>
     (\<forall>w<length (bu_made s). length (wr_admitted (bu_made s ! w)) \<le> length (wr_admitted (bu_made s' ! w)) \<and>
        wr_flushed (bu_made s ! w) \<le> wr_flushed (bu_made s' ! w)) \<and>
     unflushed s \<subseteq> unflushed s' \<and> (release_failed s \<longrightarrow> release_failed s')"

lemma covered_grows: "grows s s' \<Longrightarrow> covered s x \<Longrightarrow> covered s' x"
  by (auto simp: grows_def covered_def)

lemma create_ok_mono:
  assumes "length (bu_made s) \<le> length (bu_made s')" "ran (bu_writers s) \<subseteq> ran (bu_writers s') \<or> bu_closed s'"
    "bu_closed s \<longrightarrow> bu_closed s'" "create_ok s ph"
  shows "create_ok s' ph"
  using assms by (cases ph) auto

lemma inv_new: "buffer_inv buffer_new"
  by (simp add: buffer_inv_def release_ok_def buffer_new_def)

text \<open>One create moves, and the rest only grows.\<close>

lemma inv_create:
  assumes "buffer_inv s" "grows s s'" "release_ok s'" "bu_closed s' = bu_closed s" "ran (bu_writers s) \<subseteq> ran (bu_writers s')"
    "bu_create s' = (bu_create s)(c := ph)" "create_ok s' ph" "\<forall>x\<in>bu_early s' - bu_early s. covered s' x"
  shows "buffer_inv s'"
proof -
  have "create_ok s' (bu_create s d)" for d
    by (rule create_ok_mono [of s]) (use assms in \<open>auto simp: grows_def buffer_inv_def\<close>)
  moreover have "\<forall>x\<in>bu_early s. covered s' x" using assms(1) covered_grows [OF assms(2)] by (auto simp: buffer_inv_def)
  ultimately show ?thesis using assms(3,6,7,8) by (auto simp: buffer_inv_def)
qed

lemma inv_set_create:
  assumes "buffer_inv s" "create_ok s ph"
  shows "buffer_inv (set_create c ph s)"
proof -
  have "create_ok (set_create c ph s) ph" using assms(2) by (cases ph) (auto simp: set_create_def)
  with assms(1) show ?thesis
    by (intro inv_create [OF assms(1), where c = c and ph = ph])
      (auto simp: set_create_def grows_def unflushed_def release_failed_def buffer_inv_def release_ok_def split: release_phase.splits)
qed

lemma inv_find:
  assumes "buffer_inv s"
  shows "buffer_inv (find_writer c res r made s)"
proof (cases "bu_writers s (res_table res)")
  case (Some w)
  then have "w \<in> ran (bu_writers s)" by (rule ranI)
  then have "create_ok s (CHolding w res r)" using assms by (auto simp: buffer_inv_def release_ok_def)
  with Some inv_set_create [OF assms] show ?thesis by (simp add: find_writer_def)
next
  case None
  show ?thesis
  proof (cases made)
    case (Inl e)
    then show ?thesis using None inv_set_create [OF assms, of "CFailed e"] by (simp add: find_writer_def)
  next
    case (Inr u)
    let ?w = "length (bu_made s)"
    have ran: "ran ((bu_writers s)(res_table res \<mapsto> ?w)) = insert ?w (ran (bu_writers s))" using None by (rule ran_map_upd)
    show ?thesis
      by (rule inv_create [OF assms, where c = c and ph = "CHolding ?w res r"])
        (use assms None Inr in \<open>auto simp: find_writer_def set_create_def Let_def grows_def unflushed_def release_failed_def nth_append
          buffer_inv_def release_ok_def ran less_Suc_eq simp del: fun_upd_apply split: release_phase.splits\<close>)
  qed
qed

lemma grows_writer:
  assumes "w < length (bu_made s)" "wr_flushed (bu_made s ! w) \<le> wr_flushed wr"
    "length (wr_admitted (bu_made s ! w)) \<le> length (wr_admitted wr)"
  shows "grows s (s\<lparr>bu_made := (bu_made s)[w := wr]\<rparr>)"
  using assms by (auto simp: grows_def nth_list_update unflushed_def release_failed_def split: release_phase.splits)

lemma inv_stop:
  assumes "buffer_inv s" "w < length (bu_made s)"
  shows "buffer_inv (s\<lparr>bu_made := (bu_made s)[w := (bu_made s ! w)\<lparr>wr_failed := Some e\<rparr>]\<rparr>)"
  by (rule inv_create [OF assms(1) grows_writer [OF assms(2)], where c = c and ph = "bu_create s c" for c])
    (use assms in \<open>auto simp: buffer_inv_def release_ok_def intro: create_ok_mono [of s] split: release_phase.splits\<close>)

lemma inv_admit:
  assumes "buffer_inv s" "bu_create s c = CHolding w res r"
  shows "buffer_inv (admit c w res r s)"
proof -
  let ?wr = "bu_made s ! w" and ?k = "length (wr_admitted (bu_made s ! w))"
  have "create_ok s (CHolding w res r)" using assms by (metis buffer_inv_def)
  then have w: "w < length (bu_made s)" "bu_closed s \<or> w \<in> ran (bu_writers s)" by auto
  let ?s1 = "s\<lparr>bu_made := (bu_made s)[w := ?wr\<lparr>wr_admitted := wr_admitted ?wr @ [r]\<rparr>]\<rparr>"
  let ?s2 = "set_create c (CPending w ?k) (?s1\<lparr>bu_early := (if bu_closed s then bu_early s else insert (w, ?k) (bu_early s))\<rparr>)"
  have "grows s ?s1" by (rule grows_writer [OF w(1)]) simp_all
  then have g: "grows s ?s2"
    by (auto simp: grows_def set_create_def unflushed_def release_failed_def split: release_phase.splits)
  have "\<not> bu_closed s \<Longrightarrow> covered ?s2 (w, ?k)"
    using w assms(1) by (auto simp: covered_def set_create_def unflushed_def buffer_inv_def release_ok_def)
  then have "buffer_inv ?s2"
    by (intro inv_create [OF assms(1) g, where c = c and ph = "CPending w ?k"])
      (use assms(1) in \<open>auto simp: set_create_def buffer_inv_def release_ok_def split: release_phase.splits\<close>)
  with inv_set_create [OF assms(1)] show ?thesis by (auto simp: admit_def Let_def split: option.split)
qed

text \<open>Steps of the release move no create and admit nothing.\<close>

lemma inv_release:
  assumes "buffer_inv s" "release_ok s'" "bu_create s' = bu_create s" "bu_early s' = bu_early s"
    "length (bu_made s') = length (bu_made s)" "bu_closed s'" "\<And>x. covered s x \<Longrightarrow> covered s' x"
  shows "buffer_inv s'"
proof -
  have "create_ok s' (bu_create s c)" for c
    by (rule create_ok_mono [of s]) (use assms in \<open>auto simp: buffer_inv_def\<close>)
  with assms show ?thesis by (auto simp: buffer_inv_def)
qed

lemma inv_flush:
  assumes "buffer_inv s" "bu_release s = RFlushing (w # ws) first"
  shows "buffer_inv (flush_writer out w ws first s)"
proof (rule inv_release [OF assms(1)])
  have w: "w < length (bu_made s)" "bu_closed s" using assms by (auto simp: buffer_inv_def release_ok_def)
  then show "bu_closed (flush_writer out w ws first s)" by (cases out) (simp_all add: flush_writer_def Let_def)
  show "release_ok (flush_writer out w ws first s)"
    using assms by (cases out) (auto simp: flush_writer_def Let_def buffer_inv_def release_ok_def)
  show "covered (flush_writer out w ws first s) x" if "covered s x" for x
    using that assms(2) w by (cases out) (auto simp: covered_def flush_writer_def Let_def nth_list_update unflushed_def release_failed_def)
qed (cases out; simp add: flush_writer_def Let_def)+

lemma buffer_inv_step: "buffer_step s s' \<Longrightarrow> buffer_inv s \<Longrightarrow> buffer_inv s'"
proof (induction rule: buffer_step.induct)
  case (bs_check s c res r)
  then show ?case by (simp add: check_closed_def inv_set_create)
next
  case (bs_mark s)
  then show ?case
    by (intro inv_release [OF bs_mark.prems])
      (auto simp: mark_closed_def buffer_inv_def release_ok_def covered_def unflushed_def release_failed_def)
next
  case (bs_drain s ws)
  then show ?case
    by (intro inv_release [OF bs_drain.prems])
      (auto simp: drain_writers_def drained_order_def buffer_inv_def release_ok_def covered_def unflushed_def release_failed_def)
next
  case (bs_done s first closed)
  then show ?case
    by (intro inv_release [OF bs_done.prems])
      (auto simp: finish_release_def buffer_inv_def release_ok_def covered_def unflushed_def release_failed_def split: option.splits sum.splits)
qed (auto intro: inv_find inv_admit inv_stop inv_flush)

lemma buffer_inv_reachable: "buffer_step\<^sup>*\<^sup>* buffer_new s \<Longrightarrow> buffer_inv s"
  by (induction rule: rtranclp_induct) (auto intro: inv_new buffer_inv_step)

subsection \<open>Properties\<close>


definition sample_points :: resource where
  "sample_points = \<lparr>res_name = ''p'', res_table = ''p'', res_columns = []\<rparr>"

definition kept_run :: "nat buffer" where
  "kept_run = finish_release (Inr ()) None (flush_writer (Inr ()) 0 [] None (drain_writers [0] (mark_closed
     (admit 0 0 sample_points 7 (find_writer 0 sample_points 7 (Inr ()) (check_closed 0 sample_points 7 buffer_new))))))"

text \<open>A create that checked the flag before the release and looked its writer up after the drain.\<close>

definition lost_run :: "nat buffer" where
  "lost_run = admit 0 0 sample_points 7 (find_writer 0 sample_points 7 (Inr ()) (finish_release (Inr ()) None
     (drain_writers [] (mark_closed (check_closed 0 sample_points 7 buffer_new)))))"

lemmas run_defs = check_closed_def find_writer_def admit_def set_create_def mark_closed_def drain_writers_def flush_writer_def
  finish_release_def buffer_new_def sample_points_def same_columns_def

lemma reach_step: "buffer_step\<^sup>*\<^sup>* buffer_new s \<Longrightarrow> buffer_step s s' \<Longrightarrow> buffer_step\<^sup>*\<^sup>* buffer_new s'"
  by (rule rtranclp.rtrancl_into_rtrancl)

lemma checked_reachable: "buffer_step\<^sup>*\<^sup>* buffer_new (check_closed 0 sample_points (7 :: nat) buffer_new)"
  by (rule reach_step [OF rtranclp.rtrancl_refl bs_check]) (simp add: buffer_new_def)

lemma kept_reachable: "buffer_step\<^sup>*\<^sup>* buffer_new kept_run"
proof -
  let ?s1 = "check_closed 0 sample_points (7 :: nat) buffer_new"
  let ?s2 = "find_writer 0 sample_points 7 (Inr ()) ?s1"
  let ?s3 = "admit 0 0 sample_points 7 ?s2"
  let ?s4 = "drain_writers [0] (mark_closed ?s3)"
  have "buffer_step\<^sup>*\<^sup>* buffer_new ?s2" by (rule reach_step [OF checked_reachable bs_find]) (simp add: run_defs)
  then have "buffer_step\<^sup>*\<^sup>* buffer_new ?s3" by (rule reach_step [OF _ bs_admit]) (simp add: run_defs)
  then have "buffer_step\<^sup>*\<^sup>* buffer_new (mark_closed ?s3)" by (rule reach_step [OF _ bs_mark]) (simp add: run_defs)
  then have "buffer_step\<^sup>*\<^sup>* buffer_new ?s4" by (rule reach_step [OF _ bs_drain]) (simp_all add: run_defs drained_order_def)
  then have "buffer_step\<^sup>*\<^sup>* buffer_new (flush_writer (Inr ()) 0 [] None ?s4)"
    by (rule reach_step [OF _ bs_flush]) (simp_all add: run_defs)
  then show ?thesis unfolding kept_run_def by (rule reach_step [OF _ bs_done]) (simp add: run_defs)
qed



end
