(* ===== verification/Combine.thy ===== *)
theory Combine
  imports Keyspace Grpc "HOL-Library.Multiset"
begin

text \<open>
  One MCP server made of several services (\<open>src/agents/src/mcp/combine.rs\<close>): each service is inventoried over
  an in-memory session, a name that two of them declare is refused, and a session routes tools and prompts by
  name and resources by address to the service that declared them.

  The MCP library is code of another crate. A handler is a record of the operations the source calls, over a
  world that the services share; the session its server opens on a handler is a record of a write and a read of
  one line; JSON text is printed and parsed by a \<open>json_codec\<close>. Payloads the source passes on unread are JSON
  values. Probing may wait for ever: a call that does not return is \<open>None\<close>.

  \<open>{:?}\<close> on a string is modelled on ASCII text, as \<open>dbg_str\<close>; bytes of longer characters are left alone.
\<close>

subsection \<open>JSON values and quoted names\<close>

datatype json =
    JNull
  | JBool bool
  | JInt int
  | JReal string
  | JStr string
  | JArr "json list"
  | JObj "(string \<times> json) list"

text \<open>\<open>Value::get\<close>, indexing by a name, \<open>as_array().into_iter().flatten()\<close> and \<open>as_str\<close>.\<close>

fun jget :: "json \<Rightarrow> string \<Rightarrow> json option" where
  "jget (JObj fs) k = map_of fs k"
| "jget _ k = None"

definition jat :: "json \<Rightarrow> string \<Rightarrow> json" where
  "jat v k = (case jget v k of Some x \<Rightarrow> x | None \<Rightarrow> JNull)"

fun jitems :: "json \<Rightarrow> json list" where
  "jitems (JArr xs) = xs"
| "jitems _ = []"

fun jstr :: "json \<Rightarrow> string option" where
  "jstr (JStr s) = Some s"
| "jstr _ = None"

record json_codec =
  jc_print :: "json \<Rightarrow> string"
  jc_parse :: "string \<Rightarrow> json option"

definition dbg_char :: "char \<Rightarrow> string" where
  "dbg_char c = (let n = (of_char c :: nat) in
     if c = CHR 0x22 \<or> c = CHR 0x5C then [CHR 0x5C, c]
     else if n = 0 then [CHR 0x5C, CHR ''0'']
     else if n = 9 then [CHR 0x5C, CHR ''t'']
     else if n = 10 then [CHR 0x5C, CHR ''n'']
     else if n = 13 then [CHR 0x5C, CHR ''r'']
     else if n < 32 \<or> n = 127 then CHR 0x5C # ''u{'' @ show_hex n @ ''}''
     else [c])"

definition dbg_str :: "string \<Rightarrow> string" where
  "dbg_str s = CHR 0x22 # concat (map dbg_char s) @ [CHR 0x22]"

subsection \<open>Inventories\<close>

record inventory =
  iv_tools :: "string list"
  iv_prompts :: "string list"
  iv_resources :: "string list"
  iv_templates :: "string list"

definition inventory_names :: "inventory \<Rightarrow> string list" where
  "inventory_names v =
     map (\<lambda>n. ''tool '' @ dbg_str n) (iv_tools v) @
     map (\<lambda>n. ''prompt '' @ dbg_str n) (iv_prompts v) @
     map (\<lambda>n. ''resource '' @ dbg_str n) (iv_resources v) @
     map (\<lambda>n. ''resource template '' @ dbg_str n) (iv_templates v)"

datatype combine_error =
    Inventory_error nat string
  | Collisions "string list"

definition combine_message :: "combine_error \<Rightarrow> string" where
  "combine_message e = (case e of
     Inventory_error index message \<Rightarrow> ''mcp: inventorying service #'' @ show_nat index @ '': '' @ message
   | Collisions lines \<Rightarrow> join [CHR 0x0A] lines)"

subsection \<open>Probing a session\<close>

record 'w session =
  ps_write :: "string \<Rightarrow> 'w \<Rightarrow> (string + unit) \<times> 'w"
  ps_read :: "'w \<Rightarrow> (string + string) \<times> 'w"

record 'w probe =
  pb_next_id :: nat
  pb_world :: 'w

definition probe_new :: "'w \<Rightarrow> 'w probe" where
  "probe_new w = \<lparr>pb_next_id = 0, pb_world = w\<rparr>"

definition probe_send :: "json_codec \<Rightarrow> 'w session \<Rightarrow> json \<Rightarrow> 'w \<Rightarrow> (string + unit) \<times> 'w" where
  "probe_send jc s message w = ps_write s (jc_print jc message @ [CHR 0x0A]) w"

text \<open>The loop of \<open>request\<close>: lines until one answers the request; an empty line is the end of the session.\<close>

partial_function (option) await_reply ::
  "json_codec \<Rightarrow> 'w session \<Rightarrow> string \<Rightarrow> nat \<Rightarrow> 'w \<Rightarrow> ((string + json) \<times> 'w) option" where
  "await_reply jc s method_name rid w =
     (case ps_read s w of
        (Inl e, w1) \<Rightarrow> Some (Inl e, w1)
      | (Inr line, w1) \<Rightarrow>
          if line = [] then Some (Inl (method_name @ '': session closed''), w1)
          else (case jc_parse jc line of
            None \<Rightarrow> await_reply jc s method_name rid w1
          | Some message \<Rightarrow>
              if jat message ''id'' \<noteq> JInt (int rid) then await_reply jc s method_name rid w1
              else (case jget message ''error'' of
                Some error \<Rightarrow> Some (Inl (method_name @ '': '' @ jc_print jc error), w1)
              | None \<Rightarrow> Some (Inr (jat message ''result''), w1))))"

definition request_json :: "nat \<Rightarrow> string \<Rightarrow> json \<Rightarrow> json" where
  "request_json rid method_name params =
     JObj [(''jsonrpc'', JStr ''2.0''), (''id'', JInt (int rid)), (''method'', JStr method_name), (''params'', params)]"

definition probe_request ::
  "json_codec \<Rightarrow> 'w session \<Rightarrow> string \<Rightarrow> json \<Rightarrow> 'w probe \<Rightarrow> ((string + json) \<times> 'w probe) option" where
  "probe_request jc s method_name params p =
     (let rid = pb_next_id p + 1 in
      case probe_send jc s (request_json rid method_name params) (pb_world p) of
        (Inl e, w1) \<Rightarrow> Some (Inl e, \<lparr>pb_next_id = rid, pb_world = w1\<rparr>)
      | (Inr _, w1) \<Rightarrow>
          map_option (\<lambda>(r, w2). (r, \<lparr>pb_next_id = rid, pb_world = w2\<rparr>)) (await_reply jc s method_name rid w1))"

definition page_names :: "json \<Rightarrow> string \<Rightarrow> string \<Rightarrow> string list" where
  "page_names page items field = List.map_filter (\<lambda>item. jstr (jat item field)) (jitems (jat page items))"

definition cursor_params :: "string option \<Rightarrow> json" where
  "cursor_params cursor = (case cursor of Some c \<Rightarrow> JObj [(''cursor'', JStr c)] | None \<Rightarrow> JObj [])"

definition next_cursor :: "json \<Rightarrow> string option" where
  "next_cursor page = (case jstr (jat page ''nextCursor'') of Some nx \<Rightarrow> if nx \<noteq> [] then Some nx else None | None \<Rightarrow> None)"

partial_function (option) probe_pages ::
  "json_codec \<Rightarrow> 'w session \<Rightarrow> string \<Rightarrow> string \<Rightarrow> string \<Rightarrow> string option \<Rightarrow> string list \<Rightarrow> 'w probe
     \<Rightarrow> ((string + string list) \<times> 'w probe) option" where
  "probe_pages jc s method_name items field cursor names p =
     (case probe_request jc s method_name (cursor_params cursor) p of
        None \<Rightarrow> None
      | Some (Inl e, p1) \<Rightarrow> Some (Inl e, p1)
      | Some (Inr page, p1) \<Rightarrow>
          (case next_cursor page of
             Some c \<Rightarrow> probe_pages jc s method_name items field (Some c) (names @ page_names page items field) p1
           | None \<Rightarrow> Some (Inr (names @ page_names page items field), p1)))"

definition probe_list ::
  "json_codec \<Rightarrow> 'w session \<Rightarrow> string \<Rightarrow> string \<Rightarrow> string \<Rightarrow> 'w probe \<Rightarrow> ((string + string list) \<times> 'w probe) option" where
  "probe_list jc s method_name items field p = probe_pages jc s method_name items field None [] p"

text \<open>\<open>?\<close> after a call that may fail or not return.\<close>

definition probe_then ::
  "('p \<Rightarrow> ((string + 'a) \<times> 'p) option) \<Rightarrow> ('a \<Rightarrow> 'p \<Rightarrow> ((string + 'b) \<times> 'p) option) \<Rightarrow> 'p \<Rightarrow> ((string + 'b) \<times> 'p) option" where
  "probe_then m f p =
     (case m p of None \<Rightarrow> None | Some (Inl e, p1) \<Rightarrow> Some (Inl e, p1) | Some (Inr x, p1) \<Rightarrow> f x p1)"

definition probe_list_if ::
  "bool \<Rightarrow> json_codec \<Rightarrow> 'w session \<Rightarrow> string \<Rightarrow> string \<Rightarrow> string \<Rightarrow> 'w probe \<Rightarrow> ((string + string list) \<times> 'w probe) option" where
  "probe_list_if has jc s method_name items field p =
     (if has then probe_list jc s method_name items field p else Some (Inr [], p))"

definition initialize_params :: json where
  "initialize_params = JObj [(''protocolVersion'', JStr ''2025-06-18''), (''capabilities'', JObj []),
     (''clientInfo'', JObj [(''name'', JStr ''inventory''), (''version'', JStr ''1'')])]"

definition initialized_json :: json where
  "initialized_json = JObj [(''jsonrpc'', JStr ''2.0''), (''method'', JStr ''notifications/initialized'')]"

definition probe_run :: "json_codec \<Rightarrow> 'w session \<Rightarrow> 'w probe \<Rightarrow> ((string + inventory) \<times> 'w probe) option" where
  "probe_run jc s =
     probe_then (probe_request jc s ''initialize'' initialize_params) (\<lambda>initialized.
     probe_then (\<lambda>p. case probe_send jc s initialized_json (pb_world p) of (r, w) \<Rightarrow> Some (r, p\<lparr>pb_world := w\<rparr>)) (\<lambda>_.
       let has = (\<lambda>kind. jget (jat initialized ''capabilities'') kind \<noteq> None) in
       probe_then (probe_list_if (has ''tools'') jc s ''tools/list'' ''tools'' ''name'') (\<lambda>tools.
       probe_then (probe_list_if (has ''prompts'') jc s ''prompts/list'' ''prompts'' ''name'') (\<lambda>prompts.
       probe_then (probe_list_if (has ''resources'') jc s ''resources/list'' ''resources'' ''uri'') (\<lambda>resources.
       probe_then (probe_list_if (has ''resources'') jc s ''resources/templates/list'' ''resourceTemplates'' ''uriTemplate'')
         (\<lambda>templates p. Some (Inr \<lparr>iv_tools = tools, iv_prompts = prompts, iv_resources = resources,
            iv_templates = templates\<rparr>, p)))))))"

subsection \<open>Handlers\<close>

datatype mcp_code = InvalidParams | ResourceNotFound | OtherCode int

record mcp_error =
  me_code :: mcp_code
  me_message :: string

record server_capabilities =
  cap_tools :: "json option"
  cap_prompts :: "json option"
  cap_resources :: "json option"
  cap_completions :: "json option"
  cap_logging :: "json option"
  cap_rest :: "json option"

definition server_capabilities_default :: server_capabilities where
  "server_capabilities_default = \<lparr>cap_tools = None, cap_prompts = None, cap_resources = None, cap_completions = None,
     cap_logging = None, cap_rest = None\<rparr>"

record server_info =
  si_capabilities :: server_capabilities
  si_name :: string
  si_version :: string
  si_instructions :: "string option"

record named_request =
  nr_name :: string
  nr_rest :: json

record resource_request =
  rr_uri :: string
  rr_rest :: json

record mcp_list_result =
  ls_items :: "json list"
  ls_next :: "string option"

definition with_all_items :: "json list \<Rightarrow> mcp_list_result" where
  "with_all_items items = \<lparr>ls_items = items, ls_next = None\<rparr>"

record complete_result =
  cm_values :: "string list"
  cm_rest :: json

type_synonym ('w, 'a) mcp_call = "'w \<Rightarrow> (mcp_error + 'a) \<times> 'w"

text \<open>The request context is part of what a handler is called with; \<open>None\<close> is a list request without a cursor.\<close>

record ('w, 'c) mcp_handler =
  mh_info :: server_info
  mh_complete :: "json \<Rightarrow> 'c \<Rightarrow> ('w, complete_result) mcp_call"
  mh_get_prompt :: "named_request \<Rightarrow> 'c \<Rightarrow> ('w, json) mcp_call"
  mh_list_prompts :: "string option \<Rightarrow> 'c \<Rightarrow> ('w, mcp_list_result) mcp_call"
  mh_list_resources :: "string option \<Rightarrow> 'c \<Rightarrow> ('w, mcp_list_result) mcp_call"
  mh_list_templates :: "string option \<Rightarrow> 'c \<Rightarrow> ('w, mcp_list_result) mcp_call"
  mh_read_resource :: "resource_request \<Rightarrow> 'c \<Rightarrow> ('w, json) mcp_call"
  mh_call_tool :: "named_request \<Rightarrow> 'c \<Rightarrow> ('w, json) mcp_call"
  mh_list_tools :: "string option \<Rightarrow> 'c \<Rightarrow> ('w, mcp_list_result) mcp_call"

type_synonym ('w, 'c) handler_factory = "'w \<Rightarrow> (string + ('w, 'c) mcp_handler) \<times> 'w"

text \<open>\<open>inventory\<close>: \<open>connect\<close> is the session a served handler answers.\<close>

definition inventory_of ::
  "json_codec \<Rightarrow> (('w, 'c) mcp_handler \<Rightarrow> 'w session) \<Rightarrow> ('w, 'c) mcp_handler \<Rightarrow> 'w \<Rightarrow> ((string + inventory) \<times> 'w) option" where
  "inventory_of jc connect handler w =
     map_option (\<lambda>(r, p). (r, pb_world p)) (probe_run jc (connect handler) (probe_new w))"

subsection \<open>Collisions\<close>

definition clash_line :: "string \<Rightarrow> nat \<Rightarrow> nat \<Rightarrow> string" where
  "clash_line name first index =
     ''mcp: '' @ name @ '' is declared by both service #'' @ show_nat first @ '' and service #'' @ show_nat index @
     ''; every name on a combined server must be unique''"

fun claim_name :: "nat \<Rightarrow> string \<Rightarrow> (string \<rightharpoonup> nat) \<times> string list \<Rightarrow> (string \<rightharpoonup> nat) \<times> string list" where
  "claim_name index name (owner, clashes) =
     (case owner name of
        Some first \<Rightarrow> (owner, clashes @ [clash_line name first index])
      | None \<Rightarrow> (owner(name \<mapsto> index), clashes))"

definition claim_names :: "inventory list \<Rightarrow> (string \<rightharpoonup> nat) \<times> string list" where
  "claim_names invs = fold (\<lambda>(index, v). fold (claim_name index) (inventory_names v)) (enumerate 0 invs) (Map.empty, [])"

definition check_collisions :: "inventory list \<Rightarrow> combine_error + unit" where
  "check_collisions invs =
     (let clashes = snd (claim_names invs) in if clashes = [] then Inr () else Inl (Collisions clashes))"

subsection \<open>The combined server\<close>

record routing =
  rt_info :: server_info
  rt_tools :: "string \<rightharpoonup> nat"
  rt_prompts :: "string \<rightharpoonup> nat"
  rt_resources :: "string \<rightharpoonup> nat"

record ('w, 'c) combined_server =
  cs_factories :: "('w, 'c) handler_factory list"
  cs_routing :: routing

definition merge_capabilities :: "server_capabilities \<Rightarrow> server_capabilities \<Rightarrow> server_capabilities" where
  "merge_capabilities into other = (let pick = (\<lambda>f. if f into = None then f other else f into) in
     into\<lparr>cap_tools := pick cap_tools, cap_prompts := pick cap_prompts, cap_resources := pick cap_resources,
       cap_completions := pick cap_completions, cap_logging := pick cap_logging\<rparr>)"

fun inventory_all ::
  "json_codec \<Rightarrow> (('w, 'c) mcp_handler \<Rightarrow> 'w session) \<Rightarrow> nat \<Rightarrow> ('w, 'c) handler_factory list
     \<Rightarrow> inventory list \<times> server_capabilities \<Rightarrow> 'w \<Rightarrow> ((combine_error + inventory list \<times> server_capabilities) \<times> 'w) option" where
  "inventory_all jc connect index [] (found, caps) w = Some (Inr (found, caps), w)"
| "inventory_all jc connect index (factory # factories) (found, caps) w =
     (case factory w of
        (Inl err, w1) \<Rightarrow> Some (Inl (Inventory_error index err), w1)
      | (Inr handler, w1) \<Rightarrow>
          (case inventory_of jc connect handler w1 of
             None \<Rightarrow> None
           | Some (Inl message, w2) \<Rightarrow> Some (Inl (Inventory_error index message), w2)
           | Some (Inr v, w2) \<Rightarrow>
               inventory_all jc connect (index + 1) factories
                 (found @ [v], merge_capabilities caps (si_capabilities (mh_info handler))) w2))"

definition extend_routes :: "nat \<Rightarrow> string list \<Rightarrow> (string \<rightharpoonup> nat) \<Rightarrow> (string \<rightharpoonup> nat)" where
  "extend_routes index names m = fold (\<lambda>n m. m(n \<mapsto> index)) names m"

definition routes :: "(inventory \<Rightarrow> string list) \<Rightarrow> inventory list \<Rightarrow> (string \<rightharpoonup> nat)" where
  "routes kind invs = fold (\<lambda>(index, v). extend_routes index (kind v)) (enumerate 0 invs) Map.empty"

definition combined_info :: "string \<Rightarrow> string \<Rightarrow> string \<Rightarrow> server_capabilities \<Rightarrow> server_info" where
  "combined_info name version instructions caps =
     \<lparr>si_capabilities = caps, si_name = name, si_version = version,
       si_instructions = (if instructions \<noteq> [] then Some instructions else None)\<rparr>"

definition combined_new ::
  "json_codec \<Rightarrow> (('w, 'c) mcp_handler \<Rightarrow> 'w session) \<Rightarrow> string \<Rightarrow> string \<Rightarrow> string \<Rightarrow> ('w, 'c) handler_factory list
     \<Rightarrow> 'w \<Rightarrow> ((combine_error + ('w, 'c) combined_server) \<times> 'w) option" where
  "combined_new jc connect name version instructions factories w =
     (case inventory_all jc connect 0 factories ([], server_capabilities_default) w of
        None \<Rightarrow> None
      | Some (Inl e, w1) \<Rightarrow> Some (Inl e, w1)
      | Some (Inr (invs, caps), w1) \<Rightarrow>
          (case check_collisions invs of
             Inl e \<Rightarrow> Some (Inl e, w1)
           | Inr _ \<Rightarrow>
               Some (Inr \<lparr>cs_factories = factories,
                 cs_routing = \<lparr>rt_info = combined_info name version instructions caps, rt_tools = routes iv_tools invs,
                   rt_prompts = routes iv_prompts invs, rt_resources = routes iv_resources invs\<rparr>\<rparr>, w1)))"

definition from_handlers ::
  "json_codec \<Rightarrow> (('w, 'c) mcp_handler \<Rightarrow> 'w session) \<Rightarrow> string \<Rightarrow> string \<Rightarrow> string \<Rightarrow> ('w, 'c) mcp_handler list
     \<Rightarrow> 'w \<Rightarrow> ((combine_error + ('w, 'c) combined_server) \<times> 'w) option" where
  "from_handlers jc connect name version instructions handlers w =
     combined_new jc connect name version instructions (map (\<lambda>h w. (Inr h, w)) handlers) w"

subsection \<open>Sessions\<close>

record ('w, 'c) combined_handler =
  ch_members :: "('w, 'c) mcp_handler list"
  ch_routing :: routing

fun build_members :: "('w, 'c) handler_factory list \<Rightarrow> 'w \<Rightarrow> (string + ('w, 'c) mcp_handler list) \<times> 'w" where
  "build_members [] w = (Inr [], w)"
| "build_members (factory # factories) w =
     (case factory w of
        (Inl e, w1) \<Rightarrow> (Inl e, w1)
      | (Inr h, w1) \<Rightarrow>
          (case build_members factories w1 of (Inl e, w2) \<Rightarrow> (Inl e, w2) | (Inr hs, w2) \<Rightarrow> (Inr (h # hs), w2)))"

definition combined_session :: "('w, 'c) combined_server \<Rightarrow> 'w \<Rightarrow> (string + ('w, 'c) combined_handler) \<times> 'w" where
  "combined_session cs w =
     (case build_members (cs_factories cs) w of
        (Inl e, w1) \<Rightarrow> (Inl e, w1)
      | (Inr members, w1) \<Rightarrow> (Inr \<lparr>ch_members = members, ch_routing = cs_routing cs\<rparr>, w1))"

definition member_at :: "('w, 'c) combined_handler \<Rightarrow> nat option \<Rightarrow> string \<Rightarrow> string \<Rightarrow> mcp_error + ('w, 'c) mcp_handler" where
  "member_at h index kind name =
     (let unknown = Inl \<lparr>me_code = InvalidParams, me_message = ''unknown '' @ kind @ '': '' @ name\<rparr> in
      case index of
        None \<Rightarrow> unknown
      | Some i \<Rightarrow> if i < length (ch_members h) then Inr (ch_members h ! i) else unknown)"

definition combined_get_info :: "('w, 'c) combined_handler \<Rightarrow> server_info" where
  "combined_get_info h = rt_info (ch_routing h)"

fun complete_loop ::
  "('w, 'c) mcp_handler list \<Rightarrow> mcp_error option \<Rightarrow> json \<Rightarrow> 'c \<Rightarrow> ('w, complete_result) mcp_call" where
  "complete_loop [] first_error request context_of w =
     (case first_error of Some err \<Rightarrow> (Inl err, w) | None \<Rightarrow> (Inr \<lparr>cm_values = [], cm_rest = JNull\<rparr>, w))"
| "complete_loop (member # members) first_error request context_of w =
     (case mh_complete member request context_of w of
        (Inr res, w1) \<Rightarrow>
          if cm_values res \<noteq> [] then (Inr res, w1) else complete_loop members first_error request context_of w1
      | (Inl err, w1) \<Rightarrow>
          complete_loop members (if first_error = None then Some err else first_error) request context_of w1)"

definition combined_complete :: "('w, 'c) combined_handler \<Rightarrow> json \<Rightarrow> 'c \<Rightarrow> ('w, complete_result) mcp_call" where
  "combined_complete h request context_of w = complete_loop (ch_members h) None request context_of w"

definition combined_get_prompt :: "('w, 'c) combined_handler \<Rightarrow> named_request \<Rightarrow> 'c \<Rightarrow> ('w, json) mcp_call" where
  "combined_get_prompt h request context_of w =
     (case member_at h (rt_prompts (ch_routing h) (nr_name request)) ''prompt'' (nr_name request) of
        Inl e \<Rightarrow> (Inl e, w) | Inr member \<Rightarrow> mh_get_prompt member request context_of w)"

definition combined_call_tool :: "('w, 'c) combined_handler \<Rightarrow> named_request \<Rightarrow> 'c \<Rightarrow> ('w, json) mcp_call" where
  "combined_call_tool h request context_of w =
     (case member_at h (rt_tools (ch_routing h) (nr_name request)) ''tool'' (nr_name request) of
        Inl e \<Rightarrow> (Inl e, w) | Inr member \<Rightarrow> mh_call_tool member request context_of w)"

text \<open>The four listings: each advertising member is asked for its list without a cursor.\<close>

fun list_members ::
  "(server_capabilities \<Rightarrow> json option) \<Rightarrow> (('w, 'c) mcp_handler \<Rightarrow> string option \<Rightarrow> 'c \<Rightarrow> ('w, mcp_list_result) mcp_call)
     \<Rightarrow> ('w, 'c) mcp_handler list \<Rightarrow> json list \<Rightarrow> 'c \<Rightarrow> ('w, mcp_list_result) mcp_call" where
  "list_members cap listing [] all_items context_of w = (Inr (with_all_items all_items), w)"
| "list_members cap listing (member # members) all_items context_of w =
     (if cap (si_capabilities (mh_info member)) \<noteq> None then
        (case listing member None context_of w of
           (Inl e, w1) \<Rightarrow> (Inl e, w1)
         | (Inr page, w1) \<Rightarrow> list_members cap listing members (all_items @ ls_items page) context_of w1)
      else list_members cap listing members all_items context_of w)"

definition combined_list_prompts :: "('w, 'c) combined_handler \<Rightarrow> string option \<Rightarrow> 'c \<Rightarrow> ('w, mcp_list_result) mcp_call" where
  "combined_list_prompts h request context_of = list_members cap_prompts mh_list_prompts (ch_members h) [] context_of"

definition combined_list_resources :: "('w, 'c) combined_handler \<Rightarrow> string option \<Rightarrow> 'c \<Rightarrow> ('w, mcp_list_result) mcp_call" where
  "combined_list_resources h request context_of = list_members cap_resources mh_list_resources (ch_members h) [] context_of"

definition combined_list_templates :: "('w, 'c) combined_handler \<Rightarrow> string option \<Rightarrow> 'c \<Rightarrow> ('w, mcp_list_result) mcp_call" where
  "combined_list_templates h request context_of = list_members cap_resources mh_list_templates (ch_members h) [] context_of"

definition combined_list_tools :: "('w, 'c) combined_handler \<Rightarrow> string option \<Rightarrow> 'c \<Rightarrow> ('w, mcp_list_result) mcp_call" where
  "combined_list_tools h request context_of = list_members cap_tools mh_list_tools (ch_members h) [] context_of"

fun read_loop :: "('w, 'c) mcp_handler list \<Rightarrow> mcp_error \<Rightarrow> resource_request \<Rightarrow> 'c \<Rightarrow> ('w, json) mcp_call" where
  "read_loop [] last_error request context_of w = (Inl last_error, w)"
| "read_loop (member # members) last_error request context_of w =
     (case mh_read_resource member request context_of w of
        (Inr response, w1) \<Rightarrow> (Inr response, w1)
      | (Inl err, w1) \<Rightarrow> read_loop members err request context_of w1)"

text \<open>\<open>None\<close> is the panic of \<open>self.members[index]\<close> out of range.\<close>

definition combined_read_resource ::
  "('w, 'c) combined_handler \<Rightarrow> resource_request \<Rightarrow> 'c \<Rightarrow> 'w \<Rightarrow> ((mcp_error + json) \<times> 'w) option" where
  "combined_read_resource h request context_of w =
     (case rt_resources (ch_routing h) (rr_uri request) of
        Some i \<Rightarrow>
          if i < length (ch_members h) then Some (mh_read_resource (ch_members h ! i) request context_of w) else None
      | None \<Rightarrow> Some (read_loop (ch_members h)
          \<lparr>me_code = ResourceNotFound, me_message = ''unknown resource: '' @ rr_uri request\<rparr> request context_of w))"

subsection \<open>Quoted names are unambiguous\<close>

lemma hex_char_not_brace: "d < 16 \<Longrightarrow> hex_char d \<noteq> CHR ''}''"
proof
  assume d: "d < 16" and eq: "hex_char d = CHR ''}''"
  have "of_char (hex_char d) = (of_char (CHR ''}'') :: nat)" by (simp only: eq)
  with d show False by (auto simp: hex_char_def of_char_of split: if_splits)
qed

lemma show_hex_no_brace: "CHR ''}'' \<notin> set (show_hex n)"
proof (induction n rule: show_hex.induct)
  case (1 n)
  have "n < 16 \<Longrightarrow> CHR ''}'' \<noteq> hex_char n" "CHR ''}'' \<noteq> hex_char (n mod 16)"
    using hex_char_not_brace [of n] hex_char_not_brace [of "n mod 16"] by auto
  with 1 show ?case by (subst show_hex.simps) auto
qed

lemma of_char_nat_inject: "(of_char a :: nat) = n \<Longrightarrow> of_char b = n \<Longrightarrow> a = b"
  by (metis of_char_eq_iff)

lemma dbg_char_prefix_free:
  assumes "dbg_char a @ x = dbg_char b @ y"
  shows "a = b \<and> x = y"
proof -
  have hex: "show_hex (of_char a) @ CHR ''}'' # x = show_hex (of_char b) @ CHR ''}'' # y \<Longrightarrow> a = b \<and> x = y"
    using separated_eq [OF show_hex_no_brace show_hex_no_brace, of "of_char a" x "of_char b" y] by simp
  then show ?thesis
    using assms by (auto simp: dbg_char_def Let_def split: if_splits dest: of_char_nat_inject)
qed

lemma dbg_char_not_Nil [simp]: "dbg_char c \<noteq> []"
  by (simp add: dbg_char_def Let_def)

lemma dbg_str_inject [simp]: "dbg_str a = dbg_str b \<longleftrightarrow> a = b"
proof -
  have "concat (map dbg_char a) = concat (map dbg_char b) \<Longrightarrow> a = b"
  proof (induction a arbitrary: b)
    case (Cons c a)
    then obtain d b' where "b = d # b'" by (cases b) auto
    with Cons.prems dbg_char_prefix_free [of c "concat (map dbg_char a)" d "concat (map dbg_char b')"] Cons.IH [of b']
    show ?case by simp
  qed simp
  then show ?thesis by (auto simp: dbg_str_def)
qed

lemma inventory_names_sets:
  "(''tool '' @ dbg_str n \<in> set (inventory_names v)) = (n \<in> set (iv_tools v))"
  "(''prompt '' @ dbg_str n \<in> set (inventory_names v)) = (n \<in> set (iv_prompts v))"
  "(''resource '' @ dbg_str n \<in> set (inventory_names v)) = (n \<in> set (iv_resources v))"
  "(''resource template '' @ dbg_str n \<in> set (inventory_names v)) = (n \<in> set (iv_templates v))"
  by (auto simp: inventory_names_def dbg_str_def [of n, symmetric]) (auto simp: dbg_str_def)

text \<open>The names of several inventories are distinct when those of each kind are.\<close>

lemma distinct_names:
  "distinct (concat (map inventory_names invs)) \<longleftrightarrow>
     distinct (concat (map iv_tools invs)) \<and> distinct (concat (map iv_prompts invs)) \<and>
     distinct (concat (map iv_resources invs)) \<and> distinct (concat (map iv_templates invs))"
proof -
  let ?t = "\<lambda>n. ''tool '' @ dbg_str n" and ?p = "\<lambda>n. ''prompt '' @ dbg_str n"
    and ?r = "\<lambda>n. ''resource '' @ dbg_str n" and ?m = "\<lambda>n. ''resource template '' @ dbg_str n"
  let ?all = "map ?t (concat (map iv_tools invs)) @ map ?p (concat (map iv_prompts invs)) @
    map ?r (concat (map iv_resources invs)) @ map ?m (concat (map iv_templates invs))"
  have inj: "inj ?t" "inj ?p" "inj ?r" "inj ?m" by (simp_all add: inj_def)
  have apart: "?t a \<noteq> ?p b" "?t a \<noteq> ?r b" "?t a \<noteq> ?m b" "?p a \<noteq> ?r b" "?p a \<noteq> ?m b" "?r a \<noteq> ?m b" for a b
    by (simp_all add: dbg_str_def)
  have "mset (concat (map inventory_names invs)) = mset ?all"
    by (induction invs) (simp_all add: inventory_names_def)
  then have "distinct (concat (map inventory_names invs)) = distinct ?all"
    by (rule mset_eq_imp_distinct_iff)
  moreover have "set (map f xs) \<inter> set (map g ys) = {}" if "\<And>a b. f a \<noteq> g b" for f g :: "string \<Rightarrow> string" and xs ys
    using that by auto
  ultimately show ?thesis
    using apart by (simp only: distinct_append set_append Int_Un_distrib Un_empty distinct_map
        inj [THEN inj_on_subset [OF _ subset_UNIV]] simp_thms)
qed

subsection \<open>Collisions\<close>

lemma claim_name_inv:
  assumes "fold (claim_name i) ns (ow, cl) = (ow', cl')"
  shows "dom ow' = dom ow \<union> set ns \<and> length cl \<le> length cl' \<and>
    (length cl' = length cl \<longleftrightarrow> distinct ns \<and> dom ow \<inter> set ns = {})"
  using assms
proof (induction ns arbitrary: ow cl)
  case (Cons n ns)
  obtain ow1 cl1 where 1: "claim_name i n (ow, cl) = (ow1, cl1)" by (cases "claim_name i n (ow, cl)")
  with Cons.prems have "fold (claim_name i) ns (ow1, cl1) = (ow', cl')" by simp
  note step = Cons.IH [OF this]
  show ?case
  proof (cases "ow n")
    case None
    with 1 have "ow1 = ow(n \<mapsto> i)" "cl1 = cl" by auto
    with step None show ?thesis by (auto simp del: fun_upd_apply)
  next
    case (Some j)
    with 1 have "ow1 = ow" "length cl1 = Suc (length cl)" by auto
    with step Some show ?thesis by auto
  qed
qed simp

lemma claim_all_inv:
  assumes "fold (\<lambda>(index, v). fold (claim_name index) (inventory_names v)) (enumerate i invs) (ow, cl) = (ow', cl')"
  shows "length cl \<le> length cl' \<and>
    (length cl' = length cl \<longleftrightarrow> distinct (concat (map inventory_names invs)) \<and>
       dom ow \<inter> set (concat (map inventory_names invs)) = {})"
  using assms
proof (induction invs arbitrary: i ow cl)
  case (Cons v invs)
  obtain ow1 cl1 where 1: "fold (claim_name i) (inventory_names v) (ow, cl) = (ow1, cl1)"
    by (cases "fold (claim_name i) (inventory_names v) (ow, cl)")
  with Cons.prems
  have "fold (\<lambda>(index, v). fold (claim_name index) (inventory_names v)) (enumerate (Suc i) invs) (ow1, cl1) = (ow', cl')"
    by simp
  from Cons.IH [OF this] claim_name_inv [OF 1] show ?case by auto
qed simp

lemma check_collisions_Inr:
  "check_collisions invs = Inr () \<longleftrightarrow> distinct (concat (map inventory_names invs))"
proof -
  obtain ow cl where "claim_names invs = (ow, cl)" by (cases "claim_names invs")
  with claim_all_inv [of 0 invs Map.empty "[]" ow cl] show ?thesis
    by (simp add: check_collisions_def claim_names_def Let_def split: if_splits)
qed

text \<open>What a reported line says: two services, or one twice, declare the same thing.\<close>

definition clash_of :: "inventory list \<Rightarrow> string \<Rightarrow> bool" where
  "clash_of invs line \<longleftrightarrow> (\<exists>j<length invs. \<exists>i\<le>j. \<exists>n\<in>set (inventory_names (invs ! i)).
     n \<in> set (inventory_names (invs ! j)) \<and> line = clash_line n i j)"

definition owned :: "inventory list \<Rightarrow> nat \<Rightarrow> (string \<rightharpoonup> nat) \<times> string list \<Rightarrow> bool" where
  "owned invs k st \<longleftrightarrow> (\<forall>n j. fst st n = Some j \<longrightarrow> j \<le> k \<and> n \<in> set (inventory_names (invs ! j))) \<and>
     list_all (clash_of invs) (snd st)"

lemma owned_claim:
  assumes "owned invs i st" "i < length invs" "n \<in> set (inventory_names (invs ! i))"
  shows "owned invs i (claim_name i n st)"
proof (cases st)
  case (Pair ow cl)
  show ?thesis
  proof (cases "ow n")
    case None
    with assms Pair show ?thesis by (auto simp: owned_def)
  next
    case (Some j)
    then have "j \<le> i" "n \<in> set (inventory_names (invs ! j))" using assms(1) Pair by (auto simp: owned_def)
    then have "clash_of invs (clash_line n j i)" using assms(2,3) by (auto simp: clash_of_def)
    with assms(1) Pair Some show ?thesis by (auto simp: owned_def)
  qed
qed

lemma owned_claims:
  "owned invs i st \<Longrightarrow> i < length invs \<Longrightarrow> set ns \<subseteq> set (inventory_names (invs ! i)) \<Longrightarrow>
     owned invs i (fold (claim_name i) ns st)"
proof (induction ns arbitrary: st)
  case (Cons n ns)
  from Cons.IH [OF owned_claim [OF Cons.prems(1,2), of n]] Cons.prems(2,3) show ?case by simp
qed simp

lemma owned_all:
  assumes "owned invs i st" "drop i invs = vs" "i \<le> length invs"
  shows "list_all (clash_of invs) (snd (fold (\<lambda>(index, v). fold (claim_name index) (inventory_names v)) (enumerate i vs) st))"
  using assms
proof (induction vs arbitrary: i st)
  case Nil
  then show ?case by (simp add: owned_def)
next
  case (Cons v vs)
  have i: "i < length invs" using Cons.prems(2,3) by (metis drop_all leI list.distinct(1))
  have v: "invs ! i = v" "drop (Suc i) invs = vs" using Cons.prems(2) by (metis nth_via_drop, metis drop_Suc list.sel(3) tl_drop)
  have "owned invs i (fold (claim_name i) (inventory_names v) st)"
    using owned_claims [OF Cons.prems(1) i, of "inventory_names v"] v by simp
  then have "owned invs (Suc i) (fold (claim_name i) (inventory_names v) st)" by (fastforce simp: owned_def)
  from Cons.IH [OF this v(2)] i show ?case by simp
qed

subsection \<open>Routes\<close>

lemma extend_routes_apply [simp]: "extend_routes i ns m n = (if n \<in> set ns then Some i else m n)"
  by (induction ns arbitrary: m) (auto simp: extend_routes_def)

lemma routes_snoc [simp]: "routes kind (invs @ [v]) = extend_routes (length invs) (kind v) (routes kind invs)"
  by (simp add: routes_def enumerate_append_eq)

text \<open>The services that declare a name, in order.\<close>

definition declarers :: "(inventory \<Rightarrow> string list) \<Rightarrow> inventory list \<Rightarrow> string \<Rightarrow> nat list" where
  "declarers kind invs n = filter (\<lambda>i. n \<in> set (kind (invs ! i))) [0..<length invs]"

lemma declarers_snoc [simp]:
  "declarers kind (invs @ [v]) n = declarers kind invs n @ (if n \<in> set (kind v) then [length invs] else [])"
proof -
  have "filter (\<lambda>i. n \<in> set (kind ((invs @ [v]) ! i))) [0..<length invs] = declarers kind invs n"
    unfolding declarers_def by (rule filter_cong) (simp_all add: nth_append)
  then show ?thesis by (simp add: declarers_def)
qed

lemma declarers_Nil [simp]: "declarers kind [] n = []"
  by (simp add: declarers_def)

lemma declarers_empty: "declarers kind invs n = [] \<longleftrightarrow> n \<notin> set (concat (map kind invs))"
  by (induction invs rule: rev_induct) auto

lemma routes_declarers:
  assumes "distinct (concat (map kind invs))"
  shows "declarers kind invs n = (case routes kind invs n of Some i \<Rightarrow> [i] | None \<Rightarrow> [])"
  using assms
proof (induction invs rule: rev_induct)
  case Nil
  then show ?case by (simp add: routes_def)
next
  case (snoc v invs)
  show ?case
  proof (cases "n \<in> set (kind v)")
    case True
    then have "n \<notin> set (concat (map kind invs))" using snoc.prems by auto
    with True show ?thesis using declarers_empty [of kind invs n] by simp
  qed (use snoc in simp)
qed

lemma declarers_bound: "i \<in> set (declarers kind invs n) \<Longrightarrow> i < length invs"
  by (auto simp: declarers_def)

subsection \<open>Sessions\<close>

lemma build_members_length: "build_members fs w = (Inr hs, w') \<Longrightarrow> length hs = length fs"
  by (induction fs arbitrary: w hs) (fastforce split: prod.splits sum.splits)+

lemma inventory_all_length:
  "inventory_all jc connect i fs (found, caps) w = Some (Inr (invs, caps'), w') \<Longrightarrow> length invs = length found + length fs"
  by (induction fs arbitrary: i found caps w) (auto split: prod.splits sum.splits option.splits)

text \<open>A route leads to the one member that declared the name, or nowhere.\<close>

lemma member_at_declarers:
  assumes "distinct (concat (map kind invs))" "length (ch_members h) = length invs"
  shows "(declarers kind invs n = [] \<and> routes kind invs n = None \<and>
      member_at h (routes kind invs n) word n = Inl \<lparr>me_code = InvalidParams, me_message = ''unknown '' @ word @ '': '' @ n\<rparr>) \<or>
    (\<exists>i<length invs. declarers kind invs n = [i] \<and> routes kind invs n = Some i \<and>
      member_at h (routes kind invs n) word n = Inr (ch_members h ! i))"
proof (cases "routes kind invs n")
  case (Some i)
  with routes_declarers [OF assms(1), of n] have "declarers kind invs n = [i]" by simp
  moreover from this have "i < length invs" using declarers_bound [of i kind invs n] by simp
  ultimately show ?thesis using Some assms(2) by (simp add: member_at_def)
qed (use routes_declarers [OF assms(1), of n] in \<open>simp add: member_at_def\<close>)

subsection \<open>Probing a session that answers\<close>

text \<open>A line that the probe skips: it is no JSON text, or it answers no request of this number.\<close>

definition skipped :: "json_codec \<Rightarrow> nat \<Rightarrow> string \<Rightarrow> bool" where
  "skipped jc rid line \<longleftrightarrow> line \<noteq> [] \<and>
     (case jc_parse jc line of None \<Rightarrow> True | Some message \<Rightarrow> jat message ''id'' \<noteq> JInt (int rid))"

definition answers :: "json_codec \<Rightarrow> nat \<Rightarrow> json \<Rightarrow> string \<Rightarrow> bool" where
  "answers jc rid reply line \<longleftrightarrow> line \<noteq> [] \<and>
     (\<exists>message. jc_parse jc line = Some message \<and> jat message ''id'' = JInt (int rid) \<and>
        jget message ''error'' = None \<and> jat message ''result'' = reply)"

fun reads :: "'w session \<Rightarrow> 'w \<Rightarrow> string list \<Rightarrow> 'w \<Rightarrow> bool" where
  "reads s w [] w' \<longleftrightarrow> w' = w"
| "reads s w (line # ls) w' \<longleftrightarrow> (\<exists>w1. ps_read s w = (Inr line, w1) \<and> reads s w1 ls w')"

text \<open>
  A session that serves: it accepts every request and answers it, after finitely many other lines, with the
  result \<open>serve\<close> gives for its method and parameters; it accepts the notification.
\<close>

definition serves :: "json_codec \<Rightarrow> 'w session \<Rightarrow> ('w \<Rightarrow> bool) \<Rightarrow> (string \<Rightarrow> json \<Rightarrow> json) \<Rightarrow> bool" where
  "serves jc s ready serve \<longleftrightarrow>
     (\<forall>w rid m c. ready w \<longrightarrow> (\<exists>w1 noise line w2.
        ps_write s (jc_print jc (request_json rid m c) @ [CHR 0x0A]) w = (Inr (), w1) \<and>
        list_all (skipped jc rid) noise \<and> answers jc rid (serve m c) line \<and> reads s w1 (noise @ [line]) w2 \<and> ready w2)) \<and>
     (\<forall>w. ready w \<longrightarrow> (\<exists>w1. ps_write s (jc_print jc initialized_json @ [CHR 0x0A]) w = (Inr (), w1) \<and> ready w1))"

lemma await_reply_answers:
  assumes "list_all (skipped jc rid) noise" "answers jc rid reply line" "reads s w (noise @ [line]) w'"
  shows "await_reply jc s m rid w = Some (Inr reply, w')"
  using assms
proof (induction noise arbitrary: w)
  case Nil
  then show ?case by (subst await_reply.simps) (auto simp: answers_def)
next
  case (Cons l noise)
  then obtain w1 where w1: "ps_read s w = (Inr l, w1)" "reads s w1 (noise @ [line]) w'" by auto
  have "await_reply jc s m rid w = await_reply jc s m rid w1"
    using Cons.prems(1) w1(1) by (subst await_reply.simps) (auto simp: skipped_def split: option.splits)
  with Cons.IH [of w1] Cons.prems w1(2) show ?case by simp
qed

lemma probe_request_serves:
  assumes "serves jc s ready serve" "ready (pb_world p)"
  obtains p' where "probe_request jc s m c p = Some (Inr (serve m c), p')" "ready (pb_world p')"
proof -
  let ?rid = "pb_next_id p + 1"
  obtain w1 noise line w2 where w:
    "ps_write s (jc_print jc (request_json ?rid m c) @ [CHR 0x0A]) (pb_world p) = (Inr (), w1)"
    "list_all (skipped jc ?rid) noise" "answers jc ?rid (serve m c) line" "reads s w1 (noise @ [line]) w2" "ready w2"
    using assms unfolding serves_def by blast
  have "probe_request jc s m c p = Some (Inr (serve m c), \<lparr>pb_next_id = ?rid, pb_world = w2\<rparr>)"
    using w(1) await_reply_answers [OF w(2-4), of m] by (simp add: probe_request_def probe_send_def)
  with w(5) that show ?thesis by simp
qed

text \<open>What the pages of a list hold, if following their cursors ends within \<open>k\<close> pages.\<close>

fun served_names :: "(string \<Rightarrow> json \<Rightarrow> json) \<Rightarrow> string \<Rightarrow> string \<Rightarrow> string \<Rightarrow> nat \<Rightarrow> string option \<Rightarrow> string list option" where
  "served_names serve m items field 0 cursor = None"
| "served_names serve m items field (Suc k) cursor =
     (let page = serve m (cursor_params cursor) in
      case next_cursor page of
        None \<Rightarrow> Some (page_names page items field)
      | Some c \<Rightarrow> map_option (append (page_names page items field)) (served_names serve m items field k (Some c)))"

lemma probe_pages_serves:
  assumes "serves jc s ready serve" "ready (pb_world p)" "served_names serve m items field k cursor = Some ns"
  shows "\<exists>p'. probe_pages jc s m items field cursor names p = Some (Inr (names @ ns), p') \<and> ready (pb_world p')"
  using assms(2,3)
proof (induction k arbitrary: cursor names p ns)
  case (Suc k)
  let ?page = "serve m (cursor_params cursor)"
  obtain p1 where p1: "probe_request jc s m (cursor_params cursor) p = Some (Inr ?page, p1)" "ready (pb_world p1)"
    by (rule probe_request_serves [OF assms(1) Suc.prems(1)])
  show ?case
  proof (cases "next_cursor ?page")
    case None
    with p1 Suc.prems(2) show ?thesis by (subst probe_pages.simps) (simp add: Let_def)
  next
    case (Some c)
    with Suc.prems(2) obtain rest where rest: "served_names serve m items field k (Some c) = Some rest"
      "ns = page_names ?page items field @ rest" by (auto simp: Let_def)
    from Suc.IH [OF p1(2) rest(1), of "names @ page_names ?page items field"] p1(1) Some rest(2)
    show ?thesis by (subst probe_pages.simps) simp
  qed
qed simp

lemma probe_list_if_serves:
  assumes "serves jc s ready serve" "ready (pb_world p)" "has \<Longrightarrow> served_names serve m items field k None = Some ns"
  obtains p' where "probe_list_if has jc s m items field p = Some (Inr (if has then ns else []), p')" "ready (pb_world p')"
proof (cases has)
  case True
  with probe_pages_serves [OF assms(1,2) assms(3), of "[]"] that show ?thesis
    by (auto simp: probe_list_if_def probe_list_def)
qed (use assms(2) that in \<open>simp add: probe_list_if_def\<close>)

lemma probe_then_Inr: "m p = Some (Inr x, p1) \<Longrightarrow> probe_then m f p = f x p1"
  by (simp add: probe_then_def)

text \<open>The inventory of a session: every page of every list it advertises.\<close>

definition served_inventory :: "(string \<Rightarrow> json \<Rightarrow> json) \<Rightarrow> nat \<Rightarrow> inventory option" where
  "served_inventory serve k =
     (let has = (\<lambda>kind. jget (jat (serve ''initialize'' initialize_params) ''capabilities'') kind \<noteq> None);
          names = (\<lambda>kind m items field. if has kind then served_names serve m items field k None else Some []) in
      case (names ''tools'' ''tools/list'' ''tools'' ''name'', names ''prompts'' ''prompts/list'' ''prompts'' ''name'',
            names ''resources'' ''resources/list'' ''resources'' ''uri'',
            names ''resources'' ''resources/templates/list'' ''resourceTemplates'' ''uriTemplate'') of
        (Some t, Some p, Some r, Some m) \<Rightarrow> Some \<lparr>iv_tools = t, iv_prompts = p, iv_resources = r, iv_templates = m\<rparr>
      | _ \<Rightarrow> None)"

lemma inventory_serves:
  assumes "serves jc (connect handler) ready serve" "ready w" "served_inventory serve k = Some v"
  shows "\<exists>w'. inventory_of jc connect handler w = Some (Inr v, w') \<and> ready w'"
proof -
  let ?s = "connect handler"
  let ?has = "\<lambda>kind. jget (jat (serve ''initialize'' initialize_params) ''capabilities'') kind \<noteq> None"
  note sv = assms(1)
  have lists: "?has ''tools'' \<Longrightarrow> served_names serve ''tools/list'' ''tools'' ''name'' k None = Some (iv_tools v)"
    "?has ''prompts'' \<Longrightarrow> served_names serve ''prompts/list'' ''prompts'' ''name'' k None = Some (iv_prompts v)"
    "?has ''resources'' \<Longrightarrow> served_names serve ''resources/list'' ''resources'' ''uri'' k None = Some (iv_resources v)"
    "?has ''resources'' \<Longrightarrow> served_names serve ''resources/templates/list'' ''resourceTemplates'' ''uriTemplate'' k None = Some (iv_templates v)"
    and v: "v = \<lparr>iv_tools = (if ?has ''tools'' then iv_tools v else []), iv_prompts = (if ?has ''prompts'' then iv_prompts v else []),
      iv_resources = (if ?has ''resources'' then iv_resources v else []), iv_templates = (if ?has ''resources'' then iv_templates v else [])\<rparr>"
    using assms(3) by (auto simp: served_inventory_def Let_def split: option.splits if_splits)
  obtain p1 where p1: "probe_request jc ?s ''initialize'' initialize_params (probe_new w) =
      Some (Inr (serve ''initialize'' initialize_params), p1)" "ready (pb_world p1)"
    by (rule probe_request_serves [OF sv]) (use assms(2) in \<open>auto simp: probe_new_def\<close>)
  obtain w2 where w2: "ps_write ?s (jc_print jc initialized_json @ [CHR 0x0A]) (pb_world p1) = (Inr (), w2)" "ready w2"
    using sv p1(2) unfolding serves_def by blast
  let ?p2 = "p1\<lparr>pb_world := w2\<rparr>"
  have send: "(case probe_send jc ?s initialized_json (pb_world p1) of (r, w) \<Rightarrow> Some (r, p1\<lparr>pb_world := w\<rparr>)) = Some (Inr (), ?p2)"
    using w2(1) by (simp add: probe_send_def)
  obtain p3 where p3: "probe_list_if (?has ''tools'') jc ?s ''tools/list'' ''tools'' ''name'' ?p2 =
      Some (Inr (if ?has ''tools'' then iv_tools v else []), p3)" "ready (pb_world p3)"
    by (rule probe_list_if_serves [OF sv _ lists(1)]) (use w2(2) in auto)
  obtain p4 where p4: "probe_list_if (?has ''prompts'') jc ?s ''prompts/list'' ''prompts'' ''name'' p3 =
      Some (Inr (if ?has ''prompts'' then iv_prompts v else []), p4)" "ready (pb_world p4)"
    by (rule probe_list_if_serves [OF sv p3(2) lists(2)])
  obtain p5 where p5: "probe_list_if (?has ''resources'') jc ?s ''resources/list'' ''resources'' ''uri'' p4 =
      Some (Inr (if ?has ''resources'' then iv_resources v else []), p5)" "ready (pb_world p5)"
    by (rule probe_list_if_serves [OF sv p4(2) lists(3)])
  obtain p6 where p6: "probe_list_if (?has ''resources'') jc ?s ''resources/templates/list'' ''resourceTemplates'' ''uriTemplate'' p5 =
      Some (Inr (if ?has ''resources'' then iv_templates v else []), p6)" "ready (pb_world p6)"
    by (rule probe_list_if_serves [OF sv p5(2) lists(4)])
  have "probe_run jc ?s (probe_new w) = Some (Inr v, p6)"
    unfolding probe_run_def
    by (subst v) (simp only: probe_then_Inr [where m = "probe_request jc ?s ''initialize'' initialize_params", OF p1(1)]
        probe_then_Inr [where m = "\<lambda>p. case probe_send jc ?s initialized_json (pb_world p) of (r, w) \<Rightarrow> Some (r, p\<lparr>pb_world := w\<rparr>)", OF send]
        Let_def probe_then_Inr [where m = "probe_list_if _ _ _ _ _ _", OF p3(1)] probe_then_Inr [where m = "probe_list_if _ _ _ _ _ _", OF p4(1)]
        probe_then_Inr [where m = "probe_list_if _ _ _ _ _ _", OF p5(1)] probe_then_Inr [where m = "probe_list_if _ _ _ _ _ _", OF p6(1)])
  with p6(2) show ?thesis by (simp add: inventory_of_def)
qed

subsection \<open>A session over a queue of lines\<close>

text \<open>
  A small server: a handler's name is one letter; every request is answered by a line of other text and a line
  that repeats the request after the letter, which the parser reads as the reply. Two tools on two pages.
\<close>

fun mini_page :: "char \<Rightarrow> string \<Rightarrow> string option \<Rightarrow> json" where
  "mini_page tag m cur =
     (if m = ''initialize'' then JObj [(''capabilities'', JObj [(''tools'', JObj [])])]
      else if cur = None then
        JObj [(''tools'', JArr [JObj [(''name'', JStr [tag, CHR ''1''])]]), (''nextCursor'', JStr ''2'')]
      else JObj [(''tools'', JArr [JObj [(''name'', JStr [tag, CHR ''2''])]])])"

definition mini_serve :: "char \<Rightarrow> string \<Rightarrow> json \<Rightarrow> json" where
  "mini_serve tag m params = mini_page tag m (jstr (jat params ''cursor''))"

definition mini_print :: "json \<Rightarrow> string" where
  "mini_print j = (case (jat j ''id'', jstr (jat j ''method'')) of
     (JInt i, Some m) \<Rightarrow> show_nat (nat i) @ '':'' @ show_nat (length m) @ '':'' @ m @
       (case jstr (jat (jat j ''params'') ''cursor'') of None \<Rightarrow> '''' | Some c \<Rightarrow> CHR ''c'' # c)
   | _ \<Rightarrow> ''note'')"

fun mini_parse :: "string \<Rightarrow> json option" where
  "mini_parse [] = None"
| "mini_parse (tag # line) =
     (case split_once (CHR '':'') (butlast line) of
        None \<Rightarrow> None
      | Some (i, rest) \<Rightarrow>
          (case split_once (CHR '':'') rest of
             None \<Rightarrow> None
           | Some (n, text_of) \<Rightarrow>
               Some (JObj [(''id'', JInt (int (read_nat i))),
                 (''result'', mini_page tag (take (read_nat n) text_of)
                    (case drop (read_nat n) text_of of [] \<Rightarrow> None | _ # c \<Rightarrow> Some c))])))"

definition mini_json :: json_codec where
  "mini_json = \<lparr>jc_print = mini_print, jc_parse = mini_parse\<rparr>"

definition mini_refuse :: "'q \<Rightarrow> 'c \<Rightarrow> ('w, 'a) mcp_call" where
  "mini_refuse request context_of w = (Inl \<lparr>me_code = ResourceNotFound, me_message = ''none''\<rparr>, w)"

definition mini_handler :: "char \<Rightarrow> (string list, unit) mcp_handler" where
  "mini_handler tag =
     \<lparr>mh_info = \<lparr>si_capabilities = server_capabilities_default\<lparr>cap_tools := Some (JObj [])\<rparr>, si_name = [tag],
        si_version = ''1'', si_instructions = None\<rparr>,
      mh_complete = mini_refuse, mh_get_prompt = mini_refuse, mh_list_prompts = mini_refuse, mh_list_resources = mini_refuse,
      mh_list_templates = mini_refuse, mh_read_resource = mini_refuse,
      mh_call_tool = (\<lambda>r _ w. (Inr (JStr (tag # nr_name r)), w)),
      mh_list_tools = (\<lambda>cur _ w. let page = mini_page tag ''tools/list'' cur in
         (Inr \<lparr>ls_items = jitems (jat page ''tools''), ls_next = next_cursor page\<rparr>, w))\<rparr>"

definition mini_connect :: "(string list, unit) mcp_handler \<Rightarrow> string list session" where
  "mini_connect h = \<lparr>
     ps_write = (\<lambda>line w. (Inr (), w @ [''log'', hd (si_name (mh_info h)) # line])),
     ps_read = (\<lambda>w. case w of [] \<Rightarrow> (Inr [], []) | line # ls \<Rightarrow> (Inr line, ls))\<rparr>"

definition mini_ready :: "string list \<Rightarrow> bool" where
  "mini_ready w \<longleftrightarrow> list_all (\<lambda>line. line \<noteq> [] \<and> mini_parse line = None) w"

lemma mini_reads: "reads (mini_connect h) (ls @ w) ls w"
  by (induction ls) (auto simp: mini_connect_def)

lemma mini_parse_request:
  "mini_parse (tag # mini_print (request_json rid m params) @ [nl]) =
     Some (JObj [(''id'', JInt (int rid)), (''result'', mini_serve tag m params)])"
  by (auto simp: mini_print_def request_json_def jat_def mini_serve_def butlast_append split_once_append show_nat_no_colon
      simp del: mini_page.simps split: option.splits)

lemma mini_serves: "serves mini_json (mini_connect (mini_handler tag)) mini_ready (mini_serve tag)"
proof -
  have tag: "hd (si_name (mh_info (mini_handler tag))) = tag" by (simp add: mini_handler_def Let_def)
  have "\<exists>w1 noise line w2.
      ps_write (mini_connect (mini_handler tag)) (mini_print (request_json rid m c) @ [CHR 0x0A]) w = (Inr (), w1) \<and>
      list_all (skipped mini_json rid) noise \<and> answers mini_json rid (mini_serve tag m c) line \<and>
      reads (mini_connect (mini_handler tag)) w1 (noise @ [line]) w2 \<and> mini_ready w2" if "mini_ready w" for w rid m c
  proof (intro exI conjI)
    let ?line = "tag # mini_print (request_json rid m c) @ [CHR 0x0A]"
    show "ps_write (mini_connect (mini_handler tag)) (mini_print (request_json rid m c) @ [CHR 0x0A]) w = (Inr (), (w @ [''log'']) @ [?line])"
      by (simp add: mini_connect_def tag)
    have log: "mini_parse ''log'' = None" by code_simp
    then show "list_all (skipped mini_json rid) (w @ [''log''])"
      using that by (auto simp: mini_ready_def skipped_def list_all_iff mini_json_def)
    show "answers mini_json rid (mini_serve tag m c) ?line"
      using mini_parse_request [of tag rid m c "CHR 0x0A"] by (simp add: answers_def mini_json_def jat_def)
    show "reads (mini_connect (mini_handler tag)) ((w @ [''log'']) @ [?line]) ((w @ [''log'']) @ [?line]) []"
      using mini_reads [of "mini_handler tag" "(w @ [''log'']) @ [?line]" "[]"] by simp
  qed (simp add: mini_ready_def)
  moreover have "\<exists>w1. ps_write (mini_connect (mini_handler tag)) (mini_print initialized_json @ [CHR 0x0A]) w = (Inr (), w1) \<and> mini_ready w1"
    if "mini_ready w" for w
  proof -
    have "mini_print initialized_json = ''note''" by code_simp
    with that show ?thesis by (simp add: mini_connect_def tag mini_ready_def)
  qed
  ultimately show ?thesis by (simp add: serves_def mini_json_def)
qed

lemma mini_inventory:
  "served_inventory (mini_serve tag) 2 =
     Some \<lparr>iv_tools = [[tag, CHR ''1''], [tag, CHR ''2'']], iv_prompts = [], iv_resources = [], iv_templates = []\<rparr>"
  by (simp add: served_inventory_def mini_serve_def jat_def next_cursor_def cursor_params_def initialize_params_def
      page_names_def numeral_2_eq_2 Let_def map_filter_simps)

lemma mini_inventory_of:
  assumes "mini_ready w"
  shows "\<exists>w'. inventory_of mini_json mini_connect (mini_handler tag) w =
    Some (Inr \<lparr>iv_tools = [[tag, CHR ''1''], [tag, CHR ''2'']], iv_prompts = [], iv_resources = [], iv_templates = []\<rparr>, w') \<and>
    mini_ready w'"
  by (rule inventory_serves [where connect = mini_connect and ready = mini_ready, OF mini_serves assms mini_inventory])

definition mini_factories :: "(string list, unit) handler_factory list" where
  "mini_factories = [\<lambda>w. (Inr (mini_handler (CHR ''a'')), w), \<lambda>w. (Inr (mini_handler (CHR ''b'')), w)]"

definition mini_inventories :: "inventory list" where
  "mini_inventories = map (\<lambda>tag. \<lparr>iv_tools = [[tag, CHR ''1''], [tag, CHR ''2'']], iv_prompts = [], iv_resources = [],
     iv_templates = []\<rparr>) ''ab''"

lemma mini_inventory_all:
  "\<exists>w1. inventory_all mini_json mini_connect 0 mini_factories ([], server_capabilities_default) [] =
     Some (Inr (mini_inventories, server_capabilities_default\<lparr>cap_tools := Some (JObj [])\<rparr>), w1)"
proof -
  have "mini_ready []" by (simp add: mini_ready_def)
  from mini_inventory_of [OF this, of "CHR ''a''"] obtain w1 where
    a: "inventory_of mini_json mini_connect (mini_handler (CHR ''a'')) [] = Some (Inr (mini_inventories ! 0), w1)" "mini_ready w1"
    by (auto simp: mini_inventories_def)
  from mini_inventory_of [OF a(2), of "CHR ''b''"] obtain w2 where
    b: "inventory_of mini_json mini_connect (mini_handler (CHR ''b'')) w1 = Some (Inr (mini_inventories ! 1), w2)"
    by (auto simp: mini_inventories_def)
  show ?thesis
    using a b by (simp add: mini_factories_def) (simp add: mini_inventories_def mini_handler_def merge_capabilities_def
        server_capabilities_default_def Let_def)
qed

subsection \<open>Properties\<close>

text \<open>what a client would see is what is inventoried. Against a session that answers every request, after any
  finite number of other lines, and whose page cursors end, the probe returns, with the names on all the pages of
  every list the service advertises, in order.\<close>

theorem inventory_reads_all_pages:
  assumes "serves jc (connect handler) ready serve" "ready w" "served_inventory serve k = Some v"
  shows "\<exists>w'. inventory_of jc connect handler w = Some (Inr v, w') \<and> ready w'"
  by (rule inventory_serves [where connect = connect and ready = ready, OF assms])

theorem inventory_reads_all_pages_witness:
  "\<exists>w'. inventory_of mini_json mini_connect (mini_handler (CHR ''a'')) [] =
     Some (Inr \<lparr>iv_tools = [''a1'', ''a2''], iv_prompts = [], iv_resources = [], iv_templates = []\<rparr>, w') \<and> mini_ready w'"
  by (rule inventory_reads_all_pages [where connect = mini_connect and ready = mini_ready, OF mini_serves _ mini_inventory]) (simp add: mini_ready_def)

text \<open>C30: collisions. Services are combined exactly when no tool, prompt, resource or resource template is declared
  twice; otherwise there is a line for a clash, and every line names something that both services it names
  declare.\<close>

theorem collisions_exact:
  "\<exists>clashes. list_all (clash_of invs) clashes \<and>
     (clashes = [] \<longleftrightarrow> distinct (concat (map iv_tools invs)) \<and> distinct (concat (map iv_prompts invs)) \<and>
        distinct (concat (map iv_resources invs)) \<and> distinct (concat (map iv_templates invs))) \<and>
     check_collisions invs = (if clashes = [] then Inr () else Inl (Collisions clashes))"
proof (intro exI conjI)
  show "list_all (clash_of invs) (snd (claim_names invs))"
    unfolding claim_names_def by (rule owned_all) (auto simp: owned_def)
  show "check_collisions invs = (if snd (claim_names invs) = [] then Inr () else Inl (Collisions (snd (claim_names invs))))"
    by (simp add: check_collisions_def Let_def)
  then show "snd (claim_names invs) = [] \<longleftrightarrow> distinct (concat (map iv_tools invs)) \<and> distinct (concat (map iv_prompts invs)) \<and>
        distinct (concat (map iv_resources invs)) \<and> distinct (concat (map iv_templates invs))"
    using check_collisions_Inr [of invs] distinct_names [of invs] by (metis sum.distinct(1))
qed


lemma mini_combined:
  "\<exists>cs w1. combined_new mini_json mini_connect ''all'' ''1'' '''' mini_factories [] = Some (Inr cs, w1) \<and>
     inventory_all mini_json mini_connect 0 mini_factories ([], server_capabilities_default) [] =
       Some (Inr (mini_inventories, server_capabilities_default\<lparr>cap_tools := Some (JObj [])\<rparr>), w1) \<and> cs_factories cs = mini_factories"
proof -
  have "check_collisions mini_inventories = Inr ()" by code_simp
  then show ?thesis using mini_inventory_all by (auto simp: combined_new_def)
qed

lemma mini_session:
  "cs_factories cs = mini_factories \<Longrightarrow> combined_session cs w =
     (Inr \<lparr>ch_members = [mini_handler (CHR ''a''), mini_handler (CHR ''b'')], ch_routing = cs_routing cs\<rparr>, w)"
  by (simp add: combined_session_def mini_factories_def)


text \<open>a listing stops at the first page. Every tool of the sample services is inventoried and can be called, but the
  combined listing holds the first page of each service and carries no cursor to the rest.\<close>

theorem combined_list_first_page:
  "\<exists>cs w1 h. combined_new mini_json mini_connect ''all'' ''1'' '''' mini_factories [] = Some (Inr cs, w1) \<and>
     combined_session cs [] = (Inr h, []) \<and> rt_tools (ch_routing h) ''a2'' = Some 0 \<and>
     combined_list_tools h None () [] =
       (Inr \<lparr>ls_items = [JObj [(''name'', JStr ''a1'')], JObj [(''name'', JStr ''b1'')]], ls_next = None\<rparr>, [])"
proof -
  obtain cs w1 where cs: "combined_new mini_json mini_connect ''all'' ''1'' '''' mini_factories [] = Some (Inr cs, w1)"
    "inventory_all mini_json mini_connect 0 mini_factories ([], server_capabilities_default) [] =
       Some (Inr (mini_inventories, server_capabilities_default\<lparr>cap_tools := Some (JObj [])\<rparr>), w1)" "cs_factories cs = mini_factories"
    using mini_combined by blast
  let ?h = "\<lparr>ch_members = [mini_handler (CHR ''a''), mini_handler (CHR ''b'')], ch_routing = cs_routing cs\<rparr>"
  have "routes iv_tools mini_inventories ''a2'' = Some 0" by code_simp
  then have "rt_tools (ch_routing ?h) ''a2'' = Some 0" using cs(1,2) by (auto simp: combined_new_def split: sum.splits)
  moreover have "combined_list_tools ?h None () [] =
      (Inr \<lparr>ls_items = [JObj [(''name'', JStr ''a1'')], JObj [(''name'', JStr ''b1'')]], ls_next = None\<rparr>, [])"
    by (simp add: combined_list_tools_def mini_handler_def Let_def server_capabilities_default_def jat_def with_all_items_def)
  ultimately show ?thesis using cs(1) mini_session [OF cs(3)] by blast
qed

end
