(* ===== verification/Streaming.thy ===== *)
theory Streaming
  imports Grpc
begin

text \<open>
  Interceptors of streaming calls (\<open>src/grpc/src/stream_intercept.rs\<close>). The chain of a call runs on a task of its
  own: its end calls the service, hands the response to the caller and waits for the body to end, and the body
  holds its trailers back until the chain has decided.

  An interceptor is what it decides for a call: refuse it with an outcome, pass it on and turn the outcome the
  stream ended on into another, or unwind; it may also give up waiting for the rest of the chain at any moment.
  One call is a state with the task, the reply slot and channel, the caller's future, the cancellation token, the
  watched body, and the channels for the end of the stream and the verdict. The steps are those of the task, of
  the caller and of the transport that polls the body; the service and its body are arbitrary.
\<close>

subsection \<open>Calls, decisions and the chain\<close>

type_synonym stream_outcome = "grpc_status + unit"

record ('x, 'm) stream_call =
  sm_path :: string
  sm_metadata :: header_map
  sm_extensions :: 'x
  sm_descriptor :: "'m option"

datatype ('x, 'm) decision =
    Refuse stream_outcome
  | PassOn "('x, 'm) stream_call" "stream_outcome \<Rightarrow> stream_outcome option"
  | Unwind

type_synonym ('x, 'm) stream_interceptor = "('x, 'm) stream_call \<Rightarrow> ('x, 'm) decision"

text \<open>\<open>StreamNext::run\<close>; passing on at the end of the chain is the terminal.\<close>

fun stream_run :: "('x, 'm) stream_interceptor list \<Rightarrow> ('x, 'm) stream_call \<Rightarrow> ('x, 'm) decision" where
  "stream_run [] call = PassOn call Some"
| "stream_run (first # rest) call =
     (case first call of
        Refuse out \<Rightarrow> Refuse out
      | Unwind \<Rightarrow> Unwind
      | PassOn call1 after1 \<Rightarrow>
          (case stream_run rest call1 of
             Refuse out \<Rightarrow> (case after1 out of Some out1 \<Rightarrow> Refuse out1 | None \<Rightarrow> Unwind)
           | Unwind \<Rightarrow> Unwind
           | PassOn call2 after2 \<Rightarrow> PassOn call2 (\<lambda>out. Option.bind (after2 out) after1)))"

text \<open>The layer: no chain, or a method known to be unary, goes to the service directly (\<open>None\<close>).\<close>

definition stream_route :: "('m, 'd, 'v) reflection \<Rightarrow> ('x, 'm) stream_interceptor list \<Rightarrow> string \<Rightarrow> 'm option option" where
  "stream_route rf ch path =
     (if ch = [] then None
      else let descriptor = lookup_method rf path in
        case descriptor of
          Some m \<Rightarrow> if \<not> rf_client_streaming rf m \<and> \<not> rf_server_streaming rf m then None else Some descriptor
        | None \<Rightarrow> Some descriptor)"

definition stream_call_of :: "'x http_request \<Rightarrow> 'm option \<Rightarrow> ('x, 'm) stream_call" where
  "stream_call_of request descriptor =
     \<lparr>sm_path = hr_path request, sm_metadata = hr_headers request, sm_extensions = hr_extensions request,
      sm_descriptor = descriptor\<rparr>"

definition stream_request :: "'x http_request \<Rightarrow> ('x, 'm) stream_call \<Rightarrow> 'x http_request" where
  "stream_request parts call = parts\<lparr>hr_headers := sm_metadata call, hr_extensions := sm_extensions call\<rparr>"

definition cancelled :: grpc_status where
  "cancelled = status_new CodeCancelled ''the caller went away''"

definition rendered :: "status_wire \<Rightarrow> stream_outcome \<Rightarrow> http_response" where
  "rendered sw out = sw_into_http sw (case out of Inr _ \<Rightarrow> status_new CodeOk '''' | Inl status \<Rightarrow> status)"

definition stopped_early :: "status_wire \<Rightarrow> http_response" where
  "stopped_early sw = sw_into_http sw (status_internal ''a stream interceptor stopped before answering'')"

subsection \<open>The watched body\<close>

definition trailer_outcome :: "status_wire \<Rightarrow> header_map \<Rightarrow> stream_outcome" where
  "trailer_outcome sw trailers =
     (case sw_from_headers sw trailers of
        Some status \<Rightarrow> if gs_code status \<noteq> CodeOk then Inl status else Inr ()
      | None \<Rightarrow> Inr ())"

definition same_outcome :: "stream_outcome \<Rightarrow> stream_outcome option \<Rightarrow> bool" where
  "same_outcome service verdict =
     (case verdict of
        None \<Rightarrow> True
      | Some v \<Rightarrow>
          (case (service, v) of
             (Inr _, Inr _) \<Rightarrow> True
           | (Inl status, Inl chain) \<Rightarrow> gs_code status = gs_code chain
           | _ \<Rightarrow> False))"

definition settle_trailers :: "status_wire \<Rightarrow> header_map \<Rightarrow> stream_outcome \<Rightarrow> stream_outcome option \<Rightarrow> header_map" where
  "settle_trailers sw trailers service verdict =
     (if same_outcome service verdict then trailers
      else (hs_headers (rendered sw (case verdict of Some v \<Rightarrow> v | None \<Rightarrow> Inr ())))(''content-type'' := []))"

datatype verdict_channel = VWaiting | VSent stream_outcome | VClosed

record watched =
  wt_ended :: bool
  wt_held :: "(header_map \<times> stream_outcome) option"
  wt_finished :: bool

definition watched_new :: watched where
  "watched_new = \<lparr>wt_ended = True, wt_held = None, wt_finished = False\<rparr>"

text \<open>What the inner body answers a poll with, and what the watched one does.\<close>

datatype inner_poll = InnerPending | InnerData bytes | InnerTrailers header_map | InnerError grpc_status | InnerEnd

datatype body_poll = PollPending | PollData bytes | PollTrailers header_map | PollError grpc_status | PollEnd

definition watched_end :: "status_wire \<Rightarrow> header_map \<Rightarrow> watched \<Rightarrow> watched \<times> stream_outcome option" where
  "watched_end sw trailers wt =
     (let out = trailer_outcome sw trailers
      in (wt\<lparr>wt_ended := False, wt_held := Some (trailers, out)\<rparr>, if wt_ended wt then Some out else None))"

definition poll_held :: "status_wire \<Rightarrow> verdict_channel \<Rightarrow> watched \<Rightarrow> body_poll \<times> watched" where
  "poll_held sw channel wt =
     (case (wt_held wt, channel) of
        (Some (trailers, service), VSent v) \<Rightarrow>
          (let t = settle_trailers sw trailers service (Some v) in
           (if t = no_headers then PollEnd else PollTrailers t, wt\<lparr>wt_finished := True, wt_held := None\<rparr>))
      | (Some (trailers, service), VClosed) \<Rightarrow>
          (let t = settle_trailers sw trailers service None in
           (if t = no_headers then PollEnd else PollTrailers t, wt\<lparr>wt_finished := True, wt_held := None\<rparr>))
      | _ \<Rightarrow> (PollPending, wt))"

text \<open>One call of \<open>poll_frame\<close>: the answer, the body after it, and what it tells the chain.\<close>

definition poll_frame ::
  "status_wire \<Rightarrow> verdict_channel \<Rightarrow> inner_poll \<Rightarrow> watched \<Rightarrow> body_poll \<times> watched \<times> stream_outcome option" where
  "poll_frame sw channel inner wt =
     (let close = (\<lambda>trailers. case watched_end sw trailers wt of
            (wt1, told) \<Rightarrow> (case poll_held sw channel wt1 of (answer, wt2) \<Rightarrow> (answer, wt2, told))) in
      if wt_finished wt then (PollEnd, wt, None)
      else if wt_held wt \<noteq> None then (case poll_held sw channel wt of (answer, wt1) \<Rightarrow> (answer, wt1, None))
      else case inner of
        InnerPending \<Rightarrow> (PollPending, wt, None)
      | InnerData b \<Rightarrow> (PollData b, wt, None)
      | InnerTrailers trailers \<Rightarrow> close trailers
      | InnerError status \<Rightarrow>
          (PollError status, wt\<lparr>wt_ended := False, wt_finished := True\<rparr>, if wt_ended wt then Some (Inl status) else None)
      | InnerEnd \<Rightarrow> close no_headers)"

subsection \<open>One call\<close>

datatype stream_phase =
    Starting
  | Calling "stream_outcome \<Rightarrow> stream_outcome option"
  | Flowing "stream_outcome \<Rightarrow> stream_outcome option"
  | Decided stream_outcome
  | Dead

datatype stream_reply = Whole http_response | Streamed header_map

datatype reply_channel = RWaiting | RSent stream_reply | RClosed

datatype stream_future = FWaiting | FAnswered stream_reply | FGone

text \<open>
  \<open>sc_slot\<close>: the reply sender is still in its slot; \<open>sc_seen\<close>, \<open>sc_data\<close>: the trailers and the data the service's
  body gave; \<open>sc_final\<close>: the trailers the caller was left with, \<open>no_headers\<close> for a body that ended without.
\<close>

record 'x stream_state =
  sc_phase :: stream_phase
  sc_request :: "'x http_request option"
  sc_slot :: bool
  sc_channel :: reply_channel
  sc_future :: stream_future
  sc_token :: bool
  sc_body :: "watched option"
  sc_end :: "stream_outcome option"
  sc_verdict :: verdict_channel
  sc_seen :: "header_map option"
  sc_data :: "bytes list"
  sc_out :: "bytes list"
  sc_final :: "header_map option"

definition stream_start :: "'x stream_state" where
  "stream_start = \<lparr>sc_phase = Starting, sc_request = None, sc_slot = True, sc_channel = RWaiting, sc_future = FWaiting,
     sc_token = False, sc_body = None, sc_end = None, sc_verdict = VWaiting, sc_seen = None, sc_data = [], sc_out = [],
     sc_final = None\<rparr>"

text \<open>The end of \<open>drive\<close>: the chain returned an outcome, or unwound (\<open>None\<close>).\<close>

definition conclude :: "status_wire \<Rightarrow> stream_outcome option \<Rightarrow> 'x stream_state \<Rightarrow> 'x stream_state" where
  "conclude sw result s =
     (case result of
        None \<Rightarrow> s\<lparr>sc_phase := Dead, sc_slot := False, sc_verdict := VClosed,
                  sc_channel := (if sc_slot s then RClosed else sc_channel s)\<rparr>
      | Some out \<Rightarrow>
          if sc_slot s then
            s\<lparr>sc_phase := Decided out, sc_slot := False, sc_verdict := VClosed, sc_channel := RSent (Whole (rendered sw out))\<rparr>
          else s\<lparr>sc_phase := Decided out, sc_verdict := VSent out\<rparr>)"

definition begin_chain ::
  "status_wire \<Rightarrow> ('x, 'm) stream_interceptor list \<Rightarrow> 'x http_request \<Rightarrow> 'm option \<Rightarrow> 'x stream_state \<Rightarrow> 'x stream_state" where
  "begin_chain sw ch request descriptor s =
     (case stream_run ch (stream_call_of request descriptor) of
        Refuse out \<Rightarrow> conclude sw (Some out) s
      | Unwind \<Rightarrow> conclude sw None s
      | PassOn call after1 \<Rightarrow> s\<lparr>sc_phase := Calling after1, sc_request := Some (stream_request request call)\<rparr>)"

text \<open>\<open>forward\<close> once the service has answered with these headers.\<close>

definition service_answers ::
  "status_wire \<Rightarrow> (stream_outcome \<Rightarrow> stream_outcome option) \<Rightarrow> header_map \<Rightarrow> 'x stream_state \<Rightarrow> 'x stream_state" where
  "service_answers sw after1 headers s =
     (case failed_status sw headers of
        Some status \<Rightarrow> conclude sw (after1 (Inl status)) s
      | None \<Rightarrow>
          if sc_slot s \<and> sc_future s = FWaiting then
            s\<lparr>sc_phase := Flowing after1, sc_slot := False, sc_channel := RSent (Streamed headers), sc_body := Some watched_new\<rparr>
          else conclude sw (after1 (Inl cancelled)) (s\<lparr>sc_slot := False\<rparr>))"

text \<open>Dropping the body: whoever still holds the sender tells the chain that the caller went away.\<close>

definition drop_body :: "'x stream_state \<Rightarrow> 'x stream_state" where
  "drop_body s =
     (case sc_body s of
        None \<Rightarrow> s
      | Some wt \<Rightarrow> s\<lparr>sc_body := None, sc_end := (if wt_ended wt then Some (Inl cancelled) else sc_end s)\<rparr>)"

definition leave :: "'x stream_state \<Rightarrow> 'x stream_state" where
  "leave s = drop_body (s\<lparr>sc_future := FGone, sc_token := True\<rparr>)"

definition inner_trailers :: "inner_poll \<Rightarrow> header_map option" where
  "inner_trailers inner = (case inner of InnerTrailers t \<Rightarrow> Some t | InnerEnd \<Rightarrow> Some no_headers | _ \<Rightarrow> None)"

definition poll_body :: "status_wire \<Rightarrow> inner_poll \<Rightarrow> watched \<Rightarrow> 'x stream_state \<Rightarrow> 'x stream_state" where
  "poll_body sw inner wt s =
     (case poll_frame sw (sc_verdict s) inner wt of
        (answer, wt1, told) \<Rightarrow>
          (let reads = (\<not> wt_finished wt \<and> wt_held wt = None) in
           s\<lparr>sc_body := Some wt1,
             sc_end := (case told of Some out \<Rightarrow> Some out | None \<Rightarrow> sc_end s),
             sc_seen := (if reads \<and> inner_trailers inner \<noteq> None then inner_trailers inner else sc_seen s),
             sc_data := (case inner of InnerData b \<Rightarrow> if reads then sc_data s @ [b] else sc_data s | _ \<Rightarrow> sc_data s),
             sc_out := (case answer of PollData b \<Rightarrow> sc_out s @ [b] | _ \<Rightarrow> sc_out s),
             sc_final := (case answer of
                PollTrailers t \<Rightarrow> Some t
              | PollEnd \<Rightarrow> if wt_finished wt then sc_final s else Some no_headers
              | _ \<Rightarrow> sc_final s)\<rparr>))"

inductive stream_step ::
  "status_wire \<Rightarrow> ('x, 'm) stream_interceptor list \<Rightarrow> 'x http_request \<Rightarrow> 'm option \<Rightarrow> 'x stream_state \<Rightarrow> 'x stream_state \<Rightarrow> bool"
  for sw ch request descriptor where
  chain_begins: "sc_phase s = Starting \<Longrightarrow> stream_step sw ch request descriptor s (begin_chain sw ch request descriptor s)"
| service_replies: "sc_phase s = Calling after1 \<Longrightarrow> stream_step sw ch request descriptor s (service_answers sw after1 headers s)"
| call_cancelled: "sc_phase s = Calling after1 \<Longrightarrow> sc_token s \<Longrightarrow>
    stream_step sw ch request descriptor s (conclude sw (after1 (Inl cancelled)) s)"
| stream_ends: "sc_phase s = Flowing after1 \<Longrightarrow> sc_end s = Some out \<Longrightarrow>
    stream_step sw ch request descriptor s (conclude sw (after1 out) s)"
| given_up: "sc_phase s = Calling after1 \<or> sc_phase s = Flowing after1 \<Longrightarrow>
    stream_step sw ch request descriptor s (conclude sw result s)"
| reply_received: "sc_future s = FWaiting \<Longrightarrow> sc_channel s = RSent reply \<Longrightarrow>
    stream_step sw ch request descriptor s (s\<lparr>sc_future := FAnswered reply\<rparr>)"
| reply_lost: "sc_future s = FWaiting \<Longrightarrow> sc_channel s = RClosed \<Longrightarrow>
    stream_step sw ch request descriptor s (s\<lparr>sc_future := FAnswered (Whole (stopped_early sw))\<rparr>)"
| caller_leaves: "sc_future s = FWaiting \<Longrightarrow> stream_step sw ch request descriptor s (leave s)"
| body_polled: "sc_future s = FAnswered (Streamed headers) \<Longrightarrow> sc_body s = Some wt \<Longrightarrow>
    stream_step sw ch request descriptor s (poll_body sw inner wt s)"
| body_dropped: "sc_future s = FAnswered (Streamed headers) \<Longrightarrow> stream_step sw ch request descriptor s (drop_body s)"

abbreviation stream_reachable where
  "stream_reachable sw ch request descriptor \<equiv> (stream_step sw ch request descriptor)\<^sup>*\<^sup>* stream_start"

subsection \<open>Invariant\<close>

text \<open>What is so before the service answered, while the body flows, and once the chain is over.\<close>

definition stream_phase_inv :: "status_wire \<Rightarrow> 'x stream_state \<Rightarrow> bool" where
  "stream_phase_inv sw s =
     (case sc_phase s of
        Flowing after1 \<Rightarrow> \<not> sc_slot s \<and> sc_verdict s = VWaiting \<and> (\<exists>h. sc_channel s = RSent (Streamed h)) \<and>
          (case sc_body s of None \<Rightarrow> sc_end s \<noteq> None | Some wt \<Rightarrow> wt_ended wt \<or> sc_end s \<noteq> None)
      | Decided out \<Rightarrow> \<not> sc_slot s \<and> (sc_future s = FWaiting \<longrightarrow> sc_channel s \<noteq> RWaiting) \<and>
          (sc_verdict s = VSent out \<or> sc_verdict s = VClosed \<and> sc_body s = None)
      | Dead \<Rightarrow> \<not> sc_slot s \<and> (sc_future s = FWaiting \<longrightarrow> sc_channel s \<noteq> RWaiting) \<and> sc_verdict s = VClosed
      | _ \<Rightarrow> sc_slot s \<and> sc_channel s = RWaiting \<and> sc_body s = None \<and> sc_verdict s = VWaiting \<and>
          (sc_future s = FGone \<longrightarrow> sc_token s))"

text \<open>What the caller can have been answered with.\<close>

definition reply_inv :: "status_wire \<Rightarrow> 'x stream_state \<Rightarrow> bool" where
  "reply_inv sw s \<longleftrightarrow>
     (\<forall>r. sc_channel s = RSent (Whole r) \<longrightarrow> (\<exists>out. sc_phase s = Decided out \<and> r = rendered sw out)) \<and>
     (sc_channel s = RClosed \<longrightarrow> sc_phase s = Dead) \<and>
     (\<forall>r. sc_future s = FAnswered (Whole r) \<longrightarrow>
        (\<exists>out. sc_phase s = Decided out \<and> r = rendered sw out) \<or> sc_phase s = Dead \<and> r = stopped_early sw) \<and>
     (\<forall>h. sc_future s = FAnswered (Streamed h) \<longrightarrow> sc_channel s = RSent (Streamed h))"

text \<open>What the body holds and what it has left the caller with.\<close>

definition body_inv :: "status_wire \<Rightarrow> 'x stream_state \<Rightarrow> bool" where
  "body_inv sw s \<longleftrightarrow> sc_out s = sc_data s \<and>
     (\<forall>wt. sc_body s = Some wt \<longrightarrow>
        (\<forall>tr out. wt_held wt = Some (tr, out) \<longrightarrow> sc_seen s = Some tr \<and> out = trailer_outcome sw tr \<and> \<not> wt_finished wt) \<and>
        (wt_ended wt \<longrightarrow> wt_held wt = None \<and> \<not> wt_finished wt) \<and>
        (\<not> wt_finished wt \<longrightarrow> sc_final s = None)) \<and>
     (\<forall>t. sc_final s = Some t \<longrightarrow> (\<exists>tr. sc_seen s = Some tr \<and>
        ((\<exists>out. sc_phase s = Decided out \<and> t = settle_trailers sw tr (trailer_outcome sw tr) (Some out)) \<or>
         sc_phase s = Dead \<and> t = tr)))"

definition stream_inv :: "status_wire \<Rightarrow> 'x stream_state \<Rightarrow> bool" where
  "stream_inv sw s \<longleftrightarrow> stream_phase_inv sw s \<and> reply_inv sw s \<and> body_inv sw s"

definition over :: "'x stream_state \<Rightarrow> bool" where
  "over s = (case sc_phase s of Decided _ \<Rightarrow> True | Dead \<Rightarrow> True | _ \<Rightarrow> False)"

lemma settle_None [simp]: "settle_trailers sw tr service None = tr"
  by (simp add: settle_trailers_def same_outcome_def)

lemma stream_inv_start: "stream_inv sw stream_start"
  by (simp add: stream_inv_def stream_phase_inv_def reply_inv_def body_inv_def stream_start_def)

lemma not_over_open:
  assumes "stream_inv sw s" "\<not> over s"
  shows "sc_final s = None" "sc_verdict s = VWaiting" "sc_channel s \<noteq> RClosed" "sc_channel s \<noteq> RSent (Whole r)"
    "sc_future s \<noteq> FAnswered (Whole r)" "sc_slot s \<Longrightarrow> sc_body s = None \<and> sc_channel s = RWaiting"
  using assms by (auto simp: stream_inv_def stream_phase_inv_def reply_inv_def body_inv_def over_def split: stream_phase.splits)

lemma inv_conclude:
  assumes "stream_inv sw s" "\<not> over s" "sc_slot s \<or> sc_future s = FWaiting \<longrightarrow> sc_slot s \<or> sc_channel s \<noteq> RWaiting"
  shows "stream_inv sw (conclude sw result s)"
  using assms not_over_open [OF assms(1,2)]
  by (cases result) (auto simp: stream_inv_def stream_phase_inv_def reply_inv_def body_inv_def conclude_def over_def split: stream_phase.splits)

lemma inv_begin:
  assumes "stream_inv sw s" "sc_phase s = Starting"
  shows "stream_inv sw (begin_chain sw ch request descriptor s)"
proof (cases "stream_run ch (stream_call_of request descriptor)")
  case (PassOn call after1)
  then show ?thesis using assms by (auto simp: begin_chain_def stream_inv_def stream_phase_inv_def reply_inv_def body_inv_def)
qed (use assms inv_conclude [OF assms(1)] in \<open>auto simp: begin_chain_def over_def stream_inv_def stream_phase_inv_def\<close>)

lemma inv_answer:
  assumes "stream_inv sw s" "sc_phase s = Calling after1"
  shows "stream_inv sw (service_answers sw after1 headers s)"
proof -
  have s: "sc_slot s" "sc_channel s = RWaiting" "sc_body s = None" "sc_verdict s = VWaiting" "\<not> over s"
    using assms by (auto simp: stream_inv_def stream_phase_inv_def over_def)
  note open1 = not_over_open [OF assms(1) s(5)]
  show ?thesis
  proof (cases "failed_status sw headers")
    case (Some status)
    then show ?thesis using inv_conclude [OF assms(1) s(5)] s by (simp add: service_answers_def)
  next
    case None
    show ?thesis
    proof (cases "sc_future s = FWaiting")
      case True
      with None s assms open1 show ?thesis
        by (auto simp: service_answers_def stream_inv_def stream_phase_inv_def reply_inv_def body_inv_def watched_new_def)
    next
      case False
      then have gone: "sc_future s = FGone"
        using assms s open1 by (cases "sc_future s"; cases "\<exists>h. sc_future s = FAnswered (Streamed h)")
          (auto simp: stream_inv_def reply_inv_def split: stream_reply.splits, metis stream_reply.exhaust)
      with None s assms open1 show ?thesis
        by (cases "after1 (Inl cancelled)")
          (auto simp: service_answers_def conclude_def stream_inv_def stream_phase_inv_def reply_inv_def body_inv_def)
    qed
  qed
qed

lemma inv_drop: "stream_inv sw s \<Longrightarrow> stream_inv sw (drop_body s)"
  by (cases "sc_body s") (auto simp: drop_body_def stream_inv_def stream_phase_inv_def reply_inv_def body_inv_def split: stream_phase.splits)

lemma inv_leave:
  assumes "stream_inv sw s" "sc_future s = FWaiting"
  shows "stream_inv sw (leave s)"
  unfolding leave_def
  by (rule inv_drop) (use assms in \<open>auto simp: stream_inv_def stream_phase_inv_def reply_inv_def body_inv_def split: stream_phase.splits option.splits\<close>)

definition settled_by :: "verdict_channel \<Rightarrow> stream_outcome option \<Rightarrow> bool" where
  "settled_by vc v \<longleftrightarrow> vc = VClosed \<and> v = None \<or> (\<exists>out. vc = VSent out \<and> v = Some out)"

text \<open>Polling a body with held trailers: it waits, or it ends with the settled trailers.\<close>

lemma poll_held_cases:
  assumes "wt_held wt = Some (tr, service)"
  shows "vc = VWaiting \<and> poll_held sw vc wt = (PollPending, wt) \<or>
    (\<exists>v. settled_by vc v \<and> poll_held sw vc wt =
       (if settle_trailers sw tr service v = no_headers then PollEnd else PollTrailers (settle_trailers sw tr service v),
        wt\<lparr>wt_finished := True, wt_held := None\<rparr>))"
  using assms by (cases vc) (auto simp: poll_held_def settled_by_def Let_def)

text \<open>What a body that ends leaves behind, whether its trailers were held before or come with this poll.\<close>

lemma inv_settled:
  assumes "stream_inv sw s" "sc_body s = Some wt" "settled_by (sc_verdict s) v" "wt_finished wt1" "wt_held wt1 = None" "\<not> wt_ended wt1"
    and "sc_seen s1 = Some tr" "sc_final s1 = Some (settle_trailers sw tr (trailer_outcome sw tr) v)"
    and "sc_phase s1 = sc_phase s" "sc_verdict s1 = sc_verdict s" "sc_slot s1 = sc_slot s" "sc_channel s1 = sc_channel s"
      "sc_future s1 = sc_future s" "sc_token s1 = sc_token s" "sc_body s1 = Some wt1" "sc_out s1 = sc_data s1"
  shows "stream_inv sw s1"
proof -
  have v: "sc_verdict s \<noteq> VWaiting" using assms(3) by (auto simp: settled_by_def)
  consider (decided) out where "sc_phase s = Decided out" "sc_verdict s = VSent out" "v = Some out"
    | (dead) "sc_phase s = Dead" "sc_verdict s = VClosed" "v = None"
    using assms(1-3) v by (auto simp: stream_inv_def stream_phase_inv_def settled_by_def split: stream_phase.splits)
  then show ?thesis
    by cases (use assms in \<open>auto simp: stream_inv_def stream_phase_inv_def reply_inv_def body_inv_def\<close>)
qed

lemma inv_poll:
  assumes "stream_inv sw s" "sc_body s = Some wt"
  shows "stream_inv sw (poll_body sw inner wt s)"
proof (cases "wt_finished wt")
  case True
  then have "poll_frame sw (sc_verdict s) inner wt = (PollEnd, wt, None)" by (simp add: poll_frame_def)
  with True assms have "poll_body sw inner wt s = s" by (cases s) (auto simp: poll_body_def split: inner_poll.splits)
  with assms(1) show ?thesis by simp
next
  case live: False
  have final: "sc_final s = None" using assms live by (auto simp: stream_inv_def body_inv_def)
  show ?thesis
  proof (cases "wt_held wt")
    case (Some h)
    obtain tr where h: "h = (tr, trailer_outcome sw tr)" "sc_seen s = Some tr"
      using assms Some by (cases h) (auto simp: stream_inv_def body_inv_def)
    have closed: "\<not> wt_ended wt" using assms Some by (auto simp: stream_inv_def body_inv_def)
    have pf: "poll_frame sw (sc_verdict s) inner wt = (case poll_held sw (sc_verdict s) wt of (a, wt1) \<Rightarrow> (a, wt1, None))"
      using live Some by (simp add: poll_frame_def)
    from poll_held_cases [OF Some [unfolded h(1)], of "sc_verdict s" sw] show ?thesis
    proof (elim disjE exE conjE)
      assume "poll_held sw (sc_verdict s) wt = (PollPending, wt)"
      with pf live Some assms have "poll_body sw inner wt s = s" by (cases s) (auto simp: poll_body_def split: inner_poll.splits)
      with assms(1) show ?thesis by simp
    next
      fix v
      assume "settled_by (sc_verdict s) v" and p: "poll_held sw (sc_verdict s) wt =
        (if settle_trailers sw tr (trailer_outcome sw tr) v = no_headers then PollEnd else PollTrailers (settle_trailers sw tr (trailer_outcome sw tr) v),
          wt\<lparr>wt_finished := True, wt_held := None\<rparr>)"
      then show ?thesis
        using assms(1) h(2) live Some pf closed
        by (intro inv_settled [OF assms, of v "wt\<lparr>wt_finished := True, wt_held := None\<rparr>" _ tr])
          (auto simp: poll_body_def stream_inv_def body_inv_def split: inner_poll.splits)
    qed
  next
    case None
    let ?close = "\<lambda>tr. (case poll_held sw (sc_verdict s) (wt\<lparr>wt_ended := False, wt_held := Some (tr, trailer_outcome sw tr)\<rparr>) of
       (a, wt2) \<Rightarrow> (a, wt2, if wt_ended wt then Some (trailer_outcome sw tr) else None))"
    have closing: "stream_inv sw (poll_body sw inner wt s)" if tr: "inner_trailers inner = Some tr" for tr
    proof -
      have pf: "poll_frame sw (sc_verdict s) inner wt = ?close tr"
        using live None tr by (cases inner) (auto simp: poll_frame_def watched_end_def inner_trailers_def Let_def)
      have nd: "\<nexists>b. inner = InnerData b" using tr by (auto simp: inner_trailers_def)
      have "wt_held (wt\<lparr>wt_ended := False, wt_held := Some (tr, trailer_outcome sw tr)\<rparr>) = Some (tr, trailer_outcome sw tr)" by simp
      from poll_held_cases [OF this, of "sc_verdict s" sw] show ?thesis
      proof (elim disjE exE conjE)
        assume "sc_verdict s = VWaiting" "poll_held sw (sc_verdict s) (wt\<lparr>wt_ended := False, wt_held := Some (tr, trailer_outcome sw tr)\<rparr>) =
          (PollPending, wt\<lparr>wt_ended := False, wt_held := Some (tr, trailer_outcome sw tr)\<rparr>)"
        then show ?thesis
          using pf assms live None tr nd final
          by (auto simp: poll_body_def stream_inv_def stream_phase_inv_def reply_inv_def body_inv_def split: inner_poll.splits stream_phase.splits)
      next
        fix v
        assume "settled_by (sc_verdict s) v"
          "poll_held sw (sc_verdict s) (wt\<lparr>wt_ended := False, wt_held := Some (tr, trailer_outcome sw tr)\<rparr>) =
            (if settle_trailers sw tr (trailer_outcome sw tr) v = no_headers then PollEnd else PollTrailers (settle_trailers sw tr (trailer_outcome sw tr) v),
             wt\<lparr>wt_ended := False, wt_held := Some (tr, trailer_outcome sw tr)\<rparr>\<lparr>wt_finished := True, wt_held := None\<rparr>)"
        then show ?thesis
          using assms(1) live None pf tr nd
          by (intro inv_settled [OF assms, of v "wt\<lparr>wt_ended := False, wt_finished := True, wt_held := None\<rparr>" _ tr])
            (auto simp: poll_body_def stream_inv_def body_inv_def split: inner_poll.splits)
      qed
    qed
    show ?thesis
    proof (cases "inner_trailers inner")
      case (Some tr)
      then show ?thesis by (rule closing)
    next
      case nt: None
      then show ?thesis
        using assms live None final
        by (cases inner) (auto simp: poll_body_def poll_frame_def inner_trailers_def stream_inv_def stream_phase_inv_def reply_inv_def
            body_inv_def Let_def split: stream_phase.splits)
    qed
  qed
qed

lemma stream_inv_step: "stream_step sw ch request descriptor s s' \<Longrightarrow> stream_inv sw s \<Longrightarrow> stream_inv sw s'"
proof (induction rule: stream_step.induct)
  case (stream_ends s after1 out)
  then show ?case by (intro inv_conclude) (auto simp: stream_inv_def stream_phase_inv_def over_def)
next
  case (given_up s after1 result)
  then show ?case by (intro inv_conclude) (auto simp: stream_inv_def stream_phase_inv_def over_def)
next
  case (call_cancelled s after1)
  then show ?case by (intro inv_conclude) (auto simp: stream_inv_def stream_phase_inv_def over_def)
next
  case (reply_received s reply)
  then show ?case by (cases reply) (auto simp: stream_inv_def stream_phase_inv_def reply_inv_def body_inv_def split: stream_phase.splits option.splits)
next
  case (reply_lost s)
  then show ?case by (auto simp: stream_inv_def stream_phase_inv_def reply_inv_def body_inv_def split: stream_phase.splits)
qed (auto intro: inv_begin inv_answer inv_leave inv_poll inv_drop)

lemma stream_inv_reachable: "stream_reachable sw ch request descriptor s \<Longrightarrow> stream_inv sw s"
  by (induction rule: rtranclp_induct) (auto intro: stream_inv_start stream_inv_step)

subsection \<open>Properties\<close>

text \<open>The code a caller reads from trailers, where missing ones mean success, and the code of an outcome.\<close>

definition caller_code :: "status_wire \<Rightarrow> header_map \<Rightarrow> grpc_code" where
  "caller_code sw h = code_of (sw_from_headers sw h)"

definition outcome_code :: "stream_outcome \<Rightarrow> grpc_code" where
  "outcome_code out = (case out of Inl status \<Rightarrow> gs_code status | Inr _ \<Rightarrow> CodeOk)"

lemma trailer_outcome_code: "outcome_code (trailer_outcome sw tr) = caller_code sw tr"
  by (auto simp: outcome_code_def trailer_outcome_def caller_code_def code_of_def split: option.splits)

lemma settle_code:
  assumes "\<forall>status. caller_code sw ((hs_headers (sw_into_http sw status))(''content-type'' := [])) = gs_code status"
  shows "caller_code sw (settle_trailers sw tr (trailer_outcome sw tr) (Some out)) = outcome_code out"
proof (cases "same_outcome (trailer_outcome sw tr) (Some out)")
  case True
  then have "outcome_code (trailer_outcome sw tr) = outcome_code out"
    by (auto simp: same_outcome_def outcome_code_def split: sum.splits)
  with True show ?thesis by (simp add: settle_trailers_def trailer_outcome_code)
next
  case False
  then show ?thesis using assms by (auto simp: settle_trailers_def rendered_def outcome_code_def status_new_def split: sum.splits)
qed


fun code_number :: "grpc_code \<Rightarrow> nat" where
  "code_number CodeOk = 0" | "code_number CodeCancelled = 1" | "code_number CodeUnknown = 2"
| "code_number CodeInvalidArgument = 3" | "code_number CodeDeadlineExceeded = 4" | "code_number CodeNotFound = 5"
| "code_number CodeAlreadyExists = 6" | "code_number CodePermissionDenied = 7" | "code_number CodeResourceExhausted = 8"
| "code_number CodeFailedPrecondition = 9" | "code_number CodeAborted = 10" | "code_number CodeOutOfRange = 11"
| "code_number CodeUnimplemented = 12" | "code_number CodeInternal = 13" | "code_number CodeUnavailable = 14"
| "code_number CodeDataLoss = 15" | "code_number CodeUnauthenticated = 16"

definition all_codes :: "grpc_code list" where
  "all_codes = [CodeOk, CodeCancelled, CodeUnknown, CodeInvalidArgument, CodeDeadlineExceeded, CodeNotFound, CodeAlreadyExists,
     CodePermissionDenied, CodeResourceExhausted, CodeFailedPrecondition, CodeAborted, CodeOutOfRange, CodeUnimplemented,
     CodeInternal, CodeUnavailable, CodeDataLoss, CodeUnauthenticated]"

definition number_wire :: status_wire where
  "number_wire = \<lparr>
     sw_into_http = (\<lambda>s. \<lparr>hs_headers = hm_insert ''grpc-status'' (show_nat (code_number (gs_code s)))
        (hm_insert ''content-type'' ''application/grpc'' no_headers), hs_body = Inl s\<rparr>),
     sw_from_headers = (\<lambda>h. case hm_get h ''grpc-status'' of None \<Rightarrow> None
        | Some v \<Rightarrow> map_option (\<lambda>c. status_new c '''') (find (\<lambda>c. show_nat (code_number c) = v) all_codes))\<rparr>"

lemma show_nat_eq [simp]: "show_nat a = show_nat b \<longleftrightarrow> a = b"
  by (rule show_nat_inject)

lemma number_wire_law:
  "\<forall>status. caller_code number_wire ((hs_headers (sw_into_http number_wire status))(''content-type'' := [])) = gs_code status"
proof
  fix status :: grpc_status
  have "find (\<lambda>c. show_nat (code_number c) = show_nat (code_number (gs_code status))) all_codes = Some (gs_code status)"
    unfolding show_nat_eq by (cases "gs_code status") (simp_all add: all_codes_def)
  then show "caller_code number_wire ((hs_headers (sw_into_http number_wire status))(''content-type'' := [])) = gs_code status"
    by (simp add: caller_code_def code_of_def number_wire_def hm_get_def hm_insert_def status_new_def)
qed

text \<open>One call: the interceptor passes it on and turns its end into a refusal; the service sends a message and ends well.\<close>

definition abort_chain :: "(unit, unit) stream_interceptor list" where
  "abort_chain = [\<lambda>call. PassOn call (\<lambda>_. Some (Inl (status_new CodeAborted ''no'')))]"

definition sample_stream :: "unit http_request" where
  "sample_stream = \<lparr>hr_path = ''/s/M'', hr_headers = no_headers, hr_extensions = (), hr_body = Inr []\<rparr>"

definition aborted_call :: "unit stream_state" where
  "aborted_call =
     (let s1 = begin_chain number_wire abort_chain sample_stream None stream_start;
          s2 = service_answers number_wire (\<lambda>_. Some (Inl (status_new CodeAborted ''no''))) no_headers s1;
          s3 = s2\<lparr>sc_future := FAnswered (Streamed no_headers)\<rparr>;
          s4 = poll_body number_wire (InnerData [1]) watched_new s3;
          s5 = poll_body number_wire InnerEnd watched_new s4;
          s6 = conclude number_wire (Some (Inl (status_new CodeAborted ''no''))) s5
      in poll_body number_wire InnerEnd \<lparr>wt_ended = False, wt_held = Some (no_headers, Inr ()), wt_finished = False\<rparr> s6)"

lemma aborted_reachable: "stream_reachable number_wire abort_chain sample_stream None aborted_call"
proof -
  let ?f = "\<lambda>_ :: stream_outcome. Some (Inl (status_new CodeAborted ''no'') :: stream_outcome)"
  let ?step = "stream_step number_wire abort_chain sample_stream (None :: unit option)"
  let ?h = "\<lparr>wt_ended = False, wt_held = Some (no_headers, Inr ()), wt_finished = False\<rparr>"
  define s1 where "s1 = begin_chain number_wire abort_chain sample_stream (None :: unit option) stream_start"
  define s2 where "s2 = service_answers number_wire ?f no_headers s1"
  define s3 where "s3 = s2\<lparr>sc_future := FAnswered (Streamed no_headers)\<rparr>"
  define s4 where "s4 = poll_body number_wire (InnerData [1]) watched_new s3"
  define s5 where "s5 = poll_body number_wire InnerEnd watched_new s4"
  define s6 where "s6 = conclude number_wire (?f (Inr ())) s5"
  have none: "sw_from_headers number_wire no_headers = None" by (simp add: number_wire_def hm_get_def no_headers_def)
  have 1: "s1 = stream_start\<lparr>sc_phase := Calling ?f, sc_request := Some sample_stream\<rparr>"
    by (simp add: s1_def begin_chain_def abort_chain_def stream_call_of_def stream_request_def sample_stream_def)
  have 2: "s2 = s1\<lparr>sc_phase := Flowing ?f, sc_slot := False, sc_channel := RSent (Streamed no_headers), sc_body := Some watched_new\<rparr>"
    by (simp add: s2_def service_answers_def failed_status_def none 1 stream_start_def)
  have 4: "s4 = s3\<lparr>sc_data := [[1]], sc_out := [[1]]\<rparr>"
    by (simp add: s4_def poll_body_def poll_frame_def watched_new_def s3_def 2 1 stream_start_def inner_trailers_def)
  have 5: "s5 = s4\<lparr>sc_body := Some ?h, sc_end := Some (Inr ()), sc_seen := Some no_headers\<rparr>"
    by (simp add: s5_def poll_body_def poll_frame_def watched_new_def watched_end_def poll_held_def trailer_outcome_def none 4 s3_def 2 1
        stream_start_def inner_trailers_def Let_def)
  have a: "?step stream_start s1" unfolding s1_def by (rule chain_begins) (simp add: stream_start_def)
  have b: "?step s1 s2" unfolding s2_def by (rule service_replies) (simp add: 1)
  have c: "?step s2 s3" unfolding s3_def by (rule reply_received) (simp_all add: 2 1 stream_start_def)
  have d: "?step s3 s4" unfolding s4_def by (rule body_polled) (simp_all add: s3_def 2)
  have e: "?step s4 s5" unfolding s5_def by (rule body_polled) (simp_all add: 4 s3_def 2)
  have f: "?step s5 s6" unfolding s6_def by (rule stream_ends [where out = "Inr ()"]) (simp_all add: 5 4 s3_def 2)
  have g: "?step s6 aborted_call"
    unfolding aborted_call_def Let_def s1_def [symmetric] s2_def [symmetric] s3_def [symmetric] s4_def [symmetric] s5_def [symmetric]
      s6_def [symmetric]
    by (rule body_polled) (simp_all add: s6_def conclude_def 5 4 s3_def 2 1 stream_start_def)
  note go = rtranclp.rtrancl_into_rtrancl
  show ?thesis by (rule go [OF go [OF go [OF go [OF go [OF go [OF r_into_rtranclp [of ?step, OF a] b] c] d] e] f] g])
qed

lemma aborted_final: "\<exists>t. sc_final aborted_call = Some t" "sc_out aborted_call = [[1]]"
  "sc_phase aborted_call = Decided (Inl (status_new CodeAborted ''no''))"
  by (simp_all add: aborted_call_def begin_chain_def abort_chain_def stream_call_of_def stream_request_def service_answers_def
      failed_status_def poll_body_def poll_frame_def watched_new_def watched_end_def poll_held_def trailer_outcome_def conclude_def
      stream_start_def inner_trailers_def number_wire_def hm_get_def no_headers_def Let_def)


text \<open>C21: nobody waits for ever. A chain that waits for the service of a caller that left has its token cancelled; a chain
  that waits for a body that was dropped, that failed or whose trailers are held has been told how it ended; and
  once the chain is over, a waiting caller has an answer in its channel and a body that holds trailers its verdict.\<close>

theorem stream_no_stall:
  assumes "stream_reachable sw ch request descriptor s"
  shows "(sc_phase s = Calling after1 \<and> sc_future s = FGone \<longrightarrow> sc_token s) \<and>
    (sc_phase s = Flowing after1 \<and> (\<forall>wt. sc_body s = Some wt \<longrightarrow> wt_held wt \<noteq> None \<or> wt_finished wt) \<longrightarrow> sc_end s \<noteq> None) \<and>
    (over s \<longrightarrow> (sc_future s = FWaiting \<longrightarrow> sc_channel s \<noteq> RWaiting) \<and> sc_verdict s \<noteq> VWaiting)"
  using stream_inv_reachable [OF assms]
  by (auto simp: stream_inv_def stream_phase_inv_def body_inv_def over_def split: stream_phase.splits option.splits)

theorem stream_no_stall_witness: "sc_verdict aborted_call \<noteq> VWaiting"
  using stream_no_stall [OF aborted_reachable] aborted_final(3) by (simp add: over_def)

end
