(* ===== verification/Spec2Isabelle.thy ===== *)
theory Spec2Isabelle
  imports Database Drop Typed Memcached Redis Problem Idempotency Cors Ingest Aggregates Buffered Combine Streaming
begin

text \<open>
  Verification of \<open>runtime-rs\<close>: the cache crate (\<open>src/cache/src\<close>), the call-handling layers of the gRPC crate
  (\<open>src/grpc/src\<close>), the time-series store of the database crate (\<open>src/database/src\<close>) and the combined MCP server
  of the agents crate (\<open>src/agents/src/mcp/combine.rs\<close>).

  \<^bold>\<open>The cache.\<close> A cache \<open>Provider\<close> (Redis, Dragonfly, Memcached) hands out databases. A database bundles
  four strategies over one backend: \<open>Document\<close> (enumerable entries), \<open>Indexed\<close> (documents with secondary
  indexes), \<open>Volatile\<close> (plain keys) and \<open>Aside\<close> (read-through loading with negative caching, stale
  windows and leased locks). A backend is a set of trait objects: \<open>Driver\<close> always, \<open>Bulk\<close>, \<open>Leases\<close>,
  \<open>Fenced\<close>, \<open>Sets\<close>, \<open>SetScanner\<close> and \<open>Scanner\<close> where it can. Loads are coalesced by a flight
  coordinator, stale entries are refreshed in the background under a budget, and closing drains the
  background work before it releases the connection. Middleware (retry) and a typed facade wrap a
  document.

  \<^bold>\<open>The gRPC layers.\<close> A unary call arrives as a framed HTTP body; interceptors see the decoded message and
  the reply, each able to answer in place of the next. One of them makes retried calls idempotent by a
  claim in a shared store, another turns an error into a problem document carried in the status details,
  and a cross-origin layer decides which browser origins a listener answers.

  \<^bold>\<open>The database.\<close> A store describes resources by typed columns, one of them the time. An ingest worker
  batches records of many callers and appends them under limits. The Arrow driver keeps each table as
  append-only segment files with a sidecar of time bounds, and answers pages by searching the segments
  through an index of blocks; a page carries an opaque token from which the next one resumes.

  \<^bold>\<open>The combined server.\<close> Several MCP services behind one: each is inventoried over an in-memory session,
  clashing names are refused, and requests are routed to the service that declared the name.

  \<^bold>\<open>How it is modelled.\<close> An asynchronous call is a function from a world to a result and a new world
  (\<open>io\<close> in Prelude); the world is a type parameter of every strategy, so a strategy is proved correct over
  every backend that keeps the laws. The result has three cases: success, a \<open>CacheError\<close> and \<open>Panic\<close>, an
  unwinding task. A trait object is a record of operations; its documented laws are a locale. Durations
  are nanoseconds, byte strings are lists of 8-bit words, identifiers and keys are strings, sets that the
  backend stores are read through an observation of the world. Concurrent parts are step relations whose
  steps are the critical sections of the code; their properties are invariants of the reachable states.

  Cache theories:
  \<^item> Prelude: results, calls, glob-free list routines (first-seen deduplication, chunks), decimal text,
    the locale \<open>observation\<close> for what a call leaves alone.
  \<^item> Keyspace: \<open>core/keyspace.rs\<close>, \<open>core/scanner.rs\<close>: key builders, name checks, glob escaping,
    identifiers. Distinct things have distinct keys; databases with different names or numbers are
    disjoint; patterns stay under their literal prefix.
  \<^item> Options, Backend: \<open>core/options*.rs\<close> and the trait files of \<open>core\<close>; the locales \<open>kv_store\<close>,
    \<open>set_store\<close>, \<open>backend\<close> and their extensions by bulk reads and cursors (\<open>bulk_backend\<close>,
    \<open>listing_backend\<close>, \<open>steady_backend\<close>).
  \<^item> Memory: \<open>core/memory_driver.rs\<close> and the in-memory sets, which interpret the locales.
  \<^item> Batch: \<open>strategies/batch.rs\<close>, listing and liveness over any combination of capabilities.
  \<^item> Volatile, Document, Indexed, Aside: the files of the same names under \<open>strategies\<close>.
  \<^item> Drop: \<open>core/drop.rs\<close>, with the locale \<open>exact_delete\<close>.
  \<^item> Flight, Lifecycle: \<open>strategies/flight.rs\<close>, \<open>strategies/refresher.rs\<close> and the close protocol of
    \<open>core/database.rs\<close> as step relations.
  \<^item> Database: \<open>core/database.rs\<close>, \<open>core/capabilities.rs\<close>, the shared \<open>Config\<close> of \<open>lib.rs\<close>.
  \<^item> Retry, Typed: \<open>retry.rs\<close>, \<open>middleware.rs\<close>, \<open>typed.rs\<close>.
  \<^item> Memcached, Redis: \<open>drivers/memcached.rs\<close>, \<open>drivers/redis.rs\<close>, \<open>drivers/dragonfly.rs\<close>. The protocol clients
    (other crates) are parameters; the locales \<open>memcached_transport\<close>, \<open>memcached_servers\<close> and
    \<open>resp_strings\<close> state the documented meaning of the commands the code sends, and the drivers are shown
    to keep the laws of \<open>kv_store\<close> and \<open>fenced_store\<close> over them. Each is interpreted on a small server
    that executes the commands.

  gRPC theories:
  \<^item> Grpc: \<open>intercept.rs\<close>, \<open>status.rs\<close>, \<open>codes.rs\<close>: frames, the interceptor chain. A frame reads back as
    the message it was made of, and interceptors that pass everything on change nothing of a call.
  \<^item> Idempotency: \<open>idempotency/mod.rs\<close>, \<open>idempotency/memory.rs\<close>: one run of the handler for each key while its
    claim lives, a retry gets the recorded reply, different callers and methods have different keys;
    and the race that a reclaimed lease leaves open. The digest is a parameter.
  \<^item> Problem: \<open>problem/mod.rs\<close>, \<open>problem/interceptor.rs\<close>: what a handler reports reaches the client, the
    internal carrier does not, and messages are plain sentences. Casing and white space are the ASCII ones.
  \<^item> Streaming: \<open>stream_intercept.rs\<close>: the chain of a streaming call, its task and the watched body as a step
    relation. The caller ends on the code the chain decided, and nobody is left waiting. An interceptor is what it
    decides; that a status read back from its rendered headers has its code is a hypothesis.
  \<^item> Cors: \<open>cors.rs\<close>: which configurations are accepted and which origins a layer answers. The URL parser is
    a parameter.

  Database theories:
  \<^item> Store: \<open>store/*.rs\<close> and \<open>arrow/filter.rs\<close>: resources, records, comparisons, queries, the bounded sort
    that keeps the first rows of an order. Floating-point values are a parameter with its comparison.
  \<^item> Filtering: \<open>store/filter.rs\<close>: the filter language. A printed conjunction is read back as it was, whatever the
    quoted values contain. Reading floats and RFC 3339 times is a parameter.
  \<^item> Ingest: \<open>ingest/*.rs\<close>: the worker as a step relation over its channel, pending batch and the appends under
    way. Every accepted record is in exactly one place, limits are kept, a flush covers what was sent before
    it, closing ends with nothing left, a failed append is reported.
  \<^item> Buffered: \<open>buffered.rs\<close>: creates through one writer per table and the release, as a step relation. What was queued
    before a successful release is flushed; a create that overlaps the release may be lost. A writer is its contract.
  \<^item> Seek: \<open>arrow/key.rs\<close>, \<open>block.rs\<close>, \<open>bounds.rs\<close>, \<open>resume.rs\<close>, \<open>index.rs\<close>, \<open>search.rs\<close>, \<open>seek.rs\<close>, \<open>pages.rs\<close>,
    \<open>load.rs\<close>: extending an index gives the index of the whole file, following the page tokens reads the
    matching rows of the table in order, each once. The token codec is a parameter with its round trip as a law.
  \<^item> Capture: \<open>arrow/segment.rs\<close>, \<open>rotation.rs\<close>, \<open>codec.rs\<close>, \<open>driver.rs\<close>, \<open>crud.rs\<close>, \<open>series.rs\<close>: the files of a
    table under any sequence of writes, with disk failures at any point, keep bounds and indexes that a
    search may trust, and every acknowledged row is read back.
  \<^item> Aggregates: \<open>store/reduce.rs\<close>, \<open>arrow/aggregate.rs\<close>, \<open>arrow/series.rs\<close>: the one-pass reduction of a table is
    the reduction of each bucket of its matching rows, exact for integers. Float arithmetic is a parameter.

  Agents theory:
  \<^item> Combine: \<open>mcp/combine.rs\<close>: the probe, collisions, routing and every request of the combined handler.
    Probing ends, with every page read, against a session that answers; a combination is accepted exactly
    when no name is declared twice, and then each declared name reaches its one service. The MCP library and
    the JSON text codec are parameters.

  \<^item> This theory: the Redis provider, the keyspace and \<open>drop_database\<close> together.

  \<^bold>\<open>Termination and fuel.\<close> Everything is total except the two cursor walks of Redis, which may run for ever
  against a server whose cursors never return to zero, and the probe of an MCP session, which may wait for
  ever: they are partial functions, shown to return when no cursor comes back and when requests are
  answered and pages end. The trait objects read a walk that never returns as \<open>Panic\<close>; no property rests
  on that reading. The retry loop has a termination proof. Fuel is used once, by the client that follows
  the page tokens (\<open>read_pages\<close> in Seek): fuel above the number of matching rows is proved to be enough.

  \<^bold>\<open>Not modelled.\<close> Log records, metrics and traces (\<open>logging.rs\<close>, \<open>telemetry.rs\<close>, \<open>observed.rs\<close>, the
  observability of the gRPC crate, the telemetry crate): they only observe calls. Sockets, connection
  pools, listeners and protocol parsing: code of other crates. Bounded concurrent fan-out in \<open>batch.rs\<close>:
  modelled in the order of its inputs. \<open>Debug\<close> output of types of other crates: a parameter where an error
  message contains it. The laws of the Redis set commands: the commands are modelled, their contract as a
  \<open>set_store\<close> is not stated. Of the gRPC crate: server assembly, health and reflection services, validation and
  hints. Of the database crate: InfluxDB and the other adapters, the conversion of
  records to Arrow schemas and columns. Of the agents crate: everything but the combined server. The network and documentation crates.
\<close>

section \<open>Dropping one database of a shared server\<close>

text \<open>C8: a provider drops one named database. Over a server whose deletions remove exactly the named keys
  and whose scan answers a pattern exactly, dropping a database through the Redis provider removes every
  key of every feature of that database, reports how many there were, and leaves every key of every
  differently named database under the same prefix as it was, however the names are spelled.\<close>

theorem redis_drop_isolates:
  fixes v n1 matches
  defines "p \<equiv> resp_primitives_of (rpv_client v)"
    and "ks \<equiv> \<lambda>name db. keyspace_new (cc_prefix (rpv_config v)) name db False"
    and "d1 \<equiv> rcfg_database (cl_config (rpv_client v))"
  assumes "exact_delete (resp_driver p) live keep" "glob_semantics matches"
    and "resp_scan p (prefix_pattern (head (ks n1 d1))) w = Some (Ok found, w)"
    and "set found = {k. live w k \<noteq> None \<and> matches (prefix_pattern (head (ks n1 d1))) k}"
    and "check_namespace n1 = Ok ()" "check_namespace n2 = Ok ()" "n1 \<noteq> n2"
  shows "\<exists>w'. redis_drop_database v n1 w = (Ok (card {k. live w k \<noteq> None \<and> prefix (head (ks n1 d1)) k}), w') \<and>
    (\<forall>k. live w' (qualify (ks n1 d1) k) = None) \<and>
    (\<forall>k. live w' (qualify (ks n2 d2) k) = live w (qualify (ks n2 d2) k))"
proof -
  let ?h = "head (ks n1 d1)"
  have found: "set found = {k. live w k \<noteq> None \<and> prefix ?h k}"
    using assms(7) prefix_pattern_scope [OF assms(5)] by simp
  have "scn_scan (resp_scanner p) (prefix_pattern ?h) w = (Ok found, w)"
    using assms(6) by (simp add: resp_scanner_def returning_def)
  moreover have "\<forall>k\<in>set found. prefix ?h k" using found by simp
  ultimately obtain w' where w': "drop_database (resp_driver p) (resp_scanner p) ?h w = (Ok (card (set found)), w')"
    "live w' = (\<lambda>k. if k \<in> set found then None else live w k)"
    using exact_delete.drop_steady [OF assms(4), of "resp_scanner p" ?h w found] by blast
  have names: "n1 \<noteq> []" "CHR '':'' \<notin> set n1" "n2 \<noteq> []" "CHR '':'' \<notin> set n2"
    using assms(8,9) by (simp_all add: check_namespace_Ok)
  have "\<not> prefix ?h (qualify (ks n2 d2) k)" for k
    by (rule segment_heads_apart [OF names(2,4) assms(10)]) (use names in \<open>simp_all add: ks_def head_named\<close>)
  then have "\<forall>k. live w' (qualify (ks n2 d2) k) = live w (qualify (ks n2 d2) k)"
    using w'(2) found by simp
  moreover have "live w' (qualify (ks n1 d1) k) = None" for k
    using w'(2) found qualify_head [of "ks n1 d1" k] by simp
  moreover have "redis_drop_database v n1 w = (Ok (card (set found)), w')"
    using w'(1) assms(8) by (simp add: redis_drop_database_def io_bind_def io_lift_def p_def ks_def d1_def Let_def)
  ultimately show ?thesis by (intro exI [of _ w']) (simp add: found)
qed

definition sample_provider :: "(mem_world, mini_value) redis_provider" where
  "sample_provider = \<lparr>
     rpv_client = \<lparr>cl_config = redis_config_default, cl_profile = redis_profile,
       cl_executor = resp_managed_executor (mini_cell [''a:cache:vol:x'', ''ab:cache:vol:x'']), cl_codec = mini_codec\<rparr>,
     rpv_config = cache_config_default, rpv_connect = (\<lambda>_ _ w. (Err Unsupported, w)),
     rpv_default_new_id = (\<lambda>w. ('''', w))\<rparr>"

definition sample_shared :: mem_world where
  "sample_shared = snd (mem_set ''a:cache:vol:x'' [1] 0 (snd (mem_set ''ab:cache:vol:x'' [2] 0 memory_new)))"

lemma sample_shared_live: "mem_live sample_shared = [''ab:cache:vol:x'' \<mapsto> [2], ''a:cache:vol:x'' \<mapsto> [1]]"
  by (simp add: sample_shared_def mem_set_def mem_expires_at_def mem_insert_def memory_new_def mem_live_def is_expired_def
      fun_eq_iff)

lemma sample_provider_primitives:
  "resp_primitives_of (rpv_client sample_provider) = mini_primitives [''a:cache:vol:x'', ''ab:cache:vol:x'']"
  by (simp add: sample_provider_def resp_primitives_of_def mini_primitives_def)

lemma mini_scan:
  "resp_scan (mini_primitives catalog) pat w =
     Some (Ok (dedup [] (filter (\<lambda>k. mem_live w k \<noteq> None \<and> glob_match pat k) catalog)), w)"
  unfolding resp_scan_def
  by (subst resp_scan_loop.simps) (simp add: resp_scan_page_def resp_reply_def resp_command_def mini_execute mini_codec_eq
      mini_query_def mini_codec_def resp_decode_def io_bind_def io_lift_def)

lemma sample_heads:
  "head (keyspace_new '''' ''a'' 0 False) = ''a:cache:''"
  "qualify (keyspace_new '''' ''a'' 0 False) (VolEntry ''x'') = ''a:cache:vol:x''"
  "qualify (keyspace_new '''' ''ab'' 0 False) (VolEntry ''x'') = ''ab:cache:vol:x''"
  by code_simp+

theorem redis_drop_isolates_witness:
  "\<exists>w'. redis_drop_database sample_provider ''a'' sample_shared = (Ok 1, w') \<and>
     mem_live w' ''a:cache:vol:x'' = None \<and> mem_live w' ''ab:cache:vol:x'' = Some [2]"
proof -
  let ?v = sample_provider and ?w = sample_shared
  have v: "cc_prefix (rpv_config ?v) = ''''" "rcfg_database (cl_config (rpv_client ?v)) = 0"
    by (simp_all add: sample_provider_def cache_config_default_def redis_config_default_def)
  have under: "{k. mem_live ?w k \<noteq> None \<and> prefix ''a:cache:'' k} = {''a:cache:vol:x''}"
    by (auto simp: sample_shared_live split: if_splits)
  have scan: "resp_scan (resp_primitives_of (rpv_client ?v)) (prefix_pattern ''a:cache:'') ?w = Some (Ok [''a:cache:vol:x''], ?w)"
    by (simp add: sample_provider_primitives mini_scan sample_shared_live prefix_pattern_scope [OF glob_match_semantics])
  have found: "set [''a:cache:vol:x''] = {k. mem_live ?w k \<noteq> None \<and> glob_match (prefix_pattern ''a:cache:'') k}"
    unfolding prefix_pattern_scope [OF glob_match_semantics] under by simp
  have names: "check_namespace ''a'' = Ok ()" "check_namespace ''ab'' = Ok ()" "''a'' \<noteq> ''ab''" by code_simp+
  have del: "exact_delete (resp_driver (resp_primitives_of (rpv_client ?v))) mem_live (\<lambda>_. ())"
    unfolding sample_provider_primitives by (rule mini_exact.exact_delete_axioms)
  have one: "card {''a:cache:vol:x''} = (1::nat)" by simp
  have "\<exists>w'. redis_drop_database ?v ''a'' ?w = (Ok 1, w') \<and>
      (\<forall>k. mem_live w' (qualify (keyspace_new '''' ''a'' 0 False) k) = None) \<and>
      (\<forall>k. mem_live w' (qualify (keyspace_new '''' ''ab'' 0 False) k) = mem_live ?w (qualify (keyspace_new '''' ''ab'' 0 False) k))"
    using redis_drop_isolates [of ?v, unfolded v, OF del glob_match_semantics, where ?n1.0 = "''a''" and ?n2.0 = "''ab''" and ?d2.0 = 0,
        unfolded sample_heads(1), OF scan found names] unfolding under one .
  then obtain w' where w': "redis_drop_database ?v ''a'' ?w = (Ok 1, w')"
    "\<forall>k. mem_live w' (qualify (keyspace_new '''' ''a'' 0 False) k) = None"
    "\<forall>k. mem_live w' (qualify (keyspace_new '''' ''ab'' 0 False) k) = mem_live ?w (qualify (keyspace_new '''' ''ab'' 0 False) k)"
    by blast
  have "mem_live w' ''a:cache:vol:x'' = None" using w'(2) sample_heads(2) by metis
  moreover have "mem_live w' ''ab:cache:vol:x'' = mem_live ?w ''ab:cache:vol:x''" using w'(3) sample_heads(3) by metis
  then have "mem_live w' ''ab:cache:vol:x'' = Some [2]" by (simp add: sample_shared_live)
  ultimately show ?thesis using w'(1) by blast
qed

end
